theory Spec2Isabelle
  imports Main "HOL-Library.Multiset"
begin

section \<open>The arena-allocated B-tree of btree.cpp\<close>

text \<open>
  The class template \<^verbatim>\<open>HFTBTree<Key, Value, ORDER>\<close> is embedded with the key type as a
  linear order \<open>'k\<close>, the value type as \<open>'v\<close>, and the two compile-time constants the code
  depends on collected in a record: the template parameter \<open>ORDER\<close> and the compiler's
  \<^verbatim>\<open>sizeof(Node)\<close>.

  Memory is a flat store from addresses to node-shaped blocks. A \<^verbatim>\<open>Node*\<close> is an address
  (a natural number), the null pointer is the address 0 that \<^verbatim>\<open>memset\<close> writes, and the
  arrays of a node are functions from the index to the element.

  The block that \<^verbatim>\<open>aligned_alloc\<close> returns extends over \<^verbatim>\<open>ARENA_SIZE\<close> bytes from the address
  \<^verbatim>\<open>arena\<close>. The source never compares the offset with that size: a node that does not
  lie inside the block is constructed all the same, which is undefined behaviour. The
  embedding gives such a run no state: it ends with the fault \<open>OutOfArena\<close>. The fault is
  not an exception of the source (the source has none); it marks the place where the
  source leaves the memory it owns.

  \<^verbatim>\<open>insert\<close> and \<^verbatim>\<open>insertNonFull\<close> take the key and the value by \<^verbatim>\<open>const\<close> reference and read
  them in the middle of their writes. A reference is embedded by what it reads in a
  given state, so that an argument that refers into the tree's own storage (the slot
  behind a pointer that \<^verbatim>\<open>search\<close> returned) changes when that slot is written.
\<close>

subsection \<open>Constants\<close>

record params =
  ORDER :: nat
  sizeof_Node :: nat

definition MAX_KEYS :: "params \<Rightarrow> nat" where
  "MAX_KEYS c = ORDER c * 2"

definition MAX_CHILD :: "params \<Rightarrow> nat" where
  "MAX_CHILD c = MAX_KEYS c + 1"

definition ARENA_SIZE :: nat where
  "ARENA_SIZE = 2 ^ 26"

text \<open>Conversion of an \<^verbatim>\<open>int\<close> to \<^verbatim>\<open>uint16_t\<close>, the type of \<^verbatim>\<open>keyCount\<close>.\<close>

definition u16 :: "int \<Rightarrow> nat" where
  "u16 x = nat (x mod 65536)"

subsection \<open>Node and tree\<close>

record ('k, 'v) Node =
  leaf :: bool
  keyCount :: nat
  keys :: "nat \<Rightarrow> 'k"
  vals :: "nat \<Rightarrow> 'v"
  child :: "nat \<Rightarrow> nat"

record ('k, 'v) HFTBTree =
  root :: nat
  arena :: nat
  arenaOffset :: nat
  mem :: "nat \<Rightarrow> ('k, 'v) Node"

definition full :: "params \<Rightarrow> ('k, 'v) Node \<Rightarrow> bool" where
  "full c n = (keyCount n = MAX_KEYS c)"

text \<open>An assignment through a node pointer: \<^verbatim>\<open>p->field = ...\<close>.\<close>

definition modify :: "nat \<Rightarrow> (('k, 'v) Node \<Rightarrow> ('k, 'v) Node) \<Rightarrow> ('k, 'v) HFTBTree \<Rightarrow> ('k, 'v) HFTBTree" where
  "modify p f t = t\<lparr>mem := (mem t)(p := f (mem t p))\<rparr>"

text \<open>\<^verbatim>\<open>memset(a, 0, n * sizeof(a[0]))\<close> and \<^verbatim>\<open>memcpy(dst, src + off, n * sizeof(src[0]))\<close>
  on arrays.\<close>

definition memset0 :: "(nat \<Rightarrow> nat) \<Rightarrow> nat \<Rightarrow> (nat \<Rightarrow> nat)" where
  "memset0 a n = (\<lambda>i. if i < n then 0 else a i)"

definition memcpy :: "(nat \<Rightarrow> 'a) \<Rightarrow> (nat \<Rightarrow> 'a) \<Rightarrow> nat \<Rightarrow> nat \<Rightarrow> (nat \<Rightarrow> 'a)" where
  "memcpy dst src off n = (\<lambda>i. if i < n then src (off + i) else dst i)"

subsection \<open>Faults and references\<close>

text \<open>The one way a run leaves the memory it owns: a node constructed outside the block
  of \<^verbatim>\<open>ARENA_SIZE\<close> bytes.\<close>

datatype fault = OutOfArena

text \<open>An argument passed as \<^verbatim>\<open>const Key&\<close> or \<^verbatim>\<open>const Value&\<close>: what the reference reads in
  a state of the tree. \<open>obj x\<close> is an object outside the tree's storage, which no write of
  the tree changes; \<open>val_slot p i\<close> is the slot \<^verbatim>\<open>vals[i]\<close> of the node at \<open>p\<close>, the kind of
  address \<^verbatim>\<open>search\<close> returns.\<close>

type_synonym ('k, 'v, 'a) cref = "('k, 'v) HFTBTree \<Rightarrow> 'a"

definition obj :: "'a \<Rightarrow> ('k, 'v, 'a) cref" where
  "obj x = (\<lambda>t. x)"

definition val_slot :: "nat \<Rightarrow> nat \<Rightarrow> ('k, 'v, 'v) cref" where
  "val_slot p i = (\<lambda>t. vals (mem t p) i)"

subsection \<open>Arena allocator\<close>

text \<open>
  \<^verbatim>\<open>allocNode\<close>: the block at \<^verbatim>\<open>arena + arenaOffset\<close>, the offset advanced by
  \<^verbatim>\<open>sizeof(Node)\<close>, and the constructor \<^verbatim>\<open>Node(leaf)\<close> run in place: it sets
  \<^verbatim>\<open>leaf\<close> and \<^verbatim>\<open>keyCount\<close>, zeroes \<^verbatim>\<open>child\<close>, and leaves \<^verbatim>\<open>keys\<close> and \<^verbatim>\<open>vals\<close> as the
  block held them. There is no comparison with \<^verbatim>\<open>ARENA_SIZE\<close> in the source; when the
  block ends beyond the arena, the placement-new writes outside the memory of
  \<^verbatim>\<open>aligned_alloc\<close>, and the run ends with \<open>OutOfArena\<close>.
\<close>

definition allocNode :: "params \<Rightarrow> ('k, 'v) HFTBTree \<Rightarrow> bool \<Rightarrow> fault + (nat \<times> ('k, 'v) HFTBTree)" where
  "allocNode c t lf =
     (let ptr = arena t + arenaOffset t;
          t1 = t\<lparr>arenaOffset := arenaOffset t + sizeof_Node c\<rparr>
      in if arenaOffset t1 \<le> ARENA_SIZE
         then Inr (ptr, modify ptr (\<lambda>n. n\<lparr>leaf := lf, keyCount := 0,
                                         child := memset0 (child n) (MAX_CHILD c)\<rparr>) t1)
         else Inl OutOfArena)"

text \<open>
  The constructor \<^verbatim>\<open>HFTBTree()\<close>. The address returned by \<^verbatim>\<open>aligned_alloc\<close>, which is
  taken to succeed, and the contents of the memory it returns are parameters; the
  root node is allocated like every other node, so that a node larger than the arena
  ends the constructor with \<open>OutOfArena\<close>. \<^verbatim>\<open>root\<close> is written before it is first read.
\<close>

definition HFTBTree_new :: "params \<Rightarrow> nat \<Rightarrow> (nat \<Rightarrow> ('k, 'v) Node) \<Rightarrow> fault + ('k, 'v) HFTBTree" where
  "HFTBTree_new c base m0 =
     (case allocNode c \<lparr>root = 0, arena = base, arenaOffset = 0, mem = m0\<rparr> True of
        Inl e \<Rightarrow> Inl e
      | Inr (p, t1) \<Rightarrow> Inr (t1\<lparr>root := p\<rparr>))"

subsection \<open>findPos\<close>

text \<open>The remainder loop \<^verbatim>\<open>for (; i < n; i++)\<close>, then \<^verbatim>\<open>return n\<close>.\<close>

function findPos_rest :: "('k::linorder, 'v) Node \<Rightarrow> 'k \<Rightarrow> nat \<Rightarrow> nat \<Rightarrow> nat" where
  "findPos_rest node k i n =
     (if i < n then (if keys node i \<ge> k then i else findPos_rest node k (i + 1) n)
      else n)"
  by pat_completeness auto
termination
  by (relation "measure (\<lambda>(node, k, i, n). n - i)") auto

text \<open>The unrolled loop \<^verbatim>\<open>for (; i + 4 <= n; i += 4)\<close>, followed by the remainder loop.\<close>

function findPos_blocks :: "('k::linorder, 'v) Node \<Rightarrow> 'k \<Rightarrow> nat \<Rightarrow> nat \<Rightarrow> nat" where
  "findPos_blocks node k i n =
     (if i + 4 \<le> n then
        (if keys node i \<ge> k then i
         else if keys node (i + 1) \<ge> k then i + 1
         else if keys node (i + 2) \<ge> k then i + 2
         else if keys node (i + 3) \<ge> k then i + 3
         else findPos_blocks node k (i + 4) n)
      else findPos_rest node k i n)"
  by pat_completeness auto
termination
  by (relation "measure (\<lambda>(node, k, i, n). n - i)") auto

definition findPos :: "('k::linorder, 'v) Node \<Rightarrow> 'k \<Rightarrow> nat" where
  "findPos node k = findPos_blocks node k 0 (keyCount node)"

subsection \<open>search\<close>

text \<open>
  The loop \<^verbatim>\<open>while (true)\<close> of \<^verbatim>\<open>search\<close>, from the node \<open>cur\<close>. \<open>None\<close> is a loop that
  never returns. The result is the value in the slot the returned pointer addresses
  (\<open>None\<close> for \<^verbatim>\<open>nullptr\<close>) together with the tree, since \<^verbatim>\<open>search\<close> is not a \<^verbatim>\<open>const\<close>
  member.
\<close>

partial_function (option) search_loop ::
  "('k::linorder, 'v) HFTBTree \<Rightarrow> nat \<Rightarrow> 'k \<Rightarrow> ('v option \<times> ('k, 'v) HFTBTree) option" where
  "search_loop t cur k =
     (let pos = findPos (mem t cur) k in
      if pos < keyCount (mem t cur) \<and> keys (mem t cur) pos = k
        then Some (Some (vals (mem t cur) pos), t)
      else if leaf (mem t cur) then Some (None, t)
      else search_loop t (child (mem t cur) pos) k)"

declare search_loop.simps [code]

definition search :: "('k::linorder, 'v) HFTBTree \<Rightarrow> 'k \<Rightarrow> ('v option \<times> ('k, 'v) HFTBTree) option" where
  "search t k = search_loop t (root t) k"

text \<open>
  The pointer \<^verbatim>\<open>search\<close> returns, \<^verbatim>\<open>&cur->vals[pos]\<close>, as the node and the index of the slot
  (\<open>None\<close> for \<^verbatim>\<open>nullptr\<close>); \<open>search\<close> above gives the value read through it.
\<close>

partial_function (option) search_slot_loop ::
  "('k::linorder, 'v) HFTBTree \<Rightarrow> nat \<Rightarrow> 'k \<Rightarrow> (nat \<times> nat) option option" where
  "search_slot_loop t cur k =
     (let pos = findPos (mem t cur) k in
      if pos < keyCount (mem t cur) \<and> keys (mem t cur) pos = k
        then Some (Some (cur, pos))
      else if leaf (mem t cur) then Some None
      else search_slot_loop t (child (mem t cur) pos) k)"

definition search_slot :: "('k::linorder, 'v) HFTBTree \<Rightarrow> 'k \<Rightarrow> (nat \<times> nat) option option" where
  "search_slot t k = search_slot_loop t (root t) k"

subsection \<open>splitChild\<close>

text \<open>The loop \<^verbatim>\<open>for (int i = parent->keyCount; i > idx; --i)\<close> that shifts the parent's
  entries right.\<close>

function shift_loop :: "('k, 'v) HFTBTree \<Rightarrow> nat \<Rightarrow> nat \<Rightarrow> nat \<Rightarrow> ('k, 'v) HFTBTree" where
  "shift_loop t parent idx i =
     (if i > idx then
        (let t1 = modify parent (\<lambda>n. n\<lparr>child := (child n)(i + 1 := child n i)\<rparr>) t;
             t2 = modify parent (\<lambda>n. n\<lparr>keys := (keys n)(i := keys n (i - 1))\<rparr>) t1;
             t3 = modify parent (\<lambda>n. n\<lparr>vals := (vals n)(i := vals n (i - 1))\<rparr>) t2
         in shift_loop t3 parent idx (i - 1))
      else t)"
  by pat_completeness auto
termination
  by (relation "measure (\<lambda>(t, parent, idx, i). i)") auto

definition splitChild :: "params \<Rightarrow> ('k, 'v) HFTBTree \<Rightarrow> nat \<Rightarrow> nat \<Rightarrow> fault + ('k, 'v) HFTBTree" where
  "splitChild c t parent idx =
     (let fullNode = child (mem t parent) idx in
      case allocNode c t (leaf (mem t fullNode)) of
        Inl e \<Rightarrow> Inl e
      | Inr (newNode, t1) \<Rightarrow>
         (let mid = MAX_KEYS c div 2;
              t2 = modify newNode (\<lambda>n. n\<lparr>keyCount := u16 (int (MAX_KEYS c) - int mid - 1)\<rparr>) t1;
              t3 = modify newNode (\<lambda>n. n\<lparr>keys :=
                     memcpy (keys n) (keys (mem t2 fullNode)) (mid + 1) (keyCount (mem t2 newNode))\<rparr>) t2;
              t4 = modify newNode (\<lambda>n. n\<lparr>vals :=
                     memcpy (vals n) (vals (mem t3 fullNode)) (mid + 1) (keyCount (mem t3 newNode))\<rparr>) t3;
              t5 = (if \<not> leaf (mem t4 fullNode)
                    then modify newNode (\<lambda>n. n\<lparr>child :=
                           memcpy (child n) (child (mem t4 fullNode)) (mid + 1)
                             (keyCount (mem t4 newNode) + 1)\<rparr>) t4
                    else t4);
              t6 = modify fullNode (\<lambda>n. n\<lparr>keyCount := u16 (int mid)\<rparr>) t5;
              t7 = shift_loop t6 parent idx (keyCount (mem t6 parent));
              t8 = modify parent (\<lambda>n. n\<lparr>child := (child n)(idx + 1 := newNode)\<rparr>) t7;
              t9 = modify parent (\<lambda>n. n\<lparr>keys := (keys n)(idx := keys (mem t8 fullNode) mid)\<rparr>) t8;
              t10 = modify parent (\<lambda>n. n\<lparr>vals := (vals n)(idx := vals (mem t9 fullNode) mid)\<rparr>) t9
          in Inr (modify parent (\<lambda>n. n\<lparr>keyCount := u16 (int (keyCount n) + 1)\<rparr>) t10)))"

subsection \<open>insertNonFull and insert\<close>

text \<open>The loop \<^verbatim>\<open>while (i >= 0 && node->keys[i] > k)\<close> of the leaf case; it returns the
  tree and the final \<open>i\<close>. The reference \<open>k\<close> is read at every test, in the state the
  shifts have reached.\<close>

function leaf_shift ::
  "('k::linorder, 'v) HFTBTree \<Rightarrow> nat \<Rightarrow> ('k, 'v, 'k) cref \<Rightarrow> int \<Rightarrow> ('k, 'v) HFTBTree \<times> int" where
  "leaf_shift t node k i =
     (if i \<ge> 0 \<and> keys (mem t node) (nat i) > k t then
        (let t1 = modify node (\<lambda>n. n\<lparr>keys := (keys n)(nat (i + 1) := keys n (nat i))\<rparr>) t;
             t2 = modify node (\<lambda>n. n\<lparr>vals := (vals n)(nat (i + 1) := vals n (nat i))\<rparr>) t1
         in leaf_shift t2 node k (i - 1))
      else (t, i))"
  by pat_completeness auto
termination
  by (relation "measure (\<lambda>(t, node, k, i). nat (i + 1))") auto

text \<open>\<open>None\<close> is a recursion that never returns. The key is read after the loop and the
  value after the key has been stored, as the assignments of the source read them.\<close>

partial_function (option) insertNonFull ::
  "params \<Rightarrow> ('k::linorder, 'v) HFTBTree \<Rightarrow> nat \<Rightarrow> ('k, 'v, 'k) cref \<Rightarrow> ('k, 'v, 'v) cref
     \<Rightarrow> (fault + ('k, 'v) HFTBTree) option" where
  "insertNonFull c t node k v =
     (if leaf (mem t node) then
        (let (t1, i) = leaf_shift t node k (int (keyCount (mem t node)) - 1);
             t2 = modify node (\<lambda>n. n\<lparr>keys := (keys n)(nat (i + 1) := k t1)\<rparr>) t1;
             t3 = modify node (\<lambda>n. n\<lparr>vals := (vals n)(nat (i + 1) := v t2)\<rparr>) t2
         in Some (Inr (modify node (\<lambda>n. n\<lparr>keyCount := u16 (int (keyCount n) + 1)\<rparr>) t3)))
      else
        (let pos = findPos (mem t node) (k t) in
         if full c (mem t (child (mem t node) pos)) then
           (case splitChild c t node pos of
              Inl e \<Rightarrow> Some (Inl e)
            | Inr t1 \<Rightarrow>
               (let pos1 = (if keys (mem t1 node) pos < k t1 then pos + 1 else pos)
                in insertNonFull c t1 (child (mem t1 node) pos1) k v))
         else insertNonFull c t (child (mem t node) pos) k v))"

declare insertNonFull.simps [code]

definition insert_kv ::
  "params \<Rightarrow> ('k::linorder, 'v) HFTBTree \<Rightarrow> ('k, 'v, 'k) cref \<Rightarrow> ('k, 'v, 'v) cref
     \<Rightarrow> (fault + ('k, 'v) HFTBTree) option" where
  "insert_kv c t k v =
     (let r = root t in
      if full c (mem t r) then
        (case allocNode c t False of
           Inl e \<Rightarrow> Some (Inl e)
         | Inr (s, t1) \<Rightarrow>
            (let t2 = t1\<lparr>root := s\<rparr>;
                 t3 = modify s (\<lambda>n. n\<lparr>child := (child n)(0 := r)\<rparr>) t2
             in case splitChild c t3 s 0 of
                  Inl e \<Rightarrow> Some (Inl e)
                | Inr t4 \<Rightarrow> insertNonFull c t4 s k v))
      else insertNonFull c t r k v)"

text \<open>A sequence of calls of \<^verbatim>\<open>insert\<close>, in order, each with its two arguments; it ends
  at the first call that does not return a tree.\<close>

fun inserts ::
  "params \<Rightarrow> ('k::linorder, 'v) HFTBTree \<Rightarrow> (('k, 'v, 'k) cref \<times> ('k, 'v, 'v) cref) list
     \<Rightarrow> (fault + ('k, 'v) HFTBTree) option" where
  "inserts c t [] = Some (Inr t)"
| "inserts c t ((k, v) # kvs) =
     (case insert_kv c t k v of
        None \<Rightarrow> None
      | Some (Inl e) \<Rightarrow> Some (Inl e)
      | Some (Inr t1) \<Rightarrow> inserts c t1 kvs)"

text \<open>Key/value pairs passed as objects outside the tree's storage.\<close>

fun objs :: "('k \<times> 'v) list \<Rightarrow> (('k, 'v, 'k) cref \<times> ('k, 'v, 'v) cref) list" where
  "objs [] = []"
| "objs ((k, v) # kvs) = (obj k, obj v) # objs kvs"

text \<open>The constructor followed by a sequence of calls of \<^verbatim>\<open>insert\<close>.\<close>

definition built ::
  "params \<Rightarrow> nat \<Rightarrow> (nat \<Rightarrow> ('k::linorder, 'v) Node)
     \<Rightarrow> (('k, 'v, 'k) cref \<times> ('k, 'v, 'v) cref) list \<Rightarrow> (fault + ('k, 'v) HFTBTree) option" where
  "built c base m0 args =
     (case HFTBTree_new c base m0 of Inl e \<Rightarrow> Some (Inl e) | Inr t0 \<Rightarrow> inserts c t0 args)"

text \<open>What \<^verbatim>\<open>search(k)\<close> returns after the constructor and a sequence of calls of
  \<^verbatim>\<open>insert\<close>: \<open>None\<close> when a call does not return, \<open>Some (Inl OutOfArena)\<close> when a node was
  constructed outside the arena, \<open>Some (Inr None)\<close> for \<^verbatim>\<open>nullptr\<close>, \<open>Some (Inr (Some v))\<close> for
  a pointer to \<open>v\<close>.\<close>

definition search_after ::
  "params \<Rightarrow> nat \<Rightarrow> (nat \<Rightarrow> ('k::linorder, 'v) Node)
     \<Rightarrow> (('k, 'v, 'k) cref \<times> ('k, 'v, 'v) cref) list \<Rightarrow> 'k \<Rightarrow> (fault + 'v option) option" where
  "search_after c base m0 args k =
     (case built c base m0 args of
        None \<Rightarrow> None
      | Some (Inl e) \<Rightarrow> Some (Inl e)
      | Some (Inr t) \<Rightarrow> (case search t k of None \<Rightarrow> None | Some (r, t') \<Rightarrow> Some (Inr r)))"

text \<open>The pointer \<^verbatim>\<open>search(k)\<close> returns after the constructor and a sequence of calls of
  \<^verbatim>\<open>insert\<close>.\<close>

definition slot_after ::
  "params \<Rightarrow> nat \<Rightarrow> (nat \<Rightarrow> ('k::linorder, 'v) Node)
     \<Rightarrow> (('k, 'v, 'k) cref \<times> ('k, 'v, 'v) cref) list \<Rightarrow> 'k \<Rightarrow> (fault + (nat \<times> nat) option) option" where
  "slot_after c base m0 args k =
     (case built c base m0 args of
        None \<Rightarrow> None
      | Some (Inl e) \<Rightarrow> Some (Inl e)
      | Some (Inr t) \<Rightarrow> (case search_slot t k of None \<Rightarrow> None | Some r \<Rightarrow> Some (Inr r)))"

text \<open>The keys of the root node after the constructor and a sequence of calls of
  \<^verbatim>\<open>insert\<close>, read from the first \<^verbatim>\<open>keyCount\<close> slots.\<close>

definition root_keys_after ::
  "params \<Rightarrow> nat \<Rightarrow> (nat \<Rightarrow> ('k::linorder, 'v) Node)
     \<Rightarrow> (('k, 'v, 'k) cref \<times> ('k, 'v, 'v) cref) list \<Rightarrow> (fault + 'k list) option" where
  "root_keys_after c base m0 args =
     (case built c base m0 args of
        None \<Rightarrow> None
      | Some (Inl e) \<Rightarrow> Some (Inl e)
      | Some (Inr t) \<Rightarrow> Some (Inr (map (keys (mem t (root t))) [0..<keyCount (mem t (root t))])))"

text \<open>The arena offset after the constructor and a sequence of calls of \<^verbatim>\<open>insert\<close>: the
  offset of the block the next \<^verbatim>\<open>allocNode\<close> hands out.\<close>

definition offset_after ::
  "params \<Rightarrow> nat \<Rightarrow> (nat \<Rightarrow> ('k::linorder, 'v) Node)
     \<Rightarrow> (('k, 'v, 'k) cref \<times> ('k, 'v, 'v) cref) list \<Rightarrow> (fault + nat) option" where
  "offset_after c base m0 args =
     (case built c base m0 args of
        None \<Rightarrow> None
      | Some (Inl e) \<Rightarrow> Some (Inl e)
      | Some (Inr t) \<Rightarrow> Some (Inr (arenaOffset t)))"

subsection \<open>Reading a node and a tree\<close>

text \<open>The meaningful part of a node's arrays: the first \<^verbatim>\<open>keyCount\<close> keys and values, and
  the first \<^verbatim>\<open>keyCount + 1\<close> children.\<close>

definition node_keys :: "('k, 'v) Node \<Rightarrow> 'k list" where
  "node_keys n = map (keys n) [0..<keyCount n]"

definition node_vals :: "('k, 'v) Node \<Rightarrow> 'v list" where
  "node_vals n = map (vals n) [0..<keyCount n]"

definition node_children :: "('k, 'v) Node \<Rightarrow> nat list" where
  "node_children n = map (child n) [0..<keyCount n + 1]"

text \<open>\<open>reach t d p\<close>: the node at \<open>p\<close> is reached from the root by following \<open>d\<close> child
  pointers, each one of the first \<^verbatim>\<open>keyCount + 1\<close> children of an internal node.\<close>

inductive reach :: "('k, 'v) HFTBTree \<Rightarrow> nat \<Rightarrow> nat \<Rightarrow> bool" for t where
  reach_root: "reach t 0 (root t)"
| reach_child: "reach t d p \<Longrightarrow> \<not> leaf (mem t p) \<Longrightarrow> i \<le> keyCount (mem t p) \<Longrightarrow>
     reach t (Suc d) (child (mem t p) i)"

text \<open>\<open>key_in t p k\<close>: the key \<open>k\<close> is stored in the subtree rooted at \<open>p\<close>.\<close>

inductive key_in :: "('k, 'v) HFTBTree \<Rightarrow> nat \<Rightarrow> 'k \<Rightarrow> bool" for t where
  key_here: "i < keyCount (mem t p) \<Longrightarrow> key_in t p (keys (mem t p) i)"
| key_below: "\<not> leaf (mem t p) \<Longrightarrow> i \<le> keyCount (mem t p) \<Longrightarrow>
     key_in t (child (mem t p) i) k \<Longrightarrow> key_in t p k"

text \<open>The parameters the code can be compiled with: \<^verbatim>\<open>Key keys[MAX_KEYS]\<close> needs a positive
  \<^verbatim>\<open>ORDER\<close>, \<^verbatim>\<open>keyCount\<close> holds \<^verbatim>\<open>MAX_KEYS\<close> only up to 65535, and a node occupies
  at least one byte.\<close>

definition valid_params :: "params \<Rightarrow> bool" where
  "valid_params c = (0 < ORDER c \<and> ORDER c \<le> 32767 \<and> 0 < sizeof_Node c)"

subsection \<open>Concrete instances\<close>

definition ex_params :: params where
  "ex_params = \<lparr>ORDER = 2, sizeof_Node = 64\<rparr>"

text \<open>An instantiation with values of 8 MiB, such as \<^verbatim>\<open>HFTBTree<int, V, 1>\<close> with
  \<^verbatim>\<open>struct V { int id; char pad[8388604]; }\<close>: a node occupies 16777280 bytes (two keys,
  two values and three child pointers, rounded up to the alignment of 64) and the arena
  has room for three nodes. A value is written as its \<^verbatim>\<open>id\<close>.\<close>

definition ex_wide :: params where
  "ex_wide = \<lparr>ORDER = 1, sizeof_Node = 16777280\<rparr>"

text \<open>An instantiation whose \<^verbatim>\<open>MAX_KEYS\<close> is 65536, one more than \<^verbatim>\<open>uint16_t keyCount\<close> can
  hold, such as \<^verbatim>\<open>HFTBTree<int, int, 32768>\<close> with a node of 1048640 bytes.\<close>

definition ex_big :: params where
  "ex_big = \<lparr>ORDER = 32768, sizeof_Node = 1048640\<rparr>"

text \<open>The pairs \<open>(0, 0), (1, 1), \<dots>, (n - 1, n - 1)\<close>.\<close>

definition ex_pairs :: "nat \<Rightarrow> (int \<times> int) list" where
  "ex_pairs n = map (\<lambda>i. (int i, int i)) [0..<n]"

definition ex_mem :: "nat \<Rightarrow> (int, int) Node" where
  "ex_mem = (\<lambda>_. \<lparr>leaf = False, keyCount = 7, keys = (\<lambda>_. 99), vals = (\<lambda>_. 98), child = (\<lambda>_. 97)\<rparr>)"

definition ex_node :: "(int, int) Node" where
  "ex_node = \<lparr>leaf = True, keyCount = 6, keys = (\<lambda>i. 10 * int i), vals = (\<lambda>i. int i), child = (\<lambda>_. 0)\<rparr>"

definition ex_exhausted :: "(int, int) HFTBTree" where
  "ex_exhausted = \<lparr>root = 1000, arena = 1000, arenaOffset = ARENA_SIZE, mem = ex_mem\<rparr>"

text \<open>A store just before the split of a full root: the new root at 1064 with the old
  root, a full internal node at 1000, as its only child.\<close>

definition ex_split :: "(int, int) HFTBTree" where
  "ex_split = \<lparr>root = 1064, arena = 1000, arenaOffset = 128,
     mem = (\<lambda>_. \<lparr>leaf = False, keyCount = 0, keys = (\<lambda>_. 0), vals = (\<lambda>_. 0), child = (\<lambda>_. 0)\<rparr>)
       (1000 := \<lparr>leaf = False, keyCount = 4, keys = (\<lambda>i. int i + 1), vals = (\<lambda>i. 10 * (int i + 1)),
                  child = (\<lambda>i. 2000 + 64 * i)\<rparr>,
        1064 := \<lparr>leaf = False, keyCount = 0, keys = (\<lambda>_. 0), vals = (\<lambda>_. 0),
                  child = (\<lambda>i. if i = 0 then 1000 else 0)\<rparr>)\<rparr>"

section \<open>The tree a store represents\<close>

text \<open>
  The proofs relate the store to the tree it holds: a node with its address, leaf flag,
  entries (the first \<^verbatim>\<open>keyCount\<close> key/value pairs) and children.
\<close>

datatype ('k, 'v) bt = Br (addr: nat) (isleaf: bool) (ents: "('k \<times> 'v) list") (kids: "('k, 'v) bt list")

text \<open>The store \<open>m\<close> holds the tree: every node of the tree is found at its address.\<close>

fun repr :: "(nat \<Rightarrow> ('k, 'v) Node) \<Rightarrow> ('k, 'v) bt \<Rightarrow> bool" where
  "repr m (Br a lf es cs) =
     (leaf (m a) = lf \<and> keyCount (m a) = length es
      \<and> (\<forall>i < length es. keys (m a) i = fst (es ! i) \<and> vals (m a) i = snd (es ! i))
      \<and> (\<forall>i < length cs. child (m a) i = addr (cs ! i))
      \<and> (\<forall>x \<in> set cs. repr m x))"

fun addrs :: "('k, 'v) bt \<Rightarrow> nat list" where
  "addrs (Br a lf es cs) = a # concat (map addrs cs)"

text \<open>The entries of a tree in order: child 0, entry 0, child 1, entry 1, and so on.\<close>

fun inter :: "'a list list \<Rightarrow> 'a list \<Rightarrow> 'a list" where
  "inter [] es = es"
| "inter (c # cs) [] = c @ concat cs"
| "inter (c # cs) (e # es) = c @ e # inter cs es"

fun inorder :: "('k, 'v) bt \<Rightarrow> ('k \<times> 'v) list" where
  "inorder (Br a lf es cs) = inter (map inorder cs) es"

definition keyset :: "('k, 'v) bt \<Rightarrow> 'k set" where
  "keyset t = fst ` set (inorder t)"

text \<open>Shape: every leaf is at depth \<open>h\<close>, an internal node has one child more than entries,
  and no node has more than \<^verbatim>\<open>MAX_KEYS\<close> entries.\<close>

fun wf :: "params \<Rightarrow> nat \<Rightarrow> ('k, 'v) bt \<Rightarrow> bool" where
  "wf c 0 (Br a lf es cs) = (lf \<and> cs = [] \<and> length es \<le> MAX_KEYS c)"
| "wf c (Suc h) (Br a lf es cs) =
     (\<not> lf \<and> length cs = length es + 1 \<and> length es \<le> MAX_KEYS c \<and> (\<forall>x \<in> set cs. wf c h x))"

text \<open>Order: the keys of the tree, read in order, are sorted non-decreasingly.\<close>

definition ord :: "('k::linorder, 'v) bt \<Rightarrow> bool" where
  "ord t = sorted (map fst (inorder t))"

text \<open>The scan of \<^verbatim>\<open>findPos\<close> and the slot the leaf loop of \<^verbatim>\<open>insertNonFull\<close> opens, on
  the entries of a node.\<close>

definition lb :: "('k::linorder \<times> 'v) list \<Rightarrow> 'k \<Rightarrow> nat" where
  "lb es k = length (takeWhile (\<lambda>e. fst e < k) es)"

definition ipos :: "('k::linorder \<times> 'v) list \<Rightarrow> 'k \<Rightarrow> nat" where
  "ipos es k = length es - length (takeWhile (\<lambda>e. k < fst e) (rev es))"

definition leaf_ins :: "('k::linorder \<times> 'v) list \<Rightarrow> 'k \<Rightarrow> 'v \<Rightarrow> ('k \<times> 'v) list" where
  "leaf_ins es k v = take (ipos es k) es @ (k, v) # drop (ipos es k) es"

text \<open>The entries of a leaf after the leaf case of \<^verbatim>\<open>insertNonFull\<close> when \<^verbatim>\<open>MAX_KEYS\<close>
  exceeds 65535: with 65535 entries the increment of the 16-bit \<^verbatim>\<open>keyCount\<close> wraps to 0
  and the leaf reads as empty.\<close>

fun wrap_ins :: "('k::linorder \<times> 'v) list \<Rightarrow> 'k \<times> 'v \<Rightarrow> ('k \<times> 'v) list" where
  "wrap_ins es (k, v) = (if length es = 65535 then [] else leaf_ins es k v)"

text \<open>The tree after \<^verbatim>\<open>splitChild\<close> on child \<open>idx\<close>, with the sibling at address \<open>new\<close>.\<close>

fun a_split :: "params \<Rightarrow> nat \<Rightarrow> ('k, 'v) bt \<Rightarrow> nat \<Rightarrow> ('k, 'v) bt" where
  "a_split c new (Br a lf es cs) idx =
     (case cs ! idx of Br f lf' es' cs' \<Rightarrow>
        let mid = MAX_KEYS c div 2 in
        Br a lf (take idx es @ es' ! mid # drop idx es)
          (take idx cs @ Br f lf' (take mid es') (take (mid + 1) cs')
             # Br new lf' (drop (mid + 1) es') (drop (mid + 1) cs') # drop (idx + 1) cs))"

text \<open>The tree after \<^verbatim>\<open>insertNonFull\<close> on a tree of height \<open>h\<close>, with the next free address
  \<open>nx\<close>; the result carries the next free address afterwards.\<close>

fun a_ins :: "params \<Rightarrow> nat \<Rightarrow> nat \<Rightarrow> ('k::linorder, 'v) bt \<Rightarrow> 'k \<Rightarrow> 'v \<Rightarrow> ('k, 'v) bt \<times> nat" where
  "a_ins c 0 nx (Br a lf es cs) k v = (Br a lf (leaf_ins es k v) cs, nx)"
| "a_ins c (Suc h) nx (Br a lf es cs) k v =
     (let pos = lb es k in
      if length (ents (cs ! pos)) = MAX_KEYS c then
        (let p1 = a_split c nx (Br a lf es cs) pos;
             pos1 = (if fst (ents p1 ! pos) < k then pos + 1 else pos);
             (x, nx1) = a_ins c h (nx + sizeof_Node c) (kids p1 ! pos1) k v
         in (Br a lf (ents p1) ((kids p1)[pos1 := x]), nx1))
      else
        (let (x, nx1) = a_ins c h nx (cs ! pos) k v
         in (Br a lf es (cs[pos := x]), nx1)))"

text \<open>The tree after \<^verbatim>\<open>insert\<close>, and its height.\<close>

definition a_insert ::
  "params \<Rightarrow> nat \<Rightarrow> nat \<Rightarrow> ('k::linorder, 'v) bt \<Rightarrow> 'k \<Rightarrow> 'v \<Rightarrow> (('k, 'v) bt \<times> nat) \<times> nat" where
  "a_insert c h nx t k v =
     (if length (ents t) = MAX_KEYS c then
        (a_ins c (Suc h) (nx + 2 * sizeof_Node c)
           (a_split c (nx + sizeof_Node c) (Br nx False [] [t]) 0) k v, Suc h)
      else (a_ins c h nx t k v, h))"

text \<open>The tree after a sequence of calls of \<^verbatim>\<open>insert\<close>.\<close>

fun a_inserts ::
  "params \<Rightarrow> nat \<Rightarrow> nat \<Rightarrow> ('k::linorder, 'v) bt \<Rightarrow> ('k \<times> 'v) list \<Rightarrow> (('k, 'v) bt \<times> nat) \<times> nat" where
  "a_inserts c h nx t [] = ((t, nx), h)"
| "a_inserts c h nx t ((k, v) # kvs) =
     (case a_insert c h nx t k v of ((t1, nx1), h1) \<Rightarrow> a_inserts c h1 nx1 t1 kvs)"

text \<open>What \<^verbatim>\<open>search\<close> finds in a tree of height \<open>h\<close>.\<close>

fun a_search :: "nat \<Rightarrow> ('k::linorder, 'v) bt \<Rightarrow> 'k \<Rightarrow> 'v option" where
  "a_search 0 (Br a lf es cs) k =
     (if lb es k < length es \<and> fst (es ! lb es k) = k then Some (snd (es ! lb es k)) else None)"
| "a_search (Suc h) (Br a lf es cs) k =
     (if lb es k < length es \<and> fst (es ! lb es k) = k then Some (snd (es ! lb es k))
      else a_search h (cs ! lb es k) k)"

text \<open>The nodes of a tree at depth \<open>d\<close>.\<close>

fun nodes_at :: "nat \<Rightarrow> ('k, 'v) bt \<Rightarrow> ('k, 'v) bt list" where
  "nodes_at 0 t = [t]"
| "nodes_at (Suc d) t = concat (map (nodes_at d) (kids t))"

text \<open>A tree and a state that holds it: the tree sits at the root, is well shaped and
  ordered, its nodes are distinct blocks, all below the next free address, which lies
  inside the arena.\<close>

definition holds :: "params \<Rightarrow> ('k::linorder, 'v) HFTBTree \<Rightarrow> nat \<Rightarrow> ('k, 'v) bt \<Rightarrow> bool" where
  "holds c st h t =
     (repr (mem st) t \<and> addr t = root st \<and> wf c h t \<and> ord t \<and> distinct (addrs t)
      \<and> (\<forall>a \<in> set (addrs t). a < arena st + arenaOffset st)
      \<and> arenaOffset st \<le> ARENA_SIZE)"

text \<open>The same without the order of the keys: the shape alone, which sequences of
  inserts keep whatever their arguments refer to.\<close>

definition shaped :: "params \<Rightarrow> ('k, 'v) HFTBTree \<Rightarrow> nat \<Rightarrow> ('k, 'v) bt \<Rightarrow> bool" where
  "shaped c st h t =
     (repr (mem st) t \<and> addr t = root st \<and> wf c h t \<and> distinct (addrs t)
      \<and> (\<forall>a \<in> set (addrs t). a < arena st + arenaOffset st)
      \<and> arenaOffset st \<le> ARENA_SIZE)"

text \<open>Shifting an array right by one slot on the indices \<open>lo < j \<le> hi\<close>, as the loops of
  \<^verbatim>\<open>splitChild\<close> and \<^verbatim>\<open>insertNonFull\<close> leave it.\<close>

definition shiftR :: "(nat \<Rightarrow> 'a) \<Rightarrow> nat \<Rightarrow> nat \<Rightarrow> (nat \<Rightarrow> 'a)" where
  "shiftR f lo hi = (\<lambda>j. if lo < j \<and> j \<le> hi then f (j - 1) else f j)"

text \<open>The index at which the leaf loop stops, scanning the first \<open>n\<close> keys from the right.\<close>

fun lpos :: "(nat \<Rightarrow> 'k::linorder) \<Rightarrow> 'k \<Rightarrow> nat \<Rightarrow> nat" where
  "lpos f k 0 = 0"
| "lpos f k (Suc j) = (if k < f j then lpos f k j else Suc j)"

section \<open>Properties of the node scan\<close>

declare findPos_rest.simps [simp del] findPos_blocks.simps [simp del]
declare shift_loop.simps [simp del] leaf_shift.simps [simp del]

lemma findPos_rest_spec:
  "i \<le> n \<Longrightarrow> i \<le> findPos_rest node k i n \<and> findPos_rest node k i n \<le> n \<and>
     (\<forall>j. i \<le> j \<and> j < findPos_rest node k i n \<longrightarrow> keys node j < k) \<and>
     (findPos_rest node k i n < n \<longrightarrow> k \<le> keys node (findPos_rest node k i n))"
proof (induction node k i n rule: findPos_rest.induct)
  case (1 node k i n)
  show ?case
  proof (cases "i < n \<and> \<not> k \<le> keys node i")
    case True
    then have eq: "findPos_rest node k i n = findPos_rest node k (i + 1) n"
      by (subst findPos_rest.simps) simp
    from True "1.IH" have ih: "i + 1 \<le> findPos_rest node k (i + 1) n \<and> findPos_rest node k (i + 1) n \<le> n \<and>
     (\<forall>j. i + 1 \<le> j \<and> j < findPos_rest node k (i + 1) n \<longrightarrow> keys node j < k) \<and>
     (findPos_rest node k (i + 1) n < n \<longrightarrow> k \<le> keys node (findPos_rest node k (i + 1) n))"
      by simp
    have "\<forall>j. i \<le> j \<and> j < findPos_rest node k (i + 1) n \<longrightarrow> keys node j < k"
    proof (intro allI impI)
      fix j assume j: "i \<le> j \<and> j < findPos_rest node k (i + 1) n"
      show "keys node j < k"
      proof (cases "j = i")
        case True
        with \<open>i < n \<and> \<not> k \<le> keys node i\<close> show ?thesis by (simp add: not_le)
      next
        case False
        with j ih show ?thesis by simp
      qed
    qed
    with ih show ?thesis unfolding eq by simp
  next
    case False
    with "1.prems" show ?thesis
      by (subst (1 2 3 4 5) findPos_rest.simps) auto
  qed
qed

lemma findPos_blocks_spec:
  "i \<le> n \<Longrightarrow> i \<le> findPos_blocks node k i n \<and> findPos_blocks node k i n \<le> n \<and>
     (\<forall>j. i \<le> j \<and> j < findPos_blocks node k i n \<longrightarrow> keys node j < k) \<and>
     (findPos_blocks node k i n < n \<longrightarrow> k \<le> keys node (findPos_blocks node k i n))"
proof (induction node k i n rule: findPos_blocks.induct)
  case (1 node k i n)
  let ?r = "findPos_blocks node k i n"
  consider (rest) "\<not> i + 4 \<le> n"
    | (h0) "i + 4 \<le> n" "k \<le> keys node i"
    | (h1) "i + 4 \<le> n" "\<not> k \<le> keys node i" "k \<le> keys node (i + 1)"
    | (h2) "i + 4 \<le> n" "\<not> k \<le> keys node i" "\<not> k \<le> keys node (i + 1)" "k \<le> keys node (i + 2)"
    | (h3) "i + 4 \<le> n" "\<not> k \<le> keys node i" "\<not> k \<le> keys node (i + 1)" "\<not> k \<le> keys node (i + 2)"
           "k \<le> keys node (i + 3)"
    | (more) "i + 4 \<le> n" "\<not> k \<le> keys node i" "\<not> k \<le> keys node (i + 1)" "\<not> k \<le> keys node (i + 2)"
           "\<not> k \<le> keys node (i + 3)"
    by blast
  then show ?case
  proof cases
    case rest
    then have "?r = findPos_rest node k i n" by (subst findPos_blocks.simps) simp
    with findPos_rest_spec [OF "1.prems", of node k] show ?thesis by simp
  next
    case h0
    then have "?r = i" by (subst findPos_blocks.simps) simp
    with h0 show ?thesis by auto
  next
    case h1
    then have r: "?r = i + 1" by (subst findPos_blocks.simps) simp
    have "keys node j < k" if "i \<le> j \<and> j < i + 1" for j
    proof -
      from that have "j = i" by arith
      with h1 show ?thesis by (simp add: not_le)
    qed
    with h1 show ?thesis unfolding r by simp
  next
    case h2
    then have r: "?r = i + 2" by (subst findPos_blocks.simps) simp
    have "keys node j < k" if "i \<le> j \<and> j < i + 2" for j
    proof -
      from that consider "j = i" | "j = i + 1" by arith
      then show ?thesis using h2 by cases (simp_all add: not_le)
    qed
    with h2 show ?thesis unfolding r by simp
  next
    case h3
    then have r: "?r = i + 3" by (subst findPos_blocks.simps) simp
    have "keys node j < k" if "i \<le> j \<and> j < i + 3" for j
    proof -
      from that consider "j = i" | "j = i + 1" | "j = i + 2" by arith
      then show ?thesis using h3 by cases (simp_all add: not_le)
    qed
    with h3 show ?thesis unfolding r by simp
  next
    case more
    then have eq: "?r = findPos_blocks node k (i + 4) n" by (subst findPos_blocks.simps) simp
    from more "1.IH" have ih: "i + 4 \<le> findPos_blocks node k (i + 4) n \<and> findPos_blocks node k (i + 4) n \<le> n \<and>
     (\<forall>j. i + 4 \<le> j \<and> j < findPos_blocks node k (i + 4) n \<longrightarrow> keys node j < k) \<and>
     (findPos_blocks node k (i + 4) n < n \<longrightarrow> k \<le> keys node (findPos_blocks node k (i + 4) n))"
      by simp
    have "\<forall>j. i \<le> j \<and> j < findPos_blocks node k (i + 4) n \<longrightarrow> keys node j < k"
    proof (intro allI impI)
      fix j assume j: "i \<le> j \<and> j < findPos_blocks node k (i + 4) n"
      then consider "j = i" | "j = i + 1" | "j = i + 2" | "j = i + 3" | "i + 4 \<le> j" by arith
      then show "keys node j < k"
        using more ih j by cases (simp_all add: not_le)
    qed
    with ih show ?thesis unfolding eq by simp
  qed
qed

lemma findPos_spec:
  "findPos node k \<le> keyCount node \<and> (\<forall>j < findPos node k. keys node j < k) \<and>
   (findPos node k < keyCount node \<longrightarrow> k \<le> keys node (findPos node k))"
  using findPos_blocks_spec [of 0 "keyCount node" node k] by (simp add: findPos_def)

text \<open>
  C4. For a node whose first \<^verbatim>\<open>keyCount\<close> keys are sorted non-decreasingly and any key \<open>k\<close>,
  \<^verbatim>\<open>findPos\<close> returns the smallest index below \<^verbatim>\<open>keyCount\<close> whose key is at least \<open>k\<close>:
  every key before the result is smaller than \<open>k\<close> and the key at the result is at least
  \<open>k\<close>; when no key is at least \<open>k\<close> the result is \<^verbatim>\<open>keyCount\<close>.
\<close>

theorem findPos_lower_bound:
  assumes "sorted (node_keys node)"
  shows "findPos node k \<le> keyCount node
    \<and> (\<forall>j < findPos node k. keys node j < k)
    \<and> (findPos node k < keyCount node \<longrightarrow> k \<le> keys node (findPos node k))
    \<and> ((\<forall>j < keyCount node. keys node j < k) \<longrightarrow> findPos node k = keyCount node)"
proof -
  have "(\<forall>j < keyCount node. keys node j < k) \<longrightarrow> findPos node k = keyCount node"
  proof
    assume all: "\<forall>j < keyCount node. keys node j < k"
    show "findPos node k = keyCount node"
    proof (rule ccontr)
      assume "findPos node k \<noteq> keyCount node"
      with findPos_spec [of node k] have lt: "findPos node k < keyCount node" by simp
      with findPos_spec [of node k] have "k \<le> keys node (findPos node k)" by simp
      moreover from all lt have "keys node (findPos node k) < k" by simp
      ultimately show False by simp
    qed
  qed
  with findPos_spec [of node k] show ?thesis by simp
qed

theorem findPos_lower_bound_witness:
  "sorted (node_keys ex_node) \<and> findPos ex_node 25 = 3 \<and> keys ex_node 2 < 25 \<and> 25 \<le> keys ex_node 3
   \<and> findPos ex_node 70 = keyCount ex_node"
proof -
  have s: "sorted (node_keys ex_node)"
    by (simp add: node_keys_def ex_node_def upt_rec)
  have v: "findPos ex_node 25 = 3" "findPos ex_node 70 = 6"
    by (simp_all add: findPos_def ex_node_def findPos_blocks.simps findPos_rest.simps)
  from findPos_lower_bound [OF s, of 25] findPos_lower_bound [OF s, of 70] s v
  show ?thesis by (simp add: ex_node_def)
qed

section \<open>search leaves the tree as it was\<close>

lemma search_loop_frame_aux: "search_loop t cur k = Some y \<Longrightarrow> snd y = t"
  by (erule search_loop.raw_induct [where P = "\<lambda>t cur k y. snd y = t", rotated])
     (auto simp: Let_def split: if_splits)

section \<open>The store operations\<close>

lemma mem_modify [simp]: "mem (modify p f t) = (mem t)(p := f (mem t p))"
  and root_modify [simp]: "root (modify p f t) = root t"
  and arena_modify [simp]: "arena (modify p f t) = arena t"
  and arenaOffset_modify [simp]: "arenaOffset (modify p f t) = arenaOffset t"
  by (simp_all add: modify_def)

lemma allocNode_Inr:
  "arenaOffset t + sizeof_Node c \<le> ARENA_SIZE \<Longrightarrow>
   allocNode c t lf =
     Inr (arena t + arenaOffset t,
          modify (arena t + arenaOffset t)
            (\<lambda>n. n\<lparr>leaf := lf, keyCount := 0, child := memset0 (child n) (MAX_CHILD c)\<rparr>)
            (t\<lparr>arenaOffset := arenaOffset t + sizeof_Node c\<rparr>))"
  by (simp add: allocNode_def Let_def)

lemma allocNode_Inl:
  "\<not> arenaOffset t + sizeof_Node c \<le> ARENA_SIZE \<Longrightarrow> allocNode c t lf = Inl OutOfArena"
  by (simp add: allocNode_def Let_def)

lemma splitChild_Inl:
  "\<not> arenaOffset t + sizeof_Node c \<le> ARENA_SIZE \<Longrightarrow> splitChild c t p idx = Inl OutOfArena"
  by (simp add: splitChild_def Let_def allocNode_Inl)

lemma modify_modify: "modify p g (modify p f t) = modify p (\<lambda>n. g (f n)) t"
  by (simp add: modify_def)

lemma modify_same: "f (mem t p) = mem t p \<Longrightarrow> modify p f t = t"
  by (simp add: modify_def)

lemma shiftR_empty [simp]: "hi \<le> lo \<Longrightarrow> shiftR f lo hi = f"
  by (auto simp: shiftR_def fun_eq_iff)

lemma shiftR_step: "lo < i \<Longrightarrow> shiftR (f(i := f (i - Suc 0))) lo (i - Suc 0) = shiftR f lo i"
  by (auto simp: shiftR_def fun_eq_iff)

lemma shiftR_step_Suc: "lo \<le> i \<Longrightarrow> shiftR (f(Suc i := f i)) lo i = shiftR f lo (Suc i)"
  by (auto simp: shiftR_def fun_eq_iff)

lemma shift_loop_eq:
  "shift_loop t p idx i =
     modify p (\<lambda>n. n\<lparr>child := shiftR (child n) (idx + 1) (i + 1),
                      keys := shiftR (keys n) idx i, vals := shiftR (vals n) idx i\<rparr>) t"
proof (induction t p idx i rule: shift_loop.induct)
  case (1 t p idx i)
  show ?case
  proof (cases "i > idx")
    case False
    then have "shift_loop t p idx i = t" by (subst shift_loop.simps) simp
    moreover from False have "modify p (\<lambda>n. n\<lparr>child := shiftR (child n) (idx + 1) (i + 1),
                      keys := shiftR (keys n) idx i, vals := shiftR (vals n) idx i\<rparr>) t = t"
      by (intro modify_same) simp
    ultimately show ?thesis by simp
  next
    case True
    define t1 where "t1 = modify p (\<lambda>n. n\<lparr>child := (child n)(i + 1 := child n i)\<rparr>) t"
    define t2 where "t2 = modify p (\<lambda>n. n\<lparr>keys := (keys n)(i := keys n (i - 1))\<rparr>) t1"
    define t3 where "t3 = modify p (\<lambda>n. n\<lparr>vals := (vals n)(i := vals n (i - 1))\<rparr>) t2"
    from True have unf: "shift_loop t p idx i = shift_loop t3 p idx (i - 1)"
      by (subst shift_loop.simps) (simp add: t1_def t2_def t3_def Let_def)
    have ih: "shift_loop t3 p idx (i - 1) =
       modify p (\<lambda>n. n\<lparr>child := shiftR (child n) (idx + 1) (i - 1 + 1),
                      keys := shiftR (keys n) idx (i - 1), vals := shiftR (vals n) idx (i - 1)\<rparr>) t3"
      using "1.IH" [OF True t1_def t2_def t3_def] .
    from True have i1: "i - 1 + 1 = i" by simp
    have "shift_loop t p idx i = modify p (\<lambda>n. n\<lparr>child := shiftR (child n) (idx + 1) i,
                      keys := shiftR (keys n) idx (i - 1), vals := shiftR (vals n) idx (i - 1)\<rparr>) t3"
      using unf ih i1 by simp
    also have "\<dots> = modify p (\<lambda>n. n\<lparr>child := shiftR (child n) (idx + 1) (i + 1),
                      keys := shiftR (keys n) idx i, vals := shiftR (vals n) idx i\<rparr>) t"
      unfolding t3_def t2_def t1_def modify_modify
      using True by (simp add: shiftR_step shiftR_step_Suc)
    finally show ?thesis .
  qed
qed

lemma lpos_le: "lpos f k n \<le> n"
  by (induction n) auto

lemma lpos_cong: "(\<And>j. j < n \<Longrightarrow> f j = g j) \<Longrightarrow> lpos f k n = lpos g k n"
  by (induction n) auto

lemma leaf_shift_eq:
  "leaf_shift t a (\<lambda>_. k) (int i - 1) =
     (modify a (\<lambda>n. n\<lparr>keys := shiftR (keys n) (lpos (keys (mem t a)) k i) i,
                      vals := shiftR (vals n) (lpos (keys (mem t a)) k i) i\<rparr>) t,
      int (lpos (keys (mem t a)) k i) - 1)"
proof (induction i arbitrary: t)
  case 0
  have "leaf_shift t a (\<lambda>_. k) (int 0 - 1) = (t, -1)" by (subst leaf_shift.simps) simp
  moreover have "modify a (\<lambda>n. n\<lparr>keys := shiftR (keys n) 0 0, vals := shiftR (vals n) 0 0\<rparr>) t = t"
    by (intro modify_same) simp
  ultimately show ?case by simp
next
  case (Suc i)
  show ?case
  proof (cases "k < keys (mem t a) i")
    case False
    then have "leaf_shift t a (\<lambda>_. k) (int (Suc i) - 1) = (t, int i)"
      by (subst leaf_shift.simps) simp
    moreover have "modify a (\<lambda>n. n\<lparr>keys := shiftR (keys n) (Suc i) (Suc i), vals := shiftR (vals n) (Suc i) (Suc i)\<rparr>) t = t"
      by (intro modify_same) simp
    ultimately show ?thesis using False by simp
  next
    case True
    define t1 where "t1 = modify a (\<lambda>n. n\<lparr>keys := (keys n)(Suc i := keys n i)\<rparr>) t"
    define t2 where "t2 = modify a (\<lambda>n. n\<lparr>vals := (vals n)(Suc i := vals n i)\<rparr>) t1"
    from True have unf: "leaf_shift t a (\<lambda>_. k) (int (Suc i) - 1) = leaf_shift t2 a (\<lambda>_. k) (int i - 1)"
      by (subst leaf_shift.simps) (simp add: t1_def t2_def Let_def nat_add_distrib)
    have k2: "keys (mem t2 a) = (keys (mem t a))(Suc i := keys (mem t a) i)"
      by (simp add: t2_def t1_def)
    have lp: "lpos (keys (mem t2 a)) k i = lpos (keys (mem t a)) k i"
      unfolding k2 by (rule lpos_cong) simp
    have le: "lpos (keys (mem t a)) k i \<le> i" by (rule lpos_le)
    have s: "shiftR (f(Suc i := f i)) (lpos (keys (mem t a)) k i) i = shiftR f (lpos (keys (mem t a)) k i) (Suc i)" for f :: "nat \<Rightarrow> 'c"
      using le by (auto simp: shiftR_def fun_eq_iff)
    have "leaf_shift t a (\<lambda>_. k) (int (Suc i) - 1) =
       (modify a (\<lambda>n. n\<lparr>keys := shiftR (keys n) (lpos (keys (mem t a)) k i) i,
                      vals := shiftR (vals n) (lpos (keys (mem t a)) k i) i\<rparr>) t2,
        int (lpos (keys (mem t a)) k i) - 1)"
      using unf Suc.IH [of t2] lp by simp
    also have "modify a (\<lambda>n. n\<lparr>keys := shiftR (keys n) (lpos (keys (mem t a)) k i) i,
                      vals := shiftR (vals n) (lpos (keys (mem t a)) k i) i\<rparr>) t2 =
       modify a (\<lambda>n. n\<lparr>keys := shiftR (keys n) (lpos (keys (mem t a)) k i) (Suc i),
                      vals := shiftR (vals n) (lpos (keys (mem t a)) k i) (Suc i)\<rparr>) t"
      unfolding t2_def t1_def modify_modify by (simp add: s)
    finally show ?thesis using True by simp
  qed
qed

lemma findPos_lb:
  assumes "keyCount n = length es" "\<forall>i < length es. keys n i = fst (es ! i)"
  shows "findPos n k = lb es k"
proof -
  let ?p = "findPos n k"
  from findPos_spec [of n k] assms have p: "?p \<le> length es"
    and lt: "\<And>j. j < ?p \<Longrightarrow> fst (es ! j) < k"
    and ge: "?p < length es \<Longrightarrow> \<not> fst (es ! ?p) < k"
    by (auto simp: not_less)
  have "takeWhile (\<lambda>e. fst e < k) es = take ?p es"
    by (rule takeWhile_eq_take_P_nth) (use lt ge in auto)
  with p show ?thesis by (simp add: lb_def)
qed

lemma repr_frame:
  "repr m t \<Longrightarrow> (\<And>a. a \<in> set (addrs t) \<Longrightarrow> m' a = m a) \<Longrightarrow> repr m' t"
proof (induction t)
  case (Br a lf es cs)
  have "repr m' x" if "x \<in> set cs" for x
  proof (rule Br.IH [OF that])
    from Br.prems(1) that show "repr m x" by simp
    fix b assume "b \<in> set (addrs x)"
    with that have "b \<in> set (addrs (Br a lf es cs))" by auto
    then show "m' b = m b" by (rule Br.prems(2))
  qed
  moreover have "m' a = m a" by (rule Br.prems(2)) simp
  ultimately show ?case using Br.prems(1) by simp
qed

lemma u16_small [simp]: "n < 65536 \<Longrightarrow> u16 (int n) = n"
  by (simp add: u16_def)

lemma u16_Suc [simp]: "n < 65535 \<Longrightarrow> u16 (int n + 1) = Suc n"
  by (simp add: u16_def nat_add_distrib)

lemma params_facts:
  assumes "valid_params c"
  shows "MAX_KEYS c div 2 = ORDER c" "MAX_KEYS c < 65535" "0 < MAX_KEYS c"
    "u16 (int (MAX_KEYS c) - int (MAX_KEYS c div 2) - 1) = ORDER c - 1"
    "ORDER c < MAX_KEYS c" "0 < sizeof_Node c"
    "u16 (int (MAX_KEYS c) - int (ORDER c) - 1) = ORDER c - 1"
  using assms by (simp_all add: valid_params_def MAX_KEYS_def u16_def nat_diff_distrib)

text \<open>The store after splitChild.\<close>

lemma splitChild_state:
  assumes vp: "valid_params c"
    and f: "f = child (mem t p) idx" and new: "new = arena t + arenaOffset t"
    and ne: "p \<noteq> f" "new \<noteq> p" "new \<noteq> f"
    and kc: "keyCount (mem t p) < MAX_KEYS c"
    and fit: "arenaOffset t + sizeof_Node c \<le> ARENA_SIZE"
    and t': "splitChild c t p idx = Inr t'"
  shows "root t' = root t" "arena t' = arena t" "arenaOffset t' = arenaOffset t + sizeof_Node c"
    "\<And>a. a \<noteq> new \<Longrightarrow> a \<noteq> f \<Longrightarrow> a \<noteq> p \<Longrightarrow> mem t' a = mem t a"
    "leaf (mem t' new) = leaf (mem t f)" "keyCount (mem t' new) = ORDER c - 1"
    "keys (mem t' new) = memcpy (keys (mem t new)) (keys (mem t f)) (ORDER c + 1) (ORDER c - 1)"
    "vals (mem t' new) = memcpy (vals (mem t new)) (vals (mem t f)) (ORDER c + 1) (ORDER c - 1)"
    "child (mem t' new) = (if leaf (mem t f) then memset0 (child (mem t new)) (MAX_CHILD c)
                      else memcpy (memset0 (child (mem t new)) (MAX_CHILD c)) (child (mem t f))
                             (ORDER c + 1) (ORDER c))"
    "leaf (mem t' f) = leaf (mem t f)" "keyCount (mem t' f) = ORDER c"
    "keys (mem t' f) = keys (mem t f)" "vals (mem t' f) = vals (mem t f)"
    "child (mem t' f) = child (mem t f)"
    "leaf (mem t' p) = leaf (mem t p)" "keyCount (mem t' p) = Suc (keyCount (mem t p))"
    "keys (mem t' p) = (shiftR (keys (mem t p)) idx (keyCount (mem t p)))(idx := keys (mem t f) (ORDER c))"
    "vals (mem t' p) = (shiftR (vals (mem t p)) idx (keyCount (mem t p)))(idx := vals (mem t f) (ORDER c))"
    "child (mem t' p) = (shiftR (child (mem t p)) (idx + 1) (keyCount (mem t p) + 1))(idx + 1 := new)"
proof -
  note pf = params_facts [OF vp]
  obtain ln kn ksn vsn chn where Nn: "mem t new = \<lparr>leaf = ln, keyCount = kn, keys = ksn, vals = vsn, child = chn\<rparr>"
    by (cases "mem t new") auto
  obtain lf kf ksf vsf chf where Nf: "mem t f = \<lparr>leaf = lf, keyCount = kf, keys = ksf, vals = vsf, child = chf\<rparr>"
    by (cases "mem t f") auto
  obtain lp kp ksp vsp chp where Np: "mem t p = \<lparr>leaf = lp, keyCount = kp, keys = ksp, vals = vsp, child = chp\<rparr>"
    by (cases "mem t p") auto
  define t1 where "t1 = modify new
      (\<lambda>n. n\<lparr>leaf := leaf (mem t f), keyCount := 0, child := memset0 (child n) (MAX_CHILD c)\<rparr>)
      (t\<lparr>arenaOffset := arenaOffset t + sizeof_Node c\<rparr>)"
  define t2 where "t2 = modify new (\<lambda>n. n\<lparr>keyCount := u16 (int (MAX_KEYS c) - int (MAX_KEYS c div 2) - 1)\<rparr>) t1"
  define t3 where "t3 = modify new (\<lambda>n. n\<lparr>keys :=
                 memcpy (keys n) (keys (mem t2 f)) (MAX_KEYS c div 2 + 1) (keyCount (mem t2 new))\<rparr>) t2"
  define t4 where "t4 = modify new (\<lambda>n. n\<lparr>vals :=
                 memcpy (vals n) (vals (mem t3 f)) (MAX_KEYS c div 2 + 1) (keyCount (mem t3 new))\<rparr>) t3"
  define t5 where "t5 = (if \<not> leaf (mem t4 f)
                then modify new (\<lambda>n. n\<lparr>child :=
                       memcpy (child n) (child (mem t4 f)) (MAX_KEYS c div 2 + 1)
                         (keyCount (mem t4 new) + 1)\<rparr>) t4
                else t4)"
  define t6 where "t6 = modify f (\<lambda>n. n\<lparr>keyCount := u16 (int (MAX_KEYS c div 2))\<rparr>) t5"
  define t7 where "t7 = shift_loop t6 p idx (keyCount (mem t6 p))"
  define t8 where "t8 = modify p (\<lambda>n. n\<lparr>child := (child n)(idx + 1 := new)\<rparr>) t7"
  define t9 where "t9 = modify p (\<lambda>n. n\<lparr>keys := (keys n)(idx := keys (mem t8 f) (MAX_KEYS c div 2))\<rparr>) t8"
  define t10 where "t10 = modify p (\<lambda>n. n\<lparr>vals := (vals n)(idx := vals (mem t9 f) (MAX_KEYS c div 2))\<rparr>) t9"
  define t11 where "t11 = modify p (\<lambda>n. n\<lparr>keyCount := u16 (int (keyCount n) + 1)\<rparr>) t10"
  have a: "allocNode c t (leaf (mem t f)) = Inr (new, t1)"
    unfolding t1_def new by (rule allocNode_Inr [OF fit])
  have unf: "splitChild c t p idx = Inr t11"
    unfolding splitChild_def Let_def f [symmetric] a sum.case prod.case
      t11_def t10_def t9_def t8_def t7_def t6_def t5_def t4_def t3_def t2_def
    by (rule refl)
  have o1: "ORDER c - 1 + 1 = ORDER c" "ORDER c < 65536" using vp by (simp_all add: valid_params_def)
  define chN where "chN = (if lf then memset0 chn (MAX_CHILD c)
                      else memcpy (memset0 chn (MAX_CHILD c)) chf (ORDER c + 1) (ORDER c))"
  have e4: "t4 = t\<lparr>arenaOffset := arenaOffset t + sizeof_Node c,
       mem := (mem t)(new := \<lparr>leaf = lf, keyCount = ORDER c - 1,
                 keys = memcpy ksn ksf (ORDER c + 1) (ORDER c - 1),
                 vals = memcpy vsn vsf (ORDER c + 1) (ORDER c - 1),
                 child = memset0 chn (MAX_CHILD c)\<rparr>)\<rparr>"
    unfolding t4_def t3_def t2_def t1_def
    using ne by (simp add: modify_def pf Nn Nf)
  have e6: "t6 = t\<lparr>arenaOffset := arenaOffset t + sizeof_Node c,
       mem := (mem t)(new := \<lparr>leaf = lf, keyCount = ORDER c - 1,
                 keys = memcpy ksn ksf (ORDER c + 1) (ORDER c - 1),
                 vals = memcpy vsn vsf (ORDER c + 1) (ORDER c - 1),
                 child = chN\<rparr>,
            f := \<lparr>leaf = lf, keyCount = ORDER c, keys = ksf, vals = vsf, child = chf\<rparr>)\<rparr>"
    unfolding t6_def t5_def
    using ne o1 by (simp add: e4 modify_def pf Nf chN_def)
  have k6: "keyCount (mem t6 p) = kp" using ne by (simp add: e6 Np)
  have e7: "t7 = t\<lparr>arenaOffset := arenaOffset t + sizeof_Node c,
       mem := (mem t)(new := \<lparr>leaf = lf, keyCount = ORDER c - 1,
                 keys = memcpy ksn ksf (ORDER c + 1) (ORDER c - 1),
                 vals = memcpy vsn vsf (ORDER c + 1) (ORDER c - 1),
                 child = chN\<rparr>,
            f := \<lparr>leaf = lf, keyCount = ORDER c, keys = ksf, vals = vsf, child = chf\<rparr>,
            p := \<lparr>leaf = lp, keyCount = kp, keys = shiftR ksp idx kp, vals = shiftR vsp idx kp,
                    child = shiftR chp (idx + 1) (kp + 1)\<rparr>)\<rparr>"
    unfolding t7_def shift_loop_eq k6 using ne by (simp add: e6 modify_def Np)
  have kk: "kp < 65535" using kc pf Np by simp
  have e11: "t11 = t\<lparr>arenaOffset := arenaOffset t + sizeof_Node c,
       mem := (mem t)(new := \<lparr>leaf = lf, keyCount = ORDER c - 1,
                 keys = memcpy ksn ksf (ORDER c + 1) (ORDER c - 1),
                 vals = memcpy vsn vsf (ORDER c + 1) (ORDER c - 1),
                 child = chN\<rparr>,
            f := \<lparr>leaf = lf, keyCount = ORDER c, keys = ksf, vals = vsf, child = chf\<rparr>,
            p := \<lparr>leaf = lp, keyCount = Suc kp, keys = (shiftR ksp idx kp)(idx := ksf (ORDER c)),
                    vals = (shiftR vsp idx kp)(idx := vsf (ORDER c)),
                    child = (shiftR chp (idx + 1) (kp + 1))(idx + 1 := new)\<rparr>)\<rparr>"
    unfolding t11_def t10_def t9_def t8_def using ne kk by (simp add: e7 modify_def pf)
  have fin: "t' = t\<lparr>arenaOffset := arenaOffset t + sizeof_Node c,
       mem := (mem t)(new := \<lparr>leaf = lf, keyCount = ORDER c - 1,
                 keys = memcpy ksn ksf (ORDER c + 1) (ORDER c - 1),
                 vals = memcpy vsn vsf (ORDER c + 1) (ORDER c - 1),
                 child = chN\<rparr>,
            f := \<lparr>leaf = lf, keyCount = ORDER c, keys = ksf, vals = vsf, child = chf\<rparr>,
            p := \<lparr>leaf = lp, keyCount = Suc kp, keys = (shiftR ksp idx kp)(idx := ksf (ORDER c)),
                    vals = (shiftR vsp idx kp)(idx := vsf (ORDER c)),
                    child = (shiftR chp (idx + 1) (kp + 1))(idx + 1 := new)\<rparr>)\<rparr>"
    using t' unf e11 by simp
  show "root t' = root t" "arena t' = arena t" "arenaOffset t' = arenaOffset t + sizeof_Node c"
    by (simp_all add: fin)
  show "\<And>a. a \<noteq> new \<Longrightarrow> a \<noteq> f \<Longrightarrow> a \<noteq> p \<Longrightarrow> mem t' a = mem t a"
    by (simp add: fin)
  show "leaf (mem t' new) = leaf (mem t f)" "keyCount (mem t' new) = ORDER c - 1"
    "keys (mem t' new) = memcpy (keys (mem t new)) (keys (mem t f)) (ORDER c + 1) (ORDER c - 1)"
    "vals (mem t' new) = memcpy (vals (mem t new)) (vals (mem t f)) (ORDER c + 1) (ORDER c - 1)"
    "child (mem t' new) = (if leaf (mem t f) then memset0 (child (mem t new)) (MAX_CHILD c)
                      else memcpy (memset0 (child (mem t new)) (MAX_CHILD c)) (child (mem t f))
                             (ORDER c + 1) (ORDER c))"
    using ne by (simp_all add: fin Nn Nf chN_def)
  show "leaf (mem t' f) = leaf (mem t f)" "keyCount (mem t' f) = ORDER c"
    "keys (mem t' f) = keys (mem t f)" "vals (mem t' f) = vals (mem t f)"
    "child (mem t' f) = child (mem t f)"
    using ne by (simp_all add: fin Nf)
  show "leaf (mem t' p) = leaf (mem t p)" "keyCount (mem t' p) = Suc (keyCount (mem t p))"
    "keys (mem t' p) = (shiftR (keys (mem t p)) idx (keyCount (mem t p)))(idx := keys (mem t f) (ORDER c))"
    "vals (mem t' p) = (shiftR (vals (mem t p)) idx (keyCount (mem t p)))(idx := vals (mem t f) (ORDER c))"
    "child (mem t' p) = (shiftR (child (mem t p)) (idx + 1) (keyCount (mem t p) + 1))(idx + 1 := new)"
    using ne by (simp_all add: fin Np Nf)
qed

section \<open>splitChild on the represented tree\<close>

lemma a_split_ctx:
  "idx = length pre \<Longrightarrow>
   a_split c new (Br a lf es (pre @ Br f lf' es' cs' # post)) idx =
     Br a lf (take idx es @ es' ! (MAX_KEYS c div 2) # drop idx es)
       (pre @ Br f lf' (take (MAX_KEYS c div 2) es') (take (MAX_KEYS c div 2 + 1) cs')
          # Br new lf' (drop (MAX_KEYS c div 2 + 1) es') (drop (MAX_KEYS c div 2 + 1) cs') # post)"
  by (simp add: Let_def)

lemma splitChild_repr_ctx:
  assumes vp: "valid_params c"
    and rp: "repr (mem t) (Br p lf es (pre @ Br f lf' es' cs' # post))"
    and idx: "idx = length pre"
    and full: "length es' = MAX_KEYS c"
    and nf: "length es < MAX_KEYS c"
    and len: "length pre + length post = length es"
    and kids: "if lf' then cs' = [] else length cs' = length es' + 1"
    and dist: "distinct (addrs (Br p lf es (pre @ Br f lf' es' cs' # post)))"
    and new: "new = arena t + arenaOffset t"
    and fresh: "new \<notin> set (addrs (Br p lf es (pre @ Br f lf' es' cs' # post)))"
    and fit: "arenaOffset t + sizeof_Node c \<le> ARENA_SIZE"
    and t': "splitChild c t p idx = Inr t'"
  shows "repr (mem t') (Br p lf (take idx es @ es' ! (ORDER c) # drop idx es)
       (pre @ Br f lf' (take (ORDER c) es') (take (ORDER c + 1) cs')
          # Br new lf' (drop (ORDER c + 1) es') (drop (ORDER c + 1) cs') # post))"
proof -
  note pf = params_facts [OF vp]
  let ?cs = "pre @ Br f lf' es' cs' # post"
  have chp: "\<And>i. i < length ?cs \<Longrightarrow> child (mem t p) i = addr (?cs ! i)"
    using rp by simp
  have fch: "f = child (mem t p) idx"
    using chp [of idx] idx by (simp add: nth_append)
  have ne: "p \<noteq> f" "new \<noteq> p" "new \<noteq> f"
    using dist fresh by auto
  have kc: "keyCount (mem t p) < MAX_KEYS c" using rp nf by simp
  note st = splitChild_state [OF vp fch new ne kc fit t']
  have kp: "keyCount (mem t p) = length es" using rp by simp
  have rf: "repr (mem t) (Br f lf' es' cs')" using rp by simp
  have frame: "repr (mem t') x" if "repr (mem t) x" "new \<notin> set (addrs x)" "f \<notin> set (addrs x)"
    "p \<notin> set (addrs x)" for x
  proof (rule repr_frame [OF that(1)])
    fix a assume "a \<in> set (addrs x)"
    with that have "a \<noteq> new" "a \<noteq> f" "a \<noteq> p" by auto
    then show "mem t' a = mem t a" by (rule st(4))
  qed
  have r_pre: "repr (mem t') x" if "x \<in> set pre" for x
    using that rp dist fresh by (intro frame) auto
  have r_post: "repr (mem t') x" if "x \<in> set post" for x
    using that rp dist fresh by (intro frame) auto
  have r_sub: "repr (mem t') x" if "x \<in> set cs'" for x
    using that rp dist fresh by (intro frame) auto
  have r_L: "repr (mem t') (Br f lf' (take (ORDER c) es') (take (ORDER c + 1) cs'))"
  proof -
    have "x \<in> set (take (ORDER c + 1) cs') \<Longrightarrow> repr (mem t') x" for x
      using r_sub by (auto dest: in_set_takeD)
    moreover have "min (length es') (ORDER c) = ORDER c" using full pf by simp
    ultimately show ?thesis using rf by (simp add: st)
  qed
  have r_R: "repr (mem t') (Br new lf' (drop (ORDER c + 1) es') (drop (ORDER c + 1) cs'))"
  proof -
    have sub: "x \<in> set (drop (ORDER c + 1) cs') \<Longrightarrow> repr (mem t') x" for x
      using r_sub by (auto dest: in_set_dropD)
    have l: "length es' - Suc (ORDER c) = ORDER c - 1" using full by (simp add: MAX_KEYS_def)
    have lf: "leaf (mem t f) = lf'" using rf by simp
    have ks: "\<forall>i < ORDER c - 1. keys (mem t' new) i = fst (es' ! (ORDER c + 1 + i))
         \<and> vals (mem t' new) i = snd (es' ! (ORDER c + 1 + i))"
      using rf full by (auto simp: st memcpy_def MAX_KEYS_def)
    have ch: "\<forall>i < length cs' - Suc (ORDER c). child (mem t' new) i = addr (cs' ! (ORDER c + 1 + i))"
      using rf full kids by (auto simp: st memcpy_def MAX_KEYS_def lf split: if_splits)
    show ?thesis using sub l lf ks ch full
      by (simp add: st(5,6) MAX_KEYS_def add.commute)
  qed
  have node: "leaf (mem t' p) = lf" "keyCount (mem t' p) = Suc (length es)"
    using rp by (simp_all add: st)
  have ek: "\<forall>i < Suc (length es). keys (mem t' p) i = fst ((take idx es @ es' ! (ORDER c) # drop idx es) ! i)
     \<and> vals (mem t' p) i = snd ((take idx es @ es' ! (ORDER c) # drop idx es) ! i)"
  proof (intro allI impI)
    fix i assume i: "i < Suc (length es)"
    have ile: "idx \<le> length es" using idx len by simp
    have fm: "keys (mem t f) (ORDER c) = fst (es' ! ORDER c)" "vals (mem t f) (ORDER c) = snd (es' ! ORDER c)"
      using rf full pf by simp_all
    consider "i < idx" | "i = idx" | "idx < i" by arith
    then show "keys (mem t' p) i = fst ((take idx es @ es' ! (ORDER c) # drop idx es) ! i)
     \<and> vals (mem t' p) i = snd ((take idx es @ es' ! (ORDER c) # drop idx es) ! i)"
    proof cases
      case 1
      with i ile rp show ?thesis by (simp add: st kp shiftR_def nth_append)
    next
      case 2
      with i ile fm show ?thesis by (simp add: st kp nth_append)
    next
      case 3
      then have "(take idx es @ es' ! (ORDER c) # drop idx es) ! i = es ! (i - 1)"
        using i ile by (simp add: nth_append nth_Cons' min_def)
      with 3 i ile rp show ?thesis by (simp add: st kp shiftR_def)
    qed
  qed
  let ?ncs = "pre @ Br f lf' (take (ORDER c) es') (take (ORDER c + 1) cs')
          # Br new lf' (drop (ORDER c + 1) es') (drop (ORDER c + 1) cs') # post"
  have ck: "\<forall>i < length ?ncs. child (mem t' p) i = addr (?ncs ! i)"
  proof (intro allI impI)
    fix i assume i: "i < length ?ncs"
    consider "i < idx" | "i = idx" | "i = idx + 1" | "idx + 1 < i" by arith
    then show "child (mem t' p) i = addr (?ncs ! i)"
    proof cases
      case 1
      with chp [of i] idx show ?thesis by (simp add: st kp shiftR_def nth_append)
    next
      case 2
      with chp [of i] idx show ?thesis by (simp add: st kp shiftR_def nth_append)
    next
      case 3
      with idx show ?thesis by (simp add: st kp nth_append)
    next
      case 4
      then have a: "?ncs ! i = post ! (i - idx - 2)"
        using idx by (simp add: nth_append nth_Cons')
      from 4 i idx have b: "?cs ! (i - 1) = post ! (i - idx - 2)"
        by (auto simp add: nth_append nth_Cons')
      from 4 i idx len chp [of "i - 1"] show ?thesis
        unfolding a b [symmetric] by (simp add: st kp shiftR_def)
    qed
  qed
  have "\<forall>x \<in> set ?ncs. repr (mem t') x"
    using r_pre r_post r_L r_R by auto
  moreover have "length (take idx es @ es' ! (ORDER c) # drop idx es) = Suc (length es)"
    using idx len by simp
  ultimately show ?thesis
    unfolding repr.simps using node ek ck by simp
qed

section \<open>search and the leaf case of insertNonFull on the represented tree\<close>

lemma lb_le: "lb es k \<le> length es"
  by (simp add: lb_def length_takeWhile_le)

lemma search_loop_refines:
  "repr (mem t) x \<Longrightarrow> wf c h x \<Longrightarrow> search_loop t (addr x) k = Some (a_search h x k, t)"
proof (induction h arbitrary: x)
  case 0
  obtain a lf es cs where x: "x = Br a lf es cs" by (cases x)
  from 0 x have fp: "findPos (mem t a) k = lb es k" by (intro findPos_lb) simp_all
  have kk: "lb es k < length es \<Longrightarrow>
      keys (mem t a) (lb es k) = fst (es ! lb es k) \<and> vals (mem t a) (lb es k) = snd (es ! lb es k)"
    using 0 x by simp
  from 0 x kk show ?case
    by (subst search_loop.simps) (auto simp add: fp Let_def)
next
  case (Suc h)
  obtain a lf es cs where x: "x = Br a lf es cs" by (cases x)
  from Suc.prems x have fp: "findPos (mem t a) k = lb es k" by (intro findPos_lb) simp_all
  have pos: "lb es k < length cs" using Suc.prems x lb_le [of es k] by simp
  then have mem: "cs ! lb es k \<in> set cs" by simp
  from Suc.prems x pos have ch: "child (mem t a) (lb es k) = addr (cs ! lb es k)" by simp
  have ih: "search_loop t (addr (cs ! lb es k)) k = Some (a_search h (cs ! lb es k) k, t)"
    using Suc.prems x mem by (intro Suc.IH) auto
  have kk: "lb es k < length es \<Longrightarrow>
      keys (mem t a) (lb es k) = fst (es ! lb es k) \<and> vals (mem t a) (lb es k) = snd (es ! lb es k)"
    using Suc.prems x by simp
  have nl: "\<not> leaf (mem t a)" "keyCount (mem t a) = length es" using Suc.prems x by simp_all
  show ?case unfolding x
    by (subst search_loop.simps) (use kk in \<open>auto simp add: fp Let_def ch ih nl\<close>)
qed

lemma lpos_ipos:
  "(\<And>i. i < length es \<Longrightarrow> f i = fst (es ! i)) \<Longrightarrow> lpos f k (length es) = ipos es k"
proof (induction es rule: rev_induct)
  case Nil
  then show ?case by (simp add: ipos_def)
next
  case (snoc x xs)
  have "lpos f k (length xs) = ipos xs k"
  proof (rule snoc.IH)
    fix i assume "i < length xs"
    with snoc.prems [of i] show "f i = fst (xs ! i)" by (simp add: nth_append)
  qed
  moreover from snoc.prems [of "length xs"] have "f (length xs) = fst x" by simp
  ultimately show ?case by (simp add: ipos_def)
qed

lemma ipos_le: "ipos es k \<le> length es"
  by (simp add: ipos_def)

text \<open>The leaf case with the key an object and the value any reference: the value stored
  is the one the reference reads after the shift and the store of the key.\<close>

lemma insertNonFull_leaf_state:
  assumes rp: "repr (mem t) (Br a True es [])"
  shows "insertNonFull c t a (\<lambda>_. k) v =
    Some (Inr (modify a (\<lambda>n. n\<lparr>keys := (shiftR (keys n) (ipos es k) (length es))(ipos es k := k),
       vals := (shiftR (vals n) (ipos es k) (length es))
          (ipos es k := v (modify a (\<lambda>n. n\<lparr>vals := shiftR (vals n) (ipos es k) (length es),
                 keys := (shiftR (keys n) (ipos es k) (length es))(ipos es k := k)\<rparr>) t)),
       keyCount := u16 (int (keyCount n) + 1)\<rparr>) t))"
proof -
  let ?n = "length es" and ?q = "ipos es k"
  have kc: "keyCount (mem t a) = ?n" and lf: "leaf (mem t a)" using rp by simp_all
  have lp: "lpos (keys (mem t a)) k ?n = ?q"
    using rp by (intro lpos_ipos) simp
  show ?thesis
    by (subst insertNonFull.simps)
      (simp add: lf kc leaf_shift_eq lp Let_def modify_modify)
qed

lemma insertNonFull_leaf_ref:
  assumes rp: "repr (mem t) (Br a True es [])" and nf: "length es < 65535"
    and w: "w = v (modify a (\<lambda>n. n\<lparr>vals := shiftR (vals n) (ipos es k) (length es),
                 keys := (shiftR (keys n) (ipos es k) (length es))(ipos es k := k)\<rparr>) t)"
  shows "\<exists>t'. insertNonFull c t a (\<lambda>_. k) v = Some (Inr t') \<and> repr (mem t') (Br a True (leaf_ins es k w) [])
     \<and> root t' = root t \<and> arena t' = arena t \<and> arenaOffset t' = arenaOffset t
     \<and> (\<forall>b. b \<noteq> a \<longrightarrow> mem t' b = mem t b)"
proof -
  let ?n = "length es" and ?q = "ipos es k"
  define t' where "t' = modify a (\<lambda>n. n\<lparr>keys := (shiftR (keys n) ?q ?n)(?q := k),
       vals := (shiftR (vals n) ?q ?n)(?q := w), keyCount := Suc ?n\<rparr>) t"
  have kc: "keyCount (mem t a) = ?n" using rp by simp
  have "insertNonFull c t a (\<lambda>_. k) v = Some (Inr t')"
    unfolding insertNonFull_leaf_state [OF rp] t'_def w using nf kc by (simp add: modify_def)
  moreover have "repr (mem t') (Br a True (leaf_ins es k w) [])"
  proof -
    have q: "?q \<le> ?n" by (rule ipos_le)
    have "keys (mem t' a) i = fst (leaf_ins es k w ! i) \<and> vals (mem t' a) i = snd (leaf_ins es k w ! i)"
      if "i < Suc ?n" for i
    proof -
      consider "i < ?q" | "i = ?q" | "?q < i" by arith
      then show ?thesis
      proof cases
        case 1
        with q rp show ?thesis by (simp add: t'_def leaf_ins_def nth_append shiftR_def)
      next
        case 2
        with q show ?thesis by (simp add: t'_def leaf_ins_def nth_append)
      next
        case 3
        then have "leaf_ins es k w ! i = es ! (i - 1)"
          using q that by (simp add: leaf_ins_def nth_append nth_Cons' min_def)
        with 3 q that rp show ?thesis by (simp add: t'_def shiftR_def)
      qed
    qed
    moreover have "length (leaf_ins es k w) = Suc ?n" using q by (simp add: leaf_ins_def)
    ultimately show ?thesis using rp by (simp add: t'_def)
  qed
  moreover have "root t' = root t" "arena t' = arena t" "arenaOffset t' = arenaOffset t"
    "\<forall>b. b \<noteq> a \<longrightarrow> mem t' b = mem t b"
    by (simp_all add: t'_def)
  ultimately show ?thesis by blast
qed

lemma insertNonFull_leaf:
  assumes rp: "repr (mem t) (Br a True es [])" and nf: "length es < 65535"
  shows "\<exists>t'. insertNonFull c t a (\<lambda>_. k) (\<lambda>_. v) = Some (Inr t')
     \<and> repr (mem t') (Br a True (leaf_ins es k v) [])
     \<and> root t' = root t \<and> arena t' = arena t \<and> arenaOffset t' = arenaOffset t
     \<and> (\<forall>b. b \<noteq> a \<longrightarrow> mem t' b = mem t b)"
  by (rule insertNonFull_leaf_ref [OF rp nf]) simp

text \<open>With 65535 keys in the leaf, the increment of the 16-bit \<^verbatim>\<open>keyCount\<close> wraps to 0.\<close>

lemma insertNonFull_leaf_wrap:
  assumes rp: "repr (mem t) (Br a True es [])" and n: "length es = 65535"
  shows "\<exists>t'. insertNonFull c t a (\<lambda>_. k) (\<lambda>_. v) = Some (Inr t')
     \<and> repr (mem t') (Br a True [] [])
     \<and> root t' = root t \<and> arena t' = arena t \<and> arenaOffset t' = arenaOffset t
     \<and> (\<forall>b. b \<noteq> a \<longrightarrow> mem t' b = mem t b)"
proof -
  have u: "u16 (int (keyCount (mem t a)) + 1) = 0" using rp n by (simp add: u16_def)
  from rp have "leaf (mem t a)" by simp
  then show ?thesis
    unfolding insertNonFull_leaf_state [OF rp] using u by (simp add: modify_def)
qed
section \<open>Shape and addresses under a split\<close>

lemma a_ins_addr [simp]: "addr (fst (a_ins c h nx x k v)) = addr x"
  by (cases h; cases x) (simp_all add: Let_def split_def)

lemma a_ins_full:
  assumes "length (ents (cs ! lb es k)) = MAX_KEYS c"
    and "a_split c nx (Br a lf es cs) (lb es k) = Br a1 lf1 es1 cs1"
    and "pos1 = (if fst (es1 ! lb es k) < k then lb es k + 1 else lb es k)"
  shows "a_ins c (Suc h) nx (Br a lf es cs) k v =
     (Br a lf es1 (cs1[pos1 := fst (a_ins c h (nx + sizeof_Node c) (cs1 ! pos1) k v)]),
      snd (a_ins c h (nx + sizeof_Node c) (cs1 ! pos1) k v))"
  using assms by (simp add: Let_def split_def del: a_split.simps)

lemma a_ins_nonfull:
  assumes "length (ents (cs ! lb es k)) \<noteq> MAX_KEYS c"
  shows "a_ins c (Suc h) nx (Br a lf es cs) k v =
     (Br a lf es (cs[lb es k := fst (a_ins c h nx (cs ! lb es k) k v)]),
      snd (a_ins c h nx (cs ! lb es k) k v))"
  using assms by (simp add: Let_def split_def del: a_split.simps)

lemma a_ins_nx_le: "nx \<le> snd (a_ins c h nx x k v)"
proof (induction h arbitrary: nx x)
  case 0
  show ?case by (cases x) simp
next
  case (Suc h)
  obtain a lf es cs where x: "x = Br a lf es cs" by (cases x)
  show ?case
  proof (cases "length (ents (cs ! lb es k)) = MAX_KEYS c")
    case True
    obtain a1 lf1 es1 cs1 where sp: "a_split c nx (Br a lf es cs) (lb es k) = Br a1 lf1 es1 cs1"
      by (cases "a_split c nx (Br a lf es cs) (lb es k)")
    define pos1 where "pos1 = (if fst (es1 ! lb es k) < k then lb es k + 1 else lb es k)"
    have "nx + sizeof_Node c \<le> snd (a_ins c h (nx + sizeof_Node c) (cs1 ! pos1) k v)"
      by (rule Suc.IH)
    then show ?thesis unfolding x a_ins_full [OF True sp pos1_def] by simp
  next
    case False
    show ?thesis unfolding x a_ins_nonfull [OF False] using Suc.IH by simp
  qed
qed

lemma a_ins_full_nx_le:
  assumes "length (ents (cs ! lb es k)) = MAX_KEYS c"
  shows "nx + sizeof_Node c \<le> snd (a_ins c (Suc h) nx (Br a lf es cs) k v)"
proof -
  obtain a1 lf1 es1 cs1 where sp: "a_split c nx (Br a lf es cs) (lb es k) = Br a1 lf1 es1 cs1"
    by (cases "a_split c nx (Br a lf es cs) (lb es k)")
  define pos1 where "pos1 = (if fst (es1 ! lb es k) < k then lb es k + 1 else lb es k)"
  show ?thesis unfolding a_ins_full [OF assms sp pos1_def] snd_conv by (rule a_ins_nx_le)
qed

lemma repr_keyCount: "repr m x \<Longrightarrow> keyCount (m (addr x)) = length (ents x)"
  by (cases x) simp

lemma repr_child: "repr m (Br a lf es cs) \<Longrightarrow> y \<in> set cs \<Longrightarrow> repr m y"
  by simp

lemma wf_child: "wf c (Suc h) (Br a lf es cs) \<Longrightarrow> y \<in> set cs \<Longrightarrow> wf c h y"
  by simp

lemma repr_key: "repr m (Br a lf es cs) \<Longrightarrow> i < length es \<Longrightarrow> keys (m a) i = fst (es ! i)"
  and repr_val: "repr m (Br a lf es cs) \<Longrightarrow> i < length es \<Longrightarrow> vals (m a) i = snd (es ! i)"
  and repr_ptr: "repr m (Br a lf es cs) \<Longrightarrow> j < length cs \<Longrightarrow> child (m a) j = addr (cs ! j)"
  by simp_all

lemma distinct_concat_nth:
  assumes "distinct (concat (map g xs))" "i < length xs" "j < length xs" "i < j"
  shows "set (g (xs ! i)) \<inter> set (g (xs ! j)) = {}"
proof -
  have xs: "xs = take i xs @ xs ! i # drop (Suc i) xs"
    using assms(2) by (simp add: id_take_nth_drop)
  have "xs ! j \<in> set (drop (Suc i) xs)"
    using assms(3,4) by (auto simp: in_set_conv_nth intro!: exI [of _ "j - Suc i"])
  moreover have "distinct (concat (map g (take i xs @ xs ! i # drop (Suc i) xs)))"
    using assms(1) xs by simp
  ultimately show ?thesis by auto
qed

lemma distinct_concat_nth_ne:
  assumes "distinct (concat (map g xs))" "i < length xs" "j < length xs" "i \<noteq> j"
  shows "set (g (xs ! i)) \<inter> set (g (xs ! j)) = {}"
proof (cases "i < j")
  case True
  then show ?thesis using assms distinct_concat_nth by blast
next
  case False
  with assms(4) have "j < i" by simp
  then have "set (g (xs ! j)) \<inter> set (g (xs ! i)) = {}"
    using assms distinct_concat_nth by blast
  then show ?thesis by blast
qed

lemma distinct_child:
  assumes "distinct (addrs (Br a lf es cs))" "y \<in> set cs"
  shows "distinct (addrs y)" "set (addrs y) \<subseteq> set (addrs (Br a lf es cs))" "a \<notin> set (addrs y)"
proof -
  from assms(2) obtain us vs where "cs = us @ y # vs" by (auto dest: split_list)
  with assms(1) show "distinct (addrs y)" "set (addrs y) \<subseteq> set (addrs (Br a lf es cs))"
    "a \<notin> set (addrs y)" by auto
qed

lemma repr_replace_child:
  assumes rp: "repr m (Br a lf es cs)" and j: "j < length cs"
    and dist: "distinct (addrs (Br a lf es cs))"
    and rx: "repr m' x'" and ax: "addr x' = addr (cs ! j)"
    and fr: "\<And>b. b \<in> set (addrs (Br a lf es cs)) \<Longrightarrow> b \<notin> set (addrs (cs ! j)) \<Longrightarrow> m' b = m b"
  shows "repr m' (Br a lf es (cs[j := x']))"
proof -
  have cj: "cs ! j \<in> set cs" using j by simp
  have "a \<notin> set (addrs (cs ! j))" using distinct_child(3) [OF dist cj] .
  then have ma: "m' a = m a" by (intro fr) simp_all
  have ptr: "child (m a) i = addr (cs[j := x'] ! i)" if "i < length cs" for i
    using that rp ax by (cases "i = j") simp_all
  have sub: "repr m' y" if "y \<in> set (cs[j := x'])" for y
  proof -
    from that obtain i where i: "i < length cs" "y = cs[j := x'] ! i"
      by (auto simp: in_set_conv_nth)
    show ?thesis
    proof (cases "i = j")
      case True
      with i rx show ?thesis by simp
    next
      case False
      with i have y: "y = cs ! i" by simp
      from dist have "distinct (concat (map addrs cs))" by simp
      then have dj: "set (addrs (cs ! i)) \<inter> set (addrs (cs ! j)) = {}"
        using i(1) j False by (rule distinct_concat_nth_ne)
      have "repr m (cs ! i)" using rp i(1) by simp
      then show ?thesis unfolding y
      proof (rule repr_frame)
        fix b assume b: "b \<in> set (addrs (cs ! i))"
        with dj have "b \<notin> set (addrs (cs ! j))" by auto
        moreover from b i(1) have "b \<in> set (addrs (Br a lf es cs))" by auto
        ultimately show "m' b = m b" by (rule fr [rotated])
      qed
    qed
  qed
  show ?thesis using rp ptr sub by (simp add: ma)
qed

text \<open>Facts about the split, with the parent's children as pre @ X # post.\<close>

lemma wf_split_halves:
  assumes vp: "valid_params c" and w: "wf c h (Br f lf' es' cs')" and full: "length es' = MAX_KEYS c"
  shows "wf c h (Br f lf' (take (ORDER c) es') (take (ORDER c + 1) cs'))"
    "wf c h (Br new lf' (drop (ORDER c + 1) es') (drop (ORDER c + 1) cs'))"
proof -
  note pf = params_facts [OF vp]
  have o: "0 < ORDER c" using vp by (simp add: valid_params_def)
  show "wf c h (Br f lf' (take (ORDER c) es') (take (ORDER c + 1) cs'))"
    using w full pf by (cases h) (auto simp: min_def dest: in_set_takeD)
  show "wf c h (Br new lf' (drop (ORDER c + 1) es') (drop (ORDER c + 1) cs'))"
    using w full o by (cases h) (auto simp: MAX_KEYS_def dest: in_set_dropD)
qed

lemma wf_split:
  assumes vp: "valid_params c"
    and w: "wf c (Suc h) (Br a lf es (pre @ Br f lf' es' cs' # post))"
    and full: "length es' = MAX_KEYS c" and nf: "length es < MAX_KEYS c"
    and pl: "length pre \<le> length es"
  shows "wf c (Suc h) (Br a lf (take (length pre) es @ es' ! (ORDER c) # drop (length pre) es)
       (pre @ Br f lf' (take (ORDER c) es') (take (ORDER c + 1) cs')
          # Br new lf' (drop (ORDER c + 1) es') (drop (ORDER c + 1) cs') # post))"
proof -
  from w have "wf c h (Br f lf' es' cs')" by simp
  note hv = wf_split_halves [OF vp this full]
  from w nf pl hv show ?thesis by (auto simp: min_def)
qed

lemma addrs_split:
  "mset (addrs (Br a lf es1 (pre @ Br f lf' es2 (take n cs') # Br new lf' es3 (drop n cs') # post)))
   = add_mset new (mset (addrs (Br a lf es (pre @ Br f lf' es' cs' # post))))"
proof -
  have "mset (concat (map addrs (take n cs'))) + mset (concat (map addrs (drop n cs')))
     = mset (concat (map addrs cs'))"
    by (metis append_take_drop_id concat_append map_append mset_append)
  then show ?thesis by (simp add: ac_simps)
qed

lemma distinct_split:
  assumes "distinct (addrs (Br a lf es (pre @ Br f lf' es' cs' # post)))"
    and "new \<notin> set (addrs (Br a lf es (pre @ Br f lf' es' cs' # post)))"
  shows "distinct (addrs (Br a lf es1 (pre @ Br f lf' es2 (take n cs') # Br new lf' es3 (drop n cs') # post)))"
    and "set (addrs (Br a lf es1 (pre @ Br f lf' es2 (take n cs') # Br new lf' es3 (drop n cs') # post)))
      = insert new (set (addrs (Br a lf es (pre @ Br f lf' es' cs' # post))))"
proof -
  let ?x = "Br a lf es (pre @ Br f lf' es' cs' # post)"
  let ?y = "Br a lf es1 (pre @ Br f lf' es2 (take n cs') # Br new lf' es3 (drop n cs') # post)"
  have m: "mset (addrs ?y) = mset (new # addrs ?x)"
    using addrs_split [of a lf es1 pre f lf' es2 n cs' new es3 post es es'] by simp
  from assms have "distinct (new # addrs ?x)" by simp
  with m show "distinct (addrs ?y)" by (metis mset_eq_imp_distinct_iff)
  from m show "set (addrs ?y) = insert new (set (addrs ?x))"
    by (metis list.simps(15) mset_eq_setD)
qed

section \<open>insertNonFull on the represented tree\<close>

lemma splitChild_Inr:
  "arenaOffset t + sizeof_Node c \<le> ARENA_SIZE \<Longrightarrow> \<exists>t'. splitChild c t p idx = Inr t'"
  by (simp add: splitChild_def Let_def allocNode_Inr)

text \<open>
  \<^verbatim>\<open>insertNonFull\<close> with both arguments objects outside the tree: when the nodes it
  allocates fit the arena it returns the tree of \<open>a_ins\<close>, and otherwise it ends at the
  first node that does not fit.
\<close>

lemma insertNonFull_refines:
  assumes vp: "valid_params c"
  shows "repr (mem t) x \<Longrightarrow> wf c h x \<Longrightarrow> length (ents x) < MAX_KEYS c \<Longrightarrow> distinct (addrs x) \<Longrightarrow>
    (\<forall>b \<in> set (addrs x). b < arena t + arenaOffset t) \<Longrightarrow> arenaOffset t \<le> ARENA_SIZE \<Longrightarrow>
    (if snd (a_ins c h (arena t + arenaOffset t) x k v) \<le> arena t + ARENA_SIZE
     then \<exists>t'. insertNonFull c t (addr x) (\<lambda>_. k) (\<lambda>_. v) = Some (Inr t')
       \<and> repr (mem t') (fst (a_ins c h (arena t + arenaOffset t) x k v))
       \<and> root t' = root t \<and> arena t' = arena t
       \<and> arena t' + arenaOffset t' = snd (a_ins c h (arena t + arenaOffset t) x k v)
       \<and> (\<forall>b. b \<notin> set (addrs x) \<longrightarrow> b < arena t + arenaOffset t \<longrightarrow> mem t' b = mem t b)
     else insertNonFull c t (addr x) (\<lambda>_. k) (\<lambda>_. v) = Some (Inl OutOfArena))"
proof (induction h arbitrary: t x)
  case 0
  note pf = params_facts [OF vp]
  obtain a lf es cs where x: "x = Br a lf es cs" by (cases x)
  with 0 have lf: "lf" "cs = []" by simp_all
  from 0 x lf pf have "repr (mem t) (Br a True es [])" "length es < 65535" by simp_all
  from insertNonFull_leaf [OF this, of c k v] 0(6) show ?case
    by (auto simp: x lf)
next
  case (Suc h)
  note pf = params_facts [OF vp]
  let ?nx = "arena t + arenaOffset t"
  obtain a lf es cs where x: "x = Br a lf es cs" by (cases x)
  from Suc.prems x have lf: "\<not> lf" and lcs: "length cs = length es + 1"
    and wch: "\<And>y. y \<in> set cs \<Longrightarrow> wf c h y" and nf: "length es < MAX_KEYS c" by simp_all
  define pos where "pos = lb es k"
  have fp: "findPos (mem t a) k = pos"
    unfolding pos_def using Suc.prems(1) x by (intro findPos_lb) simp_all
  have ples: "pos \<le> length es" unfolding pos_def by (rule lb_le)
  then have pl: "pos < length cs" using lcs by simp
  define X where "X = cs ! pos"
  have Xin: "X \<in> set cs" using pl by (simp add: X_def)
  have rX: "repr (mem t) X" using Suc.prems(1) x Xin by simp
  have wX: "wf c h X" using wch Xin .
  have chX: "child (mem t a) pos = addr X" using Suc.prems(1) x pl by (simp add: X_def)
  have kcX: "keyCount (mem t (addr X)) = length (ents X)" using rX by (rule repr_keyCount)
  have nlf: "\<not> leaf (mem t a)" using Suc.prems(1) x lf by simp
  have dist: "distinct (addrs (Br a lf es cs))" using Suc.prems(4) x by simp
  have bnd: "\<And>b. b \<in> set (addrs (Br a lf es cs)) \<Longrightarrow> b < ?nx" using Suc.prems(5) x by auto
  note dX = distinct_child [OF dist Xin]
  show ?case
  proof (cases "length (ents X) = MAX_KEYS c")
    case False
    have leX: "length (ents X) \<le> MAX_KEYS c" using wX by (cases h; cases X) simp_all
    with False have nfX: "length (ents X) < MAX_KEYS c" by simp
    have bX: "\<forall>b \<in> set (addrs X). b < ?nx" using dX(2) bnd by auto
    have ai: "a_ins c (Suc h) ?nx x k v =
        (Br a lf es (cs[pos := fst (a_ins c h ?nx X k v)]), snd (a_ins c h ?nx X k v))"
      unfolding x X_def pos_def using False [unfolded X_def pos_def] by (rule a_ins_nonfull)
    note ih = Suc.IH [OF rX wX nfX dX(1) bX Suc.prems(6)]
    have step: "insertNonFull c t (addr x) (\<lambda>_. k) (\<lambda>_. v) = insertNonFull c t (addr X) (\<lambda>_. k) (\<lambda>_. v)"
      unfolding x by (subst insertNonFull.simps)
        (simp add: nlf fp Let_def chX full_def kcX False)
    show ?thesis
    proof (cases "snd (a_ins c h ?nx X k v) \<le> arena t + ARENA_SIZE")
      case fits: True
      with ih obtain t' where
        ins: "insertNonFull c t (addr X) (\<lambda>_. k) (\<lambda>_. v) = Some (Inr t')"
        and r': "repr (mem t') (fst (a_ins c h ?nx X k v))"
        and rt: "root t' = root t" "arena t' = arena t"
        and off: "arena t' + arenaOffset t' = snd (a_ins c h ?nx X k v)"
        and fr: "\<And>b. b \<notin> set (addrs X) \<Longrightarrow> b < ?nx \<Longrightarrow> mem t' b = mem t b"
        by auto
      have "repr (mem t') (Br a lf es (cs[pos := fst (a_ins c h ?nx X k v)]))"
      proof (rule repr_replace_child [OF _ pl dist r'])
        show "repr (mem t) (Br a lf es cs)" using Suc.prems(1) x by simp
        show "addr (fst (a_ins c h ?nx X k v)) = addr (cs ! pos)" by (simp add: X_def)
        fix b assume "b \<in> set (addrs (Br a lf es cs))" "b \<notin> set (addrs (cs ! pos))"
        then show "mem t' b = mem t b" using fr [of b] bnd [of b] by (simp add: X_def)
      qed
      moreover have "\<forall>b. b \<notin> set (addrs x) \<longrightarrow> b < ?nx \<longrightarrow> mem t' b = mem t b"
        using fr dX(2) x by auto
      ultimately show ?thesis using step ins ai rt off fits by simp
    next
      case nofit: False
      with ih step ai show ?thesis by simp
    qed
  next
    case True
    obtain f lf' es' cs' where Xe: "X = Br f lf' es' cs'" by (cases X)
    define pre where "pre = take pos cs"
    define post where "post = drop (Suc pos) cs"
    have cs: "cs = pre @ Br f lf' es' cs' # post"
      unfolding pre_def post_def Xe [symmetric] X_def using pl by (simp add: id_take_nth_drop)
    have lpre: "pos = length pre" using pl by (simp add: pre_def)
    have full: "length es' = MAX_KEYS c" using True Xe by simp
    have kids: "if lf' then cs' = [] else length cs' = length es' + 1"
      using wX Xe by (cases h) auto
    have fullX: "full c (mem t (addr X))" using kcX True by (simp add: full_def)
    show ?thesis
    proof (cases "arenaOffset t + sizeof_Node c \<le> ARENA_SIZE")
      case nofit: False
      have "insertNonFull c t (addr x) (\<lambda>_. k) (\<lambda>_. v) = Some (Inl OutOfArena)"
        unfolding x by (subst insertNonFull.simps)
          (simp add: nlf fp Let_def chX fullX splitChild_Inl [OF nofit])
      moreover have "?nx + sizeof_Node c \<le> snd (a_ins c (Suc h) ?nx x k v)"
        unfolding x by (rule a_ins_full_nx_le [OF True [unfolded X_def pos_def]])
      with nofit have "\<not> snd (a_ins c (Suc h) ?nx x k v) \<le> arena t + ARENA_SIZE" by simp
      ultimately show ?thesis by simp
    next
      case fit: True
    from splitChild_Inr [OF fit] obtain t1 where t1_def: "splitChild c t a pos = Inr t1" by blast
    let ?es1 = "take pos es @ es' ! (ORDER c) # drop pos es"
    let ?L = "Br f lf' (take (ORDER c) es') (take (ORDER c + 1) cs')"
    let ?R = "Br ?nx lf' (drop (ORDER c + 1) es') (drop (ORDER c + 1) cs')"
    let ?cs1 = "pre @ ?L # ?R # post"
    let ?p1 = "Br a lf ?es1 ?cs1"
    have fresh: "?nx \<notin> set (addrs (Br a lf es (pre @ Br f lf' es' cs' # post)))"
      using bnd cs by auto
    have rp: "repr (mem t) (Br a lf es (pre @ Br f lf' es' cs' # post))"
      using Suc.prems(1) x cs by simp
    have len: "length pre + length post = length es"
      using lcs cs by simp
    have dist': "distinct (addrs (Br a lf es (pre @ Br f lf' es' cs' # post)))"
      using dist cs by simp
    have r1: "repr (mem t1) ?p1"
      using splitChild_repr_ctx [OF vp rp lpre full nf len kids dist' refl fresh fit t1_def] .
    have fch: "f = child (mem t a) pos" using chX Xe by simp
    have ne: "a \<noteq> f" "?nx \<noteq> a" "?nx \<noteq> f" using dist' fresh by auto
    have kc: "keyCount (mem t a) < MAX_KEYS c" using Suc.prems(1) x nf by simp
    note st = splitChild_state [OF vp fch refl ne kc fit t1_def]
    have p1: "a_split c ?nx (Br a lf es cs) pos = ?p1"
      unfolding cs using a_split_ctx [OF lpre, of c ?nx a lf es f lf' es' cs' post] pf(1) by simp
    have w1: "wf c (Suc h) ?p1"
      using wf_split [OF vp _ full nf, of h a lf pre f lf' cs' post ?nx] Suc.prems(2) x cs lpre len
      by simp
    have d1: "distinct (addrs ?p1)" and s1: "set (addrs ?p1) = insert ?nx (set (addrs (Br a lf es cs)))"
      using distinct_split [OF dist' fresh, of ?es1 "take (ORDER c) es'" "ORDER c + 1" "drop (ORDER c + 1) es'"]
      unfolding cs by simp_all
    have bnd1: "b < ?nx + sizeof_Node c" if "b \<in> set (addrs ?p1)" for b
    proof -
      from that have "b \<in> insert ?nx (set (addrs (Br a lf es cs)))" unfolding s1 .
      then show ?thesis
      proof (rule insertE)
        assume "b = ?nx" with pf(6) show ?thesis by simp
      next
        assume "b \<in> set (addrs (Br a lf es cs))"
        from bnd [OF this] show ?thesis by simp
      qed
    qed
    define pos1 where "pos1 = (if fst (?es1 ! pos) < k then pos + 1 else pos)"
    have p1l: "pos1 < length ?cs1" using pl cs by (simp add: pos1_def)
    have kpos: "keys (mem t1 a) pos = fst (?es1 ! pos)"
      using ples by (intro repr_key [OF r1]) simp
    define Y where "Y = ?cs1 ! pos1"
    have Yin: "Y \<in> set ?cs1" unfolding Y_def using p1l by (rule nth_mem)
    have Ycases: "Y = ?L \<or> Y = ?R"
      unfolding Y_def pos1_def using lpre by (simp add: nth_append)
    have rY: "repr (mem t1) Y" using r1 Yin by (rule repr_child)
    have wY: "wf c h Y" using w1 Yin by (rule wf_child)
    have nfY: "length (ents Y) < MAX_KEYS c"
      using Ycases full pf by (auto simp: MAX_KEYS_def)
    note dY = distinct_child [OF d1 Yin]
    have nx1: "arena t1 + arenaOffset t1 = ?nx + sizeof_Node c" by (simp add: st)
    have bY: "\<forall>b \<in> set (addrs Y). b < arena t1 + arenaOffset t1"
    proof
      fix b assume "b \<in> set (addrs Y)"
      with dY(2) have "b \<in> set (addrs ?p1)" by blast
      from bnd1 [OF this] show "b < arena t1 + arenaOffset t1" unfolding nx1 .
    qed
    have chY: "child (mem t1 a) pos1 = addr Y" unfolding Y_def using r1 p1l by (rule repr_ptr)
    have off1: "arenaOffset t1 \<le> ARENA_SIZE" using fit by (simp add: st)
    note ih = Suc.IH [OF rY wY nfY dY(1) bY off1, unfolded st(2) st(3) add.assoc [symmetric]]
    have step: "insertNonFull c t (addr x) (\<lambda>_. k) (\<lambda>_. v) = insertNonFull c t1 (addr Y) (\<lambda>_. k) (\<lambda>_. v)"
      unfolding x by (subst insertNonFull.simps)
        (simp add: nlf fp Let_def chX fullX t1_def kpos pos1_def [symmetric] chY)
    have ai: "a_ins c (Suc h) ?nx x k v =
        (Br a lf ?es1 (?cs1[pos1 := fst (a_ins c h (?nx + sizeof_Node c) Y k v)]),
         snd (a_ins c h (?nx + sizeof_Node c) Y k v))"
      unfolding x Y_def pos_def
      by (rule a_ins_full [OF True [unfolded X_def pos_def] p1 [unfolded pos_def]
            pos1_def [unfolded pos_def]])
    show ?thesis
    proof (cases "snd (a_ins c h (?nx + sizeof_Node c) Y k v) \<le> arena t + ARENA_SIZE")
      case nofit: False
      with ih step ai show ?thesis by simp
    next
      case fits: True
      with ih obtain t' where
        ins: "insertNonFull c t1 (addr Y) (\<lambda>_. k) (\<lambda>_. v) = Some (Inr t')"
        and r': "repr (mem t') (fst (a_ins c h (?nx + sizeof_Node c) Y k v))"
        and rt: "root t' = root t1" "arena t' = arena t"
        and off: "arena t' + arenaOffset t' = snd (a_ins c h (?nx + sizeof_Node c) Y k v)"
        and fr: "\<And>b. b \<notin> set (addrs Y) \<Longrightarrow> b < ?nx + sizeof_Node c \<Longrightarrow> mem t' b = mem t1 b"
        by auto
      have "repr (mem t') (Br a lf ?es1 (?cs1[pos1 := fst (a_ins c h (?nx + sizeof_Node c) Y k v)]))"
      proof (rule repr_replace_child [OF r1 p1l d1 r'])
        show "addr (fst (a_ins c h (?nx + sizeof_Node c) Y k v)) = addr (?cs1 ! pos1)"
          by (simp add: Y_def)
        fix b assume b: "b \<in> set (addrs ?p1)" "b \<notin> set (addrs (?cs1 ! pos1))"
        from bnd1 [OF b(1)] have "b < ?nx + sizeof_Node c" .
        with b(2) show "mem t' b = mem t1 b" by (intro fr) (simp_all add: Y_def)
      qed
      moreover have "\<forall>b. b \<notin> set (addrs x) \<longrightarrow> b < ?nx \<longrightarrow> mem t' b = mem t b"
      proof (intro allI impI)
        fix b assume b: "b \<notin> set (addrs x)" "b < ?nx"
        have "b \<notin> set (addrs Y)" using dY(2) s1 b x by auto
        with b(2) have "mem t' b = mem t1 b" by (intro fr) simp_all
        moreover have "b \<noteq> ?nx" "b \<noteq> f" "b \<noteq> a" using b x cs by auto
        then have "mem t1 b = mem t b" by (rule st(4))
        ultimately show "mem t' b = mem t b" by simp
      qed
      ultimately show ?thesis using step ins ai rt off fits by (simp add: st)
    qed
    qed
  qed
qed
section \<open>The cases of an insertion\<close>

lemma lb_less: "i < lb es k \<Longrightarrow> fst (es ! i) < k"
  unfolding lb_def using nth_mem set_takeWhileD takeWhile_nth by (metis (no_types, lifting))

lemma lb_ge: "lb es k < length es \<Longrightarrow> k \<le> fst (es ! lb es k)"
  unfolding lb_def using nth_length_takeWhile [of "\<lambda>e. fst e < k" es] by (simp add: not_less)

lemma lb_eqI:
  assumes "p \<le> length es" "\<And>i. i < p \<Longrightarrow> fst (es ! i) < k" "p < length es \<Longrightarrow> k \<le> fst (es ! p)"
  shows "lb es k = p"
proof -
  have "takeWhile (\<lambda>e. fst e < k) es = take p es"
    by (rule takeWhile_eq_take_P_nth) (use assms in \<open>auto simp: not_less\<close>)
  with assms(1) show ?thesis by (simp add: lb_def)
qed

lemma lb_split:
  "lb (take (lb es k) es @ m # drop (lb es k) es) k = (if fst m < k then lb es k + 1 else lb es k)"
proof -
  let ?p = "lb es k"
  let ?es1 = "take ?p es @ m # drop ?p es"
  have p: "?p \<le> length es" by (rule lb_le)
  have before: "fst (?es1 ! i) < k" if "i < ?p" for i
    using that p lb_less [of i es k] by (simp add: nth_append)
  show ?thesis
  proof (cases "fst m < k")
    case True
    have "lb ?es1 k = ?p + 1"
    proof (rule lb_eqI)
      show "?p + 1 \<le> length ?es1" using p by simp
      fix i assume "i < ?p + 1"
      then consider "i < ?p" | "i = ?p" by arith
      then show "fst (?es1 ! i) < k"
        using before True p by cases (simp_all add: nth_append)
    next
      assume "?p + 1 < length ?es1"
      then have "?p < length es" using p by simp
      moreover from this p have "?es1 ! (?p + 1) = es ! ?p" by (simp add: nth_append)
      ultimately show "k \<le> fst (?es1 ! (?p + 1))" using lb_ge [of es k] by simp
    qed
    with True show ?thesis by simp
  next
    case False
    have "lb ?es1 k = ?p"
    proof (rule lb_eqI)
      show "?p \<le> length ?es1" using p by simp
      show "\<And>i. i < ?p \<Longrightarrow> fst (?es1 ! i) < k" by (rule before)
      show "k \<le> fst (?es1 ! ?p)" using False p by (simp add: nth_append not_less)
    qed
    with False show ?thesis by simp
  qed
qed

lemma wf_ents_le: "wf c h x \<Longrightarrow> length (ents x) \<le> MAX_KEYS c"
  by (cases h; cases x) simp_all

lemma a_ins_split_eq:
  assumes vp: "valid_params c"
    and w: "wf c (Suc h) (Br a lf es (pre @ Br f lf' es' cs' # post))"
    and lp: "length pre = lb es k"
    and full: "length es' = MAX_KEYS c"
  shows "a_ins c (Suc h) nx (Br a lf es (pre @ Br f lf' es' cs' # post)) k v =
    a_ins c (Suc h) (nx + sizeof_Node c)
      (Br a lf (take (length pre) es @ es' ! (ORDER c) # drop (length pre) es)
         (pre @ Br f lf' (take (ORDER c) es') (take (ORDER c + 1) cs')
            # Br nx lf' (drop (ORDER c + 1) es') (drop (ORDER c + 1) cs') # post)) k v"
    and "length (ents ((pre @ Br f lf' (take (ORDER c) es') (take (ORDER c + 1) cs')
            # Br nx lf' (drop (ORDER c + 1) es') (drop (ORDER c + 1) cs') # post)
          ! lb (take (length pre) es @ es' ! (ORDER c) # drop (length pre) es) k)) \<noteq> MAX_KEYS c"
proof -
  note pf = params_facts [OF vp]
  let ?cs = "pre @ Br f lf' es' cs' # post"
  let ?es1 = "take (length pre) es @ es' ! (ORDER c) # drop (length pre) es"
  let ?cs1 = "pre @ Br f lf' (take (ORDER c) es') (take (ORDER c + 1) cs')
            # Br nx lf' (drop (ORDER c + 1) es') (drop (ORDER c + 1) cs') # post"
  define pos1 where "pos1 = (if fst (?es1 ! lb es k) < k then lb es k + 1 else lb es k)"
  have fullc: "length (ents (?cs ! lb es k)) = MAX_KEYS c"
    using full lp [symmetric] by simp
  have sp: "a_split c nx (Br a lf es ?cs) (lb es k) = Br a lf ?es1 ?cs1"
    using a_split_ctx [of "lb es k" pre c nx a lf es f lf' es' cs' post] lp pf(1) by simp
  have l: "a_ins c (Suc h) nx (Br a lf es ?cs) k v =
     (Br a lf ?es1 (?cs1[pos1 := fst (a_ins c h (nx + sizeof_Node c) (?cs1 ! pos1) k v)]),
      snd (a_ins c h (nx + sizeof_Node c) (?cs1 ! pos1) k v))"
    using fullc sp pos1_def by (rule a_ins_full)
  have m: "?es1 ! lb es k = es' ! ORDER c" using lp lb_le [of es k] by (simp add: nth_append)
  have "lb ?es1 k = (if fst (es' ! ORDER c) < k then lb es k + 1 else lb es k)"
    unfolding lp by (rule lb_split)
  then have lb1: "lb ?es1 k = pos1"
    unfolding pos1_def m .
  have "?cs1 ! pos1 = Br f lf' (take (ORDER c) es') (take (ORDER c + 1) cs')
      \<or> ?cs1 ! pos1 = Br nx lf' (drop (ORDER c + 1) es') (drop (ORDER c + 1) cs')"
    unfolding pos1_def using lp by (simp add: nth_append)
  then show nfc: "length (ents (?cs1 ! lb ?es1 k)) \<noteq> MAX_KEYS c"
    unfolding lb1 using full pf by (auto simp: MAX_KEYS_def)
  have r: "a_ins c (Suc h) (nx + sizeof_Node c) (Br a lf ?es1 ?cs1) k v =
     (Br a lf ?es1 (?cs1[pos1 := fst (a_ins c h (nx + sizeof_Node c) (?cs1 ! pos1) k v)]),
      snd (a_ins c h (nx + sizeof_Node c) (?cs1 ! pos1) k v))"
    using a_ins_nonfull [OF nfc, of h "nx + sizeof_Node c" a lf v] unfolding lb1 .
  show "a_ins c (Suc h) nx (Br a lf es ?cs) k v =
      a_ins c (Suc h) (nx + sizeof_Node c) (Br a lf ?es1 ?cs1) k v"
    unfolding l r ..
qed

lemma a_ins_rule:
  assumes vp: "valid_params c"
    and L: "\<And>nx a es. length es < MAX_KEYS c \<Longrightarrow>
        R 0 nx (Br a True es []) (Br a True (leaf_ins es k v) [], nx)"
    and D: "\<And>h nx a es cs r. wf c (Suc h) (Br a False es cs) \<Longrightarrow>
        length (ents (cs ! lb es k)) < MAX_KEYS c \<Longrightarrow>
        r = a_ins c h nx (cs ! lb es k) k v \<Longrightarrow> R h nx (cs ! lb es k) r \<Longrightarrow>
        R (Suc h) nx (Br a False es cs) (Br a False es (cs[lb es k := fst r]), snd r)"
    and S: "\<And>h nx a es pre f lf' es' cs' post r.
        wf c (Suc h) (Br a False es (pre @ Br f lf' es' cs' # post)) \<Longrightarrow>
        length pre = lb es k \<Longrightarrow> length es' = MAX_KEYS c \<Longrightarrow> length es < MAX_KEYS c \<Longrightarrow>
        R (Suc h) (nx + sizeof_Node c)
          (Br a False (take (length pre) es @ es' ! (ORDER c) # drop (length pre) es)
            (pre @ Br f lf' (take (ORDER c) es') (take (ORDER c + 1) cs')
              # Br nx lf' (drop (ORDER c + 1) es') (drop (ORDER c + 1) cs') # post)) r \<Longrightarrow>
        R (Suc h) nx (Br a False es (pre @ Br f lf' es' cs' # post)) r"
  shows "wf c h x \<Longrightarrow> length (ents x) < MAX_KEYS c \<Longrightarrow> R h nx x (a_ins c h nx x k v)"
proof (induction h arbitrary: nx x)
  case 0
  obtain a lf es cs where x: "x = Br a lf es cs" by (cases x)
  with 0 show ?case using L [of es nx a] by simp
next
  case (Suc h)
  note pf = params_facts [OF vp]
  obtain a lf es cs where x: "x = Br a lf es cs" by (cases x)
  from Suc.prems x have lf: "\<not> lf" and lcs: "length cs = length es + 1"
    and nf: "length es < MAX_KEYS c" and w: "wf c (Suc h) (Br a False es cs)" by simp_all
  have step: "R (Suc h) nx' (Br a False es2 cs2) (a_ins c (Suc h) nx' (Br a False es2 cs2) k v)"
    if w2: "wf c (Suc h) (Br a False es2 cs2)"
      and c2: "length (ents (cs2 ! lb es2 k)) \<noteq> MAX_KEYS c" for nx' es2 cs2
  proof -
    have "lb es2 k < length cs2" using w2 lb_le [of es2 k] by simp
    then have in2: "cs2 ! lb es2 k \<in> set cs2" by simp
    with w2 have wc: "wf c h (cs2 ! lb es2 k)" by simp
    with c2 wf_ents_le [OF wc] have lt: "length (ents (cs2 ! lb es2 k)) < MAX_KEYS c" by simp
    have "R h nx' (cs2 ! lb es2 k) (a_ins c h nx' (cs2 ! lb es2 k) k v)"
      using wc lt by (rule Suc.IH)
    from D [OF w2 lt refl this] show ?thesis
      unfolding a_ins_nonfull [OF c2] .
  qed
  show ?case
  proof (cases "length (ents (cs ! lb es k)) = MAX_KEYS c")
    case False
    from step [OF w False] show ?thesis using x lf by simp
  next
    case True
    have pl: "lb es k < length cs" using lcs lb_le [of es k] by simp
    obtain f lf' es' cs' where Xe: "cs ! lb es k = Br f lf' es' cs'" by (cases "cs ! lb es k")
    define pre where "pre = take (lb es k) cs"
    define post where "post = drop (Suc (lb es k)) cs"
    have cs: "cs = pre @ Br f lf' es' cs' # post"
      unfolding pre_def post_def Xe [symmetric] using pl by (simp add: id_take_nth_drop)
    have lpre: "length pre = lb es k" using pl by (simp add: pre_def)
    have full: "length es' = MAX_KEYS c" using True Xe by simp
    let ?es1 = "take (length pre) es @ es' ! (ORDER c) # drop (length pre) es"
    let ?cs1 = "pre @ Br f lf' (take (ORDER c) es') (take (ORDER c + 1) cs')
              # Br nx lf' (drop (ORDER c + 1) es') (drop (ORDER c + 1) cs') # post"
    have w': "wf c (Suc h) (Br a False es (pre @ Br f lf' es' cs' # post))" using w cs by simp
    have ple: "length pre \<le> length es" using lpre lb_le [of es k] by simp
    have w1: "wf c (Suc h) (Br a False ?es1 ?cs1)"
      using wf_split [OF vp w' full nf ple] .
    have eq: "a_ins c (Suc h) nx (Br a False es cs) k v
        = a_ins c (Suc h) (nx + sizeof_Node c) (Br a False ?es1 ?cs1) k v"
      unfolding cs using a_ins_split_eq(1) [OF vp w' lpre full] .
    have nfc: "length (ents (?cs1 ! lb ?es1 k)) \<noteq> MAX_KEYS c"
      using a_ins_split_eq(2) [OF vp w' lpre full] .
    have "R (Suc h) (nx + sizeof_Node c) (Br a False ?es1 ?cs1)
        (a_ins c (Suc h) (nx + sizeof_Node c) (Br a False ?es1 ?cs1) k v)"
      using w1 nfc by (rule step)
    from S [OF w' lpre full nf this] show ?thesis
      unfolding x using lf eq cs by simp
  qed
qed

section \<open>The entries in order\<close>

lemma inter_append:
  "length cs1 = length es1 \<Longrightarrow> inter (cs1 @ cs2) (es1 @ es2) = inter cs1 es1 @ inter cs2 es2"
  by (induction cs1 es1 rule: list_induct2) simp_all

lemma inter_Cons: "inter (c # cs) es = c @ inter ([] # cs) es"
  by (cases es) simp_all

lemma inter_last:
  "length cs = length es \<Longrightarrow> es \<noteq> [] \<Longrightarrow> inter cs es \<noteq> [] \<and> last (inter cs es) = last es"
  by (induction cs es rule: list_induct2) auto

lemma set_inter_es: "set es \<subseteq> set (inter cs es)"
  by (induction cs es rule: inter.induct) auto

lemma sorted_inter_es: "sorted (map f (inter cs es)) \<Longrightarrow> sorted (map f es)"
proof (induction cs es rule: inter.induct)
  case (3 c cs e es)
  then have "sorted (map f (e # inter cs es))" by (simp add: sorted_append)
  with 3 set_inter_es [of es cs] show ?case by auto
qed (simp_all add: sorted_append)

lemma inorder_ctx:
  "length pre \<le> length es \<Longrightarrow>
   inorder (Br a lf es (pre @ X # post)) =
     inter (map inorder pre) (take (length pre) es) @ inorder X
       @ inter ([] # map inorder post) (drop (length pre) es)"
proof -
  assume le: "length pre \<le> length es"
  have "inter (map inorder (pre @ X # post)) (take (length pre) es @ drop (length pre) es) =
      inter (map inorder pre) (take (length pre) es)
        @ inter (inorder X # map inorder post) (drop (length pre) es)"
    using inter_append [of "map inorder pre" "take (length pre) es" "map inorder (X # post)"
        "drop (length pre) es"] le by simp
  then show ?thesis
    using inter_Cons [of "inorder X" "map inorder post" "drop (length pre) es"] by simp
qed

lemma inorder_halves:
  assumes vp: "valid_params c" and w: "wf c h (Br f lf' es' cs')" and full: "length es' = MAX_KEYS c"
  shows "inorder (Br f lf' es' cs') =
     inorder (Br f lf' (take (ORDER c) es') (take (ORDER c + 1) cs')) @ es' ! (ORDER c)
       # inorder (Br new lf' (drop (ORDER c + 1) es') (drop (ORDER c + 1) cs'))"
proof (cases h)
  case 0
  have "ORDER c < length es'" using full params_facts(5) [OF vp] by simp
  then have "es' = take (ORDER c) es' @ es' ! ORDER c # drop (Suc (ORDER c)) es'"
    by (rule id_take_nth_drop)
  with w 0 show ?thesis by simp
next
  case (Suc h')
  let ?o = "ORDER c"
  let ?mc = "map inorder cs'"
  from w Suc have lc: "length cs' = length es' + 1" by simp
  have o: "?o < length es'" using full params_facts(5) [OF vp] by simp
  have "?o < length ?mc" using o lc by simp
  then have "?mc = take ?o ?mc @ ?mc ! ?o # drop (Suc ?o) ?mc" by (rule id_take_nth_drop)
  then have mc: "?mc = take ?o ?mc @ ?mc ! ?o # drop (?o + 1) ?mc" by simp
  from o have "es' = take ?o es' @ es' ! ?o # drop (Suc ?o) es'" by (rule id_take_nth_drop)
  then have es: "es' = take ?o es' @ es' ! ?o # drop (?o + 1) es'" by simp
  have "inter ?mc es' = inter (take ?o ?mc @ ?mc ! ?o # drop (?o + 1) ?mc)
       (take ?o es' @ es' ! ?o # drop (?o + 1) es')"
    using mc es by metis
  also have "\<dots> = inter (take ?o ?mc) (take ?o es')
      @ inter (?mc ! ?o # drop (?o + 1) ?mc) (es' ! ?o # drop (?o + 1) es')"
    using o lc by (intro inter_append) simp
  finally have x: "inter ?mc es' = inter (take ?o ?mc) (take ?o es') @ ?mc ! ?o
      @ es' ! ?o # inter (drop (?o + 1) ?mc) (drop (?o + 1) es')"
    by simp
  have "take (?o + 1) ?mc = take ?o ?mc @ [?mc ! ?o]"
    using o lc by (simp add: take_Suc_conv_app_nth)
  then have "inter (take (?o + 1) ?mc) (take ?o es') = inter (take ?o ?mc @ [?mc ! ?o]) (take ?o es' @ [])"
    by simp
  also have "\<dots> = inter (take ?o ?mc) (take ?o es') @ inter [?mc ! ?o] []"
    using o lc by (intro inter_append) simp
  finally have l: "inter (take (?o + 1) ?mc) (take ?o es') = inter (take ?o ?mc) (take ?o es') @ ?mc ! ?o"
    by simp
  show ?thesis
    using x l by (simp add: take_map drop_map)
qed

lemma inorder_split:
  assumes vp: "valid_params c"
    and w: "wf c (Suc h) (Br a lf es (pre @ Br f lf' es' cs' # post))"
    and full: "length es' = MAX_KEYS c" and ple: "length pre \<le> length es"
  shows "inorder (Br a lf (take (length pre) es @ es' ! (ORDER c) # drop (length pre) es)
         (pre @ Br f lf' (take (ORDER c) es') (take (ORDER c + 1) cs')
            # Br new lf' (drop (ORDER c + 1) es') (drop (ORDER c + 1) cs') # post))
     = inorder (Br a lf es (pre @ Br f lf' es' cs' # post))"
proof -
  let ?L = "Br f lf' (take (ORDER c) es') (take (ORDER c + 1) cs')"
  let ?R = "Br new lf' (drop (ORDER c + 1) es') (drop (ORDER c + 1) cs')"
  let ?j = "length pre"
  from w have wX: "wf c h (Br f lf' es' cs')" by simp
  note hv = inorder_halves [OF vp wX full, of new]
  have "inter (map inorder (pre @ ?L # ?R # post)) (take ?j es @ es' ! (ORDER c) # drop ?j es)
     = inter (map inorder pre) (take ?j es)
        @ inter (inorder ?L # inorder ?R # map inorder post) (es' ! (ORDER c) # drop ?j es)"
    using inter_append [of "map inorder pre" "take ?j es" "map inorder (?L # ?R # post)"
        "es' ! (ORDER c) # drop ?j es"] ple by simp
  also have "\<dots> = inter (map inorder pre) (take ?j es) @ inorder ?L @ es' ! (ORDER c)
        # inorder ?R @ inter ([] # map inorder post) (drop ?j es)"
    using inter_Cons [of "inorder ?R" "map inorder post" "drop ?j es"] by simp
  finally show ?thesis
    unfolding inorder_ctx [OF ple] hv by simp
qed

lemma ipos_le': "ipos es k \<le> length es"
  by (simp add: ipos_def)

lemma drop_ipos: "drop (ipos es k) es = rev (takeWhile (\<lambda>e. k < fst e) (rev es))"
proof -
  let ?n = "length (takeWhile (\<lambda>e. k < fst e) (rev es))"
  have "takeWhile (\<lambda>e. k < fst e) (rev es) = take ?n (rev es)"
    by (rule takeWhile_eq_take)
  also have "\<dots> = rev (drop (length es - ?n) es)" by (simp add: take_rev)
  finally have "rev (takeWhile (\<lambda>e. k < fst e) (rev es)) = rev (rev (drop (length es - ?n) es))"
    by simp
  then show ?thesis by (simp add: ipos_def)
qed

lemma drop_ipos_gt: "e \<in> set (drop (ipos es k) es) \<Longrightarrow> k < fst e"
  unfolding drop_ipos by (auto dest: set_takeWhileD)

lemma takeWhile_P_nth: "j < length (takeWhile P xs) \<Longrightarrow> P (xs ! j)"
  by (metis nth_mem set_takeWhileD takeWhile_nth)

lemma ipos_gt:
  assumes "i < length es" "\<not> k < fst (es ! i)"
  shows "i < ipos es k"
proof -
  let ?j = "length es - 1 - i"
  have "?j < length (rev es)" using assms(1) by simp
  moreover have "\<not> k < fst (rev es ! ?j)" using assms by (simp add: rev_nth)
  ultimately have "\<not> ?j < length (takeWhile (\<lambda>e. k < fst e) (rev es))"
    using takeWhile_P_nth [of ?j "\<lambda>e. k < fst e" "rev es"] by blast
  then have "length (takeWhile (\<lambda>e. k < fst e) (rev es)) \<le> ?j" by simp
  with assms(1) show ?thesis by (simp add: ipos_def)
qed

lemma take_ipos_le:
  assumes "sorted (map fst es)" "e \<in> set (take (ipos es k) es)"
  shows "fst e \<le> k"
proof -
  let ?q = "ipos es k"
  from assms(2) obtain i where i: "i < ?q" "i < length es" "e = es ! i"
    by (auto simp: in_set_conv_nth)
  then have q: "0 < ?q" "?q - 1 < length es" using ipos_le' [of es k] by simp_all
  have "\<not> k < fst (es ! (?q - 1))"
  proof
    assume "k < fst (es ! (?q - 1))"
    let ?n = "length (takeWhile (\<lambda>e. k < fst e) (rev es))"
    have n: "?n < length (rev es)" using q ipos_le' [of es k] by (simp add: ipos_def)
    from nth_length_takeWhile [OF n] have "\<not> k < fst (rev es ! ?n)" .
    moreover have "rev es ! ?n = es ! (?q - 1)"
      using n by (simp add: rev_nth ipos_def)
    ultimately show False using \<open>k < fst (es ! (?q - 1))\<close> by simp
  qed
  moreover have "map fst es ! i \<le> map fst es ! (?q - 1)"
    using assms(1) by (rule sorted_nth_mono) (use i q in simp_all)
  then have "fst (es ! i) \<le> fst (es ! (?q - 1))" using i q by simp
  ultimately show ?thesis using i by simp
qed

lemma set_leaf_ins: "set (leaf_ins es k v) = insert (k, v) (set es)"
proof -
  have "set (take (ipos es k) es) \<union> set (drop (ipos es k) es) = set es"
    by (metis append_take_drop_id set_append)
  then show ?thesis by (auto simp: leaf_ins_def)
qed

lemma sorted_leaf_ins: "sorted (map fst es) \<Longrightarrow> sorted (map fst (leaf_ins es k v))"
proof -
  assume s: "sorted (map fst es)"
  let ?q = "ipos es k"
  from s have "sorted (map fst (take ?q es @ drop ?q es))" by simp
  then have "sorted (map fst (take ?q es))" "sorted (map fst (drop ?q es))"
    by (simp_all only: map_append sorted_append)
  moreover have "fst x \<le> k" if "x \<in> set (take ?q es)" for x
    using s that by (rule take_ipos_le)
  moreover have "k < fst y" if "y \<in> set (drop ?q es)" for y
    using that by (rule drop_ipos_gt)
  ultimately show ?thesis
    by (fastforce simp: leaf_ins_def sorted_append)
qed

section \<open>search finds every key of an ordered tree\<close>

lemma sorted_le_last: "sorted xs \<Longrightarrow> x \<in> set xs \<Longrightarrow> x \<le> last xs"
  by (induction xs) (auto simp: last_ConsR)

text \<open>Around the child the scan selects, everything before is smaller than k and
  everything after is at least k.\<close>

lemma ctx_bounds:
  assumes s: "sorted (map fst (inorder (Br a lf es (pre @ X # post))))"
    and lp: "length pre = lb es k" and len: "length pre + length post = length es"
  shows "\<forall>e \<in> set (inter (map inorder pre) (take (length pre) es)). fst e < k"
    and "\<forall>e \<in> set (inter ([] # map inorder post) (drop (length pre) es)). k \<le> fst e"
    and "\<not> (lb es k < length es \<and> fst (es ! lb es k) = k) \<Longrightarrow>
         \<forall>e \<in> set (inter ([] # map inorder post) (drop (length pre) es)). k < fst e"
proof -
  let ?A = "inter (map inorder pre) (take (length pre) es)"
  let ?B = "inter ([] # map inorder post) (drop (length pre) es)"
  have ple: "length pre \<le> length es" using len by simp
  from s have sAB: "sorted (map fst (?A @ inorder X @ ?B))"
    unfolding inorder_ctx [OF ple] .
  then have sA: "sorted (map fst ?A)" and sB: "sorted (map fst ?B)"
    by (simp_all add: sorted_append)
  show "\<forall>e \<in> set ?A. fst e < k"
  proof (cases "length pre = 0")
    case True
    then show ?thesis by simp
  next
    case False
    then have ne: "take (length pre) es \<noteq> []" using ple by auto
    have "length (map inorder pre) = length (take (length pre) es)" using ple by simp
    from inter_last [OF this ne] have l: "?A \<noteq> []" "last ?A = last (take (length pre) es)"
      by simp_all
    have "last (take (length pre) es) = es ! (length pre - 1)"
      using False ple ne by (simp add: last_conv_nth min_def)
    moreover have "fst (es ! (length pre - 1)) < k"
      using False lp by (intro lb_less) simp
    ultimately have lk: "fst (last ?A) < k" using l by simp
    show ?thesis
    proof
      fix e assume "e \<in> set ?A"
      then have "fst e \<in> set (map fst ?A)" by simp
      with sA have "fst e \<le> last (map fst ?A)" by (rule sorted_le_last)
      also have "last (map fst ?A) = fst (last ?A)" using l(1) by (simp add: last_map)
      finally show "fst e < k" using lk by simp
    qed
  qed
  have B: "?B = (if length pre < length es
      then es ! length pre # inter (map inorder post) (drop (length pre + 1) es) else [])"
  proof (cases "length pre < length es")
    case True
    then have "drop (length pre) es = es ! length pre # drop (length pre + 1) es"
      by (simp add: Cons_nth_drop_Suc)
    with True show ?thesis by simp
  next
    case False
    with len have "\<not> 0 < length post" by linarith
    then have "post = []" by simp
    moreover from False have "drop (length pre) es = []" by simp
    ultimately have "post = []" "drop (length pre) es = []" by simp_all
    with False show ?thesis by simp
  qed
  have hd: "fst (es ! length pre) \<le> fst e" if "e \<in> set ?B" for e
  proof -
    from that B have lt: "length pre < length es" by (auto split: if_splits)
    with B have "?B = es ! length pre # inter (map inorder post) (drop (length pre + 1) es)"
      by simp
    with sB that show ?thesis by (auto simp: sorted_append)
  qed
  have ne: "length pre < length es" if "e \<in> set ?B" for e
    using that B by (auto split: if_splits)
  show "\<forall>e \<in> set ?B. k \<le> fst e"
  proof
    fix e assume e: "e \<in> set ?B"
    from ne [OF e] lp have "k \<le> fst (es ! length pre)" using lb_ge [of es k] by simp
    with hd [OF e] show "k \<le> fst e" by simp
  qed
  show "\<forall>e \<in> set ?B. k < fst e" if nf: "\<not> (lb es k < length es \<and> fst (es ! lb es k) = k)"
  proof
    fix e assume e: "e \<in> set ?B"
    from ne [OF e] lp have "k \<le> fst (es ! length pre)" using lb_ge [of es k] by simp
    moreover from ne [OF e] lp nf have "fst (es ! length pre) \<noteq> k" by simp
    ultimately have "k < fst (es ! length pre)" by simp
    with hd [OF e] show "k < fst e" by simp
  qed
qed

lemma ord_child:
  assumes "ord (Br a lf es (pre @ X # post))" "length pre \<le> length es"
  shows "ord X"
  using assms unfolding ord_def inorder_ctx [OF assms(2)] by (simp add: sorted_append)

lemma set_inorder_child:
  assumes "length pre \<le> length es"
  shows "set (inorder X) \<subseteq> set (inorder (Br a lf es (pre @ X # post)))"
  unfolding inorder_ctx [OF assms] by auto

text \<open>A key of the tree that is not at the position the scan returns lies below the
  child at that position.\<close>

lemma key_in_child:
  assumes o: "ord (Br a lf es (pre @ X # post))"
    and lp: "length pre = lb es k" and len: "length pre + length post = length es"
    and k: "k \<in> keyset (Br a lf es (pre @ X # post))"
    and nf: "\<not> (lb es k < length es \<and> fst (es ! lb es k) = k)"
  shows "k \<in> keyset X"
proof -
  have ple: "length pre \<le> length es" using len by simp
  from o have s: "sorted (map fst (inorder (Br a lf es (pre @ X # post))))" by (simp add: ord_def)
  note b = ctx_bounds(1) [OF s lp len] ctx_bounds(3) [OF s lp len nf]
  from k obtain e where "e \<in> set (inorder (Br a lf es (pre @ X # post)))" "fst e = k"
    by (auto simp: keyset_def)
  then show ?thesis
    unfolding inorder_ctx [OF ple] keyset_def using b by fastforce
qed

lemma lb_found:
  assumes "sorted (map fst es)" "k \<in> fst ` set es"
  shows "lb es k < length es \<and> fst (es ! lb es k) = k"
proof -
  from assms(2) obtain i where i: "i < length es" "fst (es ! i) = k"
    by (auto simp: in_set_conv_nth)
  have "\<not> i < lb es k" using lb_less [of i es k] i by auto
  then have le: "lb es k \<le> i" by simp
  with i have lt: "lb es k < length es" by simp
  have "map fst es ! lb es k \<le> map fst es ! i"
    using assms(1) le by (rule sorted_nth_mono) (use i in simp)
  with i lt le lb_ge [OF lt] show ?thesis by simp
qed

lemma wf_Suc_decomp:
  assumes "wf c (Suc h) (Br a lf es cs)"
  obtains pre X post where "cs = pre @ X # post" "length pre = lb es k"
    "length pre + length post = length es" "wf c h X" "X = cs ! lb es k"
proof -
  from assms have lcs: "length cs = length es + 1" by simp
  then have pl: "lb es k < length cs" using lb_le [of es k] by simp
  let ?pre = "take (lb es k) cs" and ?post = "drop (Suc (lb es k)) cs"
  have "cs = ?pre @ cs ! lb es k # ?post" using pl by (rule id_take_nth_drop)
  moreover have "length ?pre = lb es k" using pl by simp
  moreover have "length ?pre + length ?post = length es" using pl lcs by simp
  moreover have "wf c h (cs ! lb es k)" using assms pl by simp
  ultimately show ?thesis using that by blast
qed

lemma a_search_found:
  "wf c h x \<Longrightarrow> ord x \<Longrightarrow> k \<in> keyset x \<Longrightarrow>
   \<exists>v. a_search h x k = Some v \<and> (k, v) \<in> set (inorder x)"
proof (induction h arbitrary: x)
  case 0
  obtain a lf es cs where x: "x = Br a lf es cs" by (cases x)
  with 0 have "sorted (map fst es)" "k \<in> fst ` set es" by (simp_all add: ord_def keyset_def)
  from lb_found [OF this] have f: "lb es k < length es" "fst (es ! lb es k) = k" by simp_all
  then have "es ! lb es k \<in> set es" by simp
  moreover have "es ! lb es k = (k, snd (es ! lb es k))" using f(2) by (simp add: prod_eq_iff)
  ultimately have "(k, snd (es ! lb es k)) \<in> set es" by simp
  with 0 x f show ?case by simp
next
  case (Suc h)
  obtain a lf es cs where x: "x = Br a lf es cs" by (cases x)
  from Suc.prems(1) have w: "wf c (Suc h) (Br a lf es cs)" unfolding x .
  from w obtain pre X post where d: "cs = pre @ X # post" "length pre = lb es k"
    "length pre + length post = length es" "wf c h X" "X = cs ! lb es k"
    by (rule wf_Suc_decomp [where k = k])
  have ple: "length pre \<le> length es" using d(3) by simp
  show ?case
  proof (cases "lb es k < length es \<and> fst (es ! lb es k) = k")
    case True
    then have "es ! lb es k \<in> set es" by simp
    moreover have "es ! lb es k = (k, snd (es ! lb es k))" using True by (simp add: prod_eq_iff)
    ultimately have "(k, snd (es ! lb es k)) \<in> set es" by simp
    then have "(k, snd (es ! lb es k)) \<in> set (inorder x)"
      using set_inter_es [of es "map inorder cs"] x by auto
    with True x show ?thesis by simp
  next
    case False
    have o: "ord (Br a lf es (pre @ X # post))" using Suc.prems(2) x d(1) by simp
    have kx: "k \<in> keyset (Br a lf es (pre @ X # post))" using Suc.prems(3) x d(1) by simp
    have "k \<in> keyset X" using key_in_child [OF o d(2,3) kx False] .
    from Suc.IH [OF d(4) ord_child [OF o ple] this] obtain v where
      v: "a_search h X k = Some v" "(k, v) \<in> set (inorder X)" by blast
    have "(k, v) \<in> set (inorder x)"
      using v(2) set_inorder_child [OF ple, of X a lf post] x d(1) by auto
    moreover have "a_search (Suc h) x k = Some v"
      using False v(1) x d(5) by auto
    ultimately show ?thesis by blast
  qed
qed

section \<open>Insertion keeps the shape and the blocks apart\<close>

lemma length_leaf_ins [simp]: "length (leaf_ins es k v) = Suc (length es)"
  using ipos_le' [of es k] by (simp add: leaf_ins_def)

lemma wf_a_ins:
  assumes vp: "valid_params c"
  shows "wf c h x \<Longrightarrow> length (ents x) < MAX_KEYS c \<Longrightarrow> wf c h (fst (a_ins c h nx x k v))"
proof (rule a_ins_rule [where R = "\<lambda>h nx x r. wf c h (fst r)", OF vp])
  fix nx a and es :: "('a \<times> 'b) list"
  assume "length es < MAX_KEYS c"
  then show "wf c 0 (fst (Br a True (leaf_ins es k v) [], nx))" by simp
next
  fix h nx a es and cs :: "('a, 'b) bt list" and r :: "('a, 'b) bt \<times> nat"
  assume w: "wf c (Suc h) (Br a False es cs)" and r: "wf c h (fst r)"
  have "y \<in> set (cs[lb es k := fst r]) \<Longrightarrow> wf c h y" for y
    using w r set_update_subset_insert [of cs "lb es k" "fst r"] by auto
  with w show "wf c (Suc h) (fst (Br a False es (cs[lb es k := fst r]), snd r))" by simp
qed

lemma addrs_a_ins:
  assumes vp: "valid_params c"
  shows "wf c h x \<Longrightarrow> length (ents x) < MAX_KEYS c \<Longrightarrow>
    distinct (addrs x) \<longrightarrow> (\<forall>b \<in> set (addrs x). b < nx) \<longrightarrow>
      distinct (addrs (fst (a_ins c h nx x k v)))
      \<and> (\<forall>b \<in> set (addrs (fst (a_ins c h nx x k v))). b < snd (a_ins c h nx x k v))
      \<and> nx \<le> snd (a_ins c h nx x k v)
      \<and> set (addrs (fst (a_ins c h nx x k v))) \<subseteq> set (addrs x) \<union> {b. nx \<le> b}"
proof (rule a_ins_rule [where R = "\<lambda>h nx x r. distinct (addrs x) \<longrightarrow> (\<forall>b \<in> set (addrs x). b < nx) \<longrightarrow>
      distinct (addrs (fst r)) \<and> (\<forall>b \<in> set (addrs (fst r)). b < snd r) \<and> nx \<le> snd r
      \<and> set (addrs (fst r)) \<subseteq> set (addrs x) \<union> {b. nx \<le> b}", OF vp])
  fix nx a and es :: "('a \<times> 'b) list"
  show "distinct (addrs (Br a True es [])) \<longrightarrow> (\<forall>b\<in>set (addrs (Br a True es [])). b < nx) \<longrightarrow>
       distinct (addrs (fst (Br a True (leaf_ins es k v) [], nx))) \<and>
       (\<forall>b\<in>set (addrs (fst (Br a True (leaf_ins es k v) [], nx))). b < snd (Br a True (leaf_ins es k v) [], nx)) \<and>
       nx \<le> snd (Br a True (leaf_ins es k v) [], nx) \<and>
       set (addrs (fst (Br a True (leaf_ins es k v) [], nx))) \<subseteq> set (addrs (Br a True es [])) \<union> {b. nx \<le> b}"
    by simp
next
  fix h nx a es and cs :: "('a, 'b) bt list" and r :: "('a, 'b) bt \<times> nat"
  assume w: "wf c (Suc h) (Br a False es cs)"
    and ih: "distinct (addrs (cs ! lb es k)) \<longrightarrow> (\<forall>b\<in>set (addrs (cs ! lb es k)). b < nx) \<longrightarrow>
       distinct (addrs (fst r)) \<and> (\<forall>b\<in>set (addrs (fst r)). b < snd r) \<and> nx \<le> snd r \<and>
       set (addrs (fst r)) \<subseteq> set (addrs (cs ! lb es k)) \<union> {b. nx \<le> b}"
  from w obtain pre X post where d: "cs = pre @ X # post" "length pre = lb es k"
    "length pre + length post = length es" "wf c h X" "X = cs ! lb es k"
    by (rule wf_Suc_decomp [where k = k])
  have upd: "cs[lb es k := fst r] = pre @ fst r # post"
    unfolding d(1) d(2) [symmetric] by simp
  show "distinct (addrs (Br a False es cs)) \<longrightarrow> (\<forall>b\<in>set (addrs (Br a False es cs)). b < nx) \<longrightarrow>
       distinct (addrs (fst (Br a False es (cs[lb es k := fst r]), snd r))) \<and>
       (\<forall>b\<in>set (addrs (fst (Br a False es (cs[lb es k := fst r]), snd r))).
           b < snd (Br a False es (cs[lb es k := fst r]), snd r)) \<and>
       nx \<le> snd (Br a False es (cs[lb es k := fst r]), snd r) \<and>
       set (addrs (fst (Br a False es (cs[lb es k := fst r]), snd r)))
         \<subseteq> set (addrs (Br a False es cs)) \<union> {b. nx \<le> b}"
  proof (intro impI)
    assume dx: "distinct (addrs (Br a False es cs))" and bx: "\<forall>b\<in>set (addrs (Br a False es cs)). b < nx"
    from dx bx have "distinct (addrs X)" "\<forall>b\<in>set (addrs X). b < nx" unfolding d(1) by auto
    with ih d(5) have y: "distinct (addrs (fst r))" "\<forall>b\<in>set (addrs (fst r)). b < snd r" "nx \<le> snd r"
      "set (addrs (fst r)) \<subseteq> set (addrs X) \<union> {b. nx \<le> b}" by auto
    define P where "P = (\<Union>x\<in>set pre. set (addrs x))"
    define Q where "Q = (\<Union>x\<in>set post. set (addrs x))"
    from dx have c: "a \<notin> P" "a \<notin> set (addrs X)" "a \<notin> Q"
      "distinct (concat (map addrs pre))" "distinct (concat (map addrs post))"
      "P \<inter> set (addrs X) = {}" "P \<inter> Q = {}" "set (addrs X) \<inter> Q = {}"
      unfolding d(1) P_def Q_def by (simp_all add: Int_Un_distrib Int_Un_distrib2)
    from bx have lt: "a < nx" "\<forall>b \<in> P. b < nx" "\<forall>b \<in> Q. b < nx"
      unfolding d(1) P_def Q_def by simp_all
    have dY: "a \<notin> set (addrs (fst r))" "P \<inter> set (addrs (fst r)) = {}"
      "set (addrs (fst r)) \<inter> Q = {}"
      using y(4) c(1,2,3,6,8) lt by fastforce+
    have "distinct (addrs (Br a False es (pre @ fst r # post)))"
      using c(1,3,4,5,7) dY y(1) unfolding P_def Q_def
      by (simp add: Int_Un_distrib Int_Un_distrib2)
    moreover have "\<forall>b\<in>set (addrs (fst r)) \<union> insert a (P \<union> Q). b < snd r"
      using lt y(2,3) by fastforce
    then have "\<forall>b\<in>set (addrs (Br a False es (pre @ fst r # post))). b < snd r"
      unfolding P_def Q_def by auto
    moreover have "set (addrs (Br a False es (pre @ fst r # post)))
         \<subseteq> set (addrs (Br a False es cs)) \<union> {b. nx \<le> b}"
      using y(4) unfolding d(1) by auto
    ultimately show "distinct (addrs (fst (Br a False es (cs[lb es k := fst r]), snd r))) \<and>
       (\<forall>b\<in>set (addrs (fst (Br a False es (cs[lb es k := fst r]), snd r))).
           b < snd (Br a False es (cs[lb es k := fst r]), snd r)) \<and>
       nx \<le> snd (Br a False es (cs[lb es k := fst r]), snd r) \<and>
       set (addrs (fst (Br a False es (cs[lb es k := fst r]), snd r)))
         \<subseteq> set (addrs (Br a False es cs)) \<union> {b. nx \<le> b}"
      using y(3) unfolding upd by simp
  qed
next
  fix h nx a es pre f lf' es' and cs' :: "('a, 'b) bt list" and post and r :: "('a, 'b) bt \<times> nat"
  let ?x = "Br a False es (pre @ Br f lf' es' cs' # post)"
  let ?p1 = "Br a False (take (length pre) es @ es' ! ORDER c # drop (length pre) es)
         (pre @ Br f lf' (take (ORDER c) es') (take (ORDER c + 1) cs')
            # Br nx lf' (drop (ORDER c + 1) es') (drop (ORDER c + 1) cs') # post)"
  assume ih: "distinct (addrs ?p1) \<longrightarrow> (\<forall>b\<in>set (addrs ?p1). b < nx + sizeof_Node c) \<longrightarrow>
       distinct (addrs (fst r)) \<and> (\<forall>b\<in>set (addrs (fst r)). b < snd r) \<and> nx + sizeof_Node c \<le> snd r \<and>
       set (addrs (fst r)) \<subseteq> set (addrs ?p1) \<union> {b. nx + sizeof_Node c \<le> b}"
  show "distinct (addrs ?x) \<longrightarrow> (\<forall>b\<in>set (addrs ?x). b < nx) \<longrightarrow>
       distinct (addrs (fst r)) \<and> (\<forall>b\<in>set (addrs (fst r)). b < snd r) \<and> nx \<le> snd r \<and>
       set (addrs (fst r)) \<subseteq> set (addrs ?x) \<union> {b. nx \<le> b}"
  proof (intro impI)
    assume dx: "distinct (addrs ?x)" and bx: "\<forall>b\<in>set (addrs ?x). b < nx"
    from bx have fresh: "nx \<notin> set (addrs ?x)" by blast
    note ds = distinct_split [OF dx fresh, of "take (length pre) es @ es' ! ORDER c # drop (length pre) es"
        "take (ORDER c) es'" "ORDER c + 1" "drop (ORDER c + 1) es'"]
    have b1: "\<forall>b\<in>set (addrs ?p1). b < nx + sizeof_Node c"
      unfolding ds(2) using bx params_facts(6) [OF vp] by fastforce
    from ih ds(1) b1 have y: "distinct (addrs (fst r))" "\<forall>b\<in>set (addrs (fst r)). b < snd r"
      "nx + sizeof_Node c \<le> snd r"
      "set (addrs (fst r)) \<subseteq> set (addrs ?p1) \<union> {b. nx + sizeof_Node c \<le> b}" by blast+
    from y(4) have "set (addrs (fst r)) \<subseteq> set (addrs ?x) \<union> {b. nx \<le> b}"
      unfolding ds(2) by auto
    with y show "distinct (addrs (fst r)) \<and> (\<forall>b\<in>set (addrs (fst r)). b < snd r) \<and> nx \<le> snd r \<and>
       set (addrs (fst r)) \<subseteq> set (addrs ?x) \<union> {b. nx \<le> b}" by simp
  qed
qed

section \<open>Insertion keeps the order\<close>

lemma sorted_map3:
  "sorted (map f (A @ C @ B)) \<longleftrightarrow>
     sorted (map f A) \<and> sorted (map f C) \<and> sorted (map f B)
     \<and> (\<forall>x \<in> set A. \<forall>y \<in> set C \<union> set B. f x \<le> f y)
     \<and> (\<forall>x \<in> set C. \<forall>y \<in> set B. f x \<le> f y)"
  by (simp add: sorted_append) blast

lemma inorder_a_ins:
  assumes vp: "valid_params c"
  shows "wf c h x \<Longrightarrow> length (ents x) < MAX_KEYS c \<Longrightarrow>
    set (inorder (fst (a_ins c h nx x k v))) = insert (k, v) (set (inorder x))
    \<and> (ord x \<longrightarrow> ord (fst (a_ins c h nx x k v)))"
proof (rule a_ins_rule [where R = "\<lambda>h nx x r.
    set (inorder (fst r)) = insert (k, v) (set (inorder x)) \<and> (ord x \<longrightarrow> ord (fst r))", OF vp])
  fix nx a and es :: "('a \<times> 'b) list"
  show "set (inorder (fst (Br a True (leaf_ins es k v) [], nx))) = insert (k, v) (set (inorder (Br a True es [])))
      \<and> (ord (Br a True es []) \<longrightarrow> ord (fst (Br a True (leaf_ins es k v) [], nx)))"
    by (simp add: set_leaf_ins ord_def sorted_leaf_ins)
next
  fix h nx a es and cs :: "('a, 'b) bt list" and r :: "('a, 'b) bt \<times> nat"
  assume w: "wf c (Suc h) (Br a False es cs)"
    and ih: "set (inorder (fst r)) = insert (k, v) (set (inorder (cs ! lb es k)))
       \<and> (ord (cs ! lb es k) \<longrightarrow> ord (fst r))"
  from w obtain pre X post where d: "cs = pre @ X # post" "length pre = lb es k"
    "length pre + length post = length es" "wf c h X" "X = cs ! lb es k"
    by (rule wf_Suc_decomp [where k = k])
  have ple: "length pre \<le> length es" using d(3) by simp
  have upd: "cs[lb es k := fst r] = pre @ fst r # post"
    unfolding d(1) d(2) [symmetric] by simp
  let ?A = "inter (map inorder pre) (take (length pre) es)"
  let ?B = "inter ([] # map inorder post) (drop (length pre) es)"
  have iy: "set (inorder (fst r)) = insert (k, v) (set (inorder X))" using ih d(5) by simp
  have s1: "set (inorder (Br a False es (pre @ fst r # post)))
      = insert (k, v) (set (inorder (Br a False es (pre @ X # post))))"
    unfolding inorder_ctx [OF ple] using iy by auto
  have o1: "ord (Br a False es (pre @ fst r # post))" if o: "ord (Br a False es (pre @ X # post))"
  proof -
    from o have s: "sorted (map fst (inorder (Br a False es (pre @ X # post))))"
      by (simp add: ord_def)
    note b = ctx_bounds(1,2) [OF s d(2,3)]
    have "ord X" using o ple by (rule ord_child)
    with ih d(5) have sy: "sorted (map fst (inorder (fst r)))" by (simp add: ord_def)
    from s have sAB: "sorted (map fst ?A)" "sorted (map fst ?B)"
      "\<forall>x \<in> set ?A. \<forall>y \<in> set (inorder X) \<union> set ?B. fst x \<le> fst y"
      "\<forall>x \<in> set (inorder X). \<forall>y \<in> set ?B. fst x \<le> fst y"
      unfolding inorder_ctx [OF ple] sorted_map3 by blast+
    have 1: "\<forall>x \<in> set ?A. \<forall>y \<in> set (inorder (fst r)) \<union> set ?B. fst x \<le> fst y"
      using sAB(3) b(1) unfolding iy by fastforce
    have 2: "\<forall>x \<in> set (inorder (fst r)). \<forall>y \<in> set ?B. fst x \<le> fst y"
      using sAB(4) b(2) unfolding iy by fastforce
    show ?thesis
      unfolding ord_def inorder_ctx [OF ple] sorted_map3 using sAB(1,2) sy 1 2
      by blast
  qed
  show "set (inorder (fst (Br a False es (cs[lb es k := fst r]), snd r)))
        = insert (k, v) (set (inorder (Br a False es cs)))
      \<and> (ord (Br a False es cs) \<longrightarrow> ord (fst (Br a False es (cs[lb es k := fst r]), snd r)))"
    unfolding fst_conv upd using s1 o1 d(1) by simp
next
  fix h nx a es pre f lf' es' and cs' :: "('a, 'b) bt list" and post and r :: "('a, 'b) bt \<times> nat"
  let ?x = "Br a False es (pre @ Br f lf' es' cs' # post)"
  let ?p1 = "Br a False (take (length pre) es @ es' ! ORDER c # drop (length pre) es)
         (pre @ Br f lf' (take (ORDER c) es') (take (ORDER c + 1) cs')
            # Br nx lf' (drop (ORDER c + 1) es') (drop (ORDER c + 1) cs') # post)"
  assume w: "wf c (Suc h) ?x" and lp: "length pre = lb es k" and full: "length es' = MAX_KEYS c"
    and ih: "set (inorder (fst r)) = insert (k, v) (set (inorder ?p1)) \<and> (ord ?p1 \<longrightarrow> ord (fst r))"
  have ple: "length pre \<le> length es" using lp lb_le [of es k] by simp
  have "inorder ?p1 = inorder ?x" using vp w full ple by (rule inorder_split)
  with ih show "set (inorder (fst r)) = insert (k, v) (set (inorder ?x)) \<and> (ord ?x \<longrightarrow> ord (fst r))"
    by (simp add: ord_def)
qed

lemma lb_leaf_ins:
  assumes s: "sorted (map fst es)" and k: "k \<in> fst ` set es"
  shows "lb (leaf_ins es k v) k = lb es k" "leaf_ins es k v ! lb es k = es ! lb es k"
proof -
  let ?p = "lb es k" and ?q = "ipos es k"
  from lb_found [OF s k] have f: "?p < length es" "fst (es ! ?p) = k" by simp_all
  have pq: "?p < ?q" using f by (intro ipos_gt) simp_all
  have q: "?q \<le> length es" by (rule ipos_le')
  have same: "leaf_ins es k v ! i = es ! i" if "i < ?q" for i
    using that q by (simp add: leaf_ins_def nth_append)
  show "leaf_ins es k v ! ?p = es ! ?p" using pq by (rule same)
  show "lb (leaf_ins es k v) k = ?p"
  proof (rule lb_eqI)
    show "?p \<le> length (leaf_ins es k v)" using f by simp
    fix i assume "i < ?p"
    with pq same [of i] lb_less [of i es k] show "fst (leaf_ins es k v ! i) < k" by simp
  next
    show "k \<le> fst (leaf_ins es k v ! ?p)" using same [OF pq] f by simp
  qed
qed

text \<open>After inserting a key that is already in the tree, search still returns one of the
  values the key had before.\<close>

lemma a_search_old:
  assumes vp: "valid_params c"
  shows "wf c h x \<Longrightarrow> length (ents x) < MAX_KEYS c \<Longrightarrow>
    ord x \<longrightarrow> k \<in> keyset x \<longrightarrow>
      (\<exists>v'. a_search h (fst (a_ins c h nx x k v)) k = Some v' \<and> (k, v') \<in> set (inorder x))"
proof (rule a_ins_rule [where R = "\<lambda>h nx x r. ord x \<longrightarrow> k \<in> keyset x \<longrightarrow>
      (\<exists>v'. a_search h (fst r) k = Some v' \<and> (k, v') \<in> set (inorder x))", OF vp])
  fix nx a and es :: "('a \<times> 'b) list"
  show "ord (Br a True es []) \<longrightarrow> k \<in> keyset (Br a True es []) \<longrightarrow>
       (\<exists>v'. a_search 0 (fst (Br a True (leaf_ins es k v) [], nx)) k = Some v'
          \<and> (k, v') \<in> set (inorder (Br a True es [])))"
  proof (intro impI)
    assume "ord (Br a True es [])" "k \<in> keyset (Br a True es [])"
    then have s: "sorted (map fst es)" and k: "k \<in> fst ` set es"
      by (simp_all add: ord_def keyset_def)
    from lb_found [OF s k] have f: "lb es k < length es" "fst (es ! lb es k) = k" by simp_all
    note l = lb_leaf_ins [OF s k, of v]
    have "es ! lb es k \<in> set es" using f by simp
    moreover have "es ! lb es k = (k, snd (es ! lb es k))" using f(2) by (simp add: prod_eq_iff)
    ultimately have "(k, snd (es ! lb es k)) \<in> set es" by simp
    then show "\<exists>v'. a_search 0 (fst (Br a True (leaf_ins es k v) [], nx)) k = Some v'
          \<and> (k, v') \<in> set (inorder (Br a True es []))"
      using f l by simp
  qed
next
  fix h nx a es and cs :: "('a, 'b) bt list" and r :: "('a, 'b) bt \<times> nat"
  assume w: "wf c (Suc h) (Br a False es cs)"
    and ih: "ord (cs ! lb es k) \<longrightarrow> k \<in> keyset (cs ! lb es k) \<longrightarrow>
       (\<exists>v'. a_search h (fst r) k = Some v' \<and> (k, v') \<in> set (inorder (cs ! lb es k)))"
  from w obtain pre X post where d: "cs = pre @ X # post" "length pre = lb es k"
    "length pre + length post = length es" "wf c h X" "X = cs ! lb es k"
    by (rule wf_Suc_decomp [where k = k])
  have ple: "length pre \<le> length es" using d(3) by simp
  have pl: "lb es k < length cs" using d(1,2) by simp
  show "ord (Br a False es cs) \<longrightarrow> k \<in> keyset (Br a False es cs) \<longrightarrow>
       (\<exists>v'. a_search (Suc h) (fst (Br a False es (cs[lb es k := fst r]), snd r)) k = Some v'
          \<and> (k, v') \<in> set (inorder (Br a False es cs)))"
  proof (intro impI)
    assume o: "ord (Br a False es cs)" and k: "k \<in> keyset (Br a False es cs)"
    show "\<exists>v'. a_search (Suc h) (fst (Br a False es (cs[lb es k := fst r]), snd r)) k = Some v'
          \<and> (k, v') \<in> set (inorder (Br a False es cs))"
    proof (cases "lb es k < length es \<and> fst (es ! lb es k) = k")
      case True
      then have "es ! lb es k \<in> set es" by simp
      moreover have "es ! lb es k = (k, snd (es ! lb es k))" using True by (simp add: prod_eq_iff)
      ultimately have "(k, snd (es ! lb es k)) \<in> set es" by simp
      then have "(k, snd (es ! lb es k)) \<in> set (inorder (Br a False es cs))"
        using set_inter_es [of es "map inorder cs"] by auto
      with True show ?thesis by simp
    next
      case False
      have o': "ord (Br a False es (pre @ X # post))" using o d(1) by simp
      have k': "k \<in> keyset (Br a False es (pre @ X # post))" using k d(1) by simp
      have "k \<in> keyset X" using key_in_child [OF o' d(2,3) k' False] .
      moreover have "ord X" using o' ple by (rule ord_child)
      ultimately obtain v' where v': "a_search h (fst r) k = Some v'" "(k, v') \<in> set (inorder X)"
        using ih d(5) by blast
      have "(k, v') \<in> set (inorder (Br a False es cs))"
        using v'(2) set_inorder_child [OF ple, of X a False post] d(1) by auto
      moreover have "a_search (Suc h) (Br a False es (cs[lb es k := fst r])) k = Some v'"
        using False v'(1) pl by auto
      ultimately show ?thesis by simp
    qed
  qed
next
  fix h nx a es pre f lf' es' and cs' :: "('a, 'b) bt list" and post and r :: "('a, 'b) bt \<times> nat"
  let ?x = "Br a False es (pre @ Br f lf' es' cs' # post)"
  let ?p1 = "Br a False (take (length pre) es @ es' ! ORDER c # drop (length pre) es)
         (pre @ Br f lf' (take (ORDER c) es') (take (ORDER c + 1) cs')
            # Br nx lf' (drop (ORDER c + 1) es') (drop (ORDER c + 1) cs') # post)"
  assume w: "wf c (Suc h) ?x" and lp: "length pre = lb es k" and full: "length es' = MAX_KEYS c"
    and ih: "ord ?p1 \<longrightarrow> k \<in> keyset ?p1 \<longrightarrow>
       (\<exists>v'. a_search (Suc h) (fst r) k = Some v' \<and> (k, v') \<in> set (inorder ?p1))"
  have ple: "length pre \<le> length es" using lp lb_le [of es k] by simp
  have "inorder ?p1 = inorder ?x" using vp w full ple by (rule inorder_split)
  with ih show "ord ?x \<longrightarrow> k \<in> keyset ?x \<longrightarrow>
       (\<exists>v'. a_search (Suc h) (fst r) k = Some v' \<and> (k, v') \<in> set (inorder ?x))"
    by (simp add: ord_def keyset_def)
qed

section \<open>What a split does to the three nodes\<close>

text \<open>
  C5. When \<^verbatim>\<open>splitChild\<close> is invoked on a full child (holding \<^verbatim>\<open>MAX_KEYS\<close> entries) of a
  parent that is not full, the three nodes being distinct blocks and the block of the
  new node lying inside the arena, the call returns and, with \<open>mid = MAX_KEYS / 2\<close>:
  the new sibling has \<open>MAX_KEYS - mid - 1\<close> entries, the keys and values of the child at
  the indices from \<open>mid + 1\<close> on, and, when the child is internal, its child references at
  the indices \<open>mid + 1\<close> to \<^verbatim>\<open>MAX_KEYS\<close>; the old child's key count becomes \<open>mid\<close>; the
  entry at index \<open>mid\<close> is written to the parent at \<open>idx\<close>, the sibling is linked at
  \<open>idx + 1\<close>, and the parent's key count grows by exactly one.
\<close>

theorem splitChild_halves:
  assumes "valid_params c"
    and "fullNode = child (mem t parent) idx" and "newNode = arena t + arenaOffset t"
    and "mid = MAX_KEYS c div 2" and "arenaOffset t + sizeof_Node c \<le> ARENA_SIZE"
    and "keyCount (mem t fullNode) = MAX_KEYS c"
    and "keyCount (mem t parent) < MAX_KEYS c"
    and "parent \<noteq> fullNode" and "newNode \<noteq> parent" and "newNode \<noteq> fullNode"
  shows "\<exists>t'. splitChild c t parent idx = Inr t'
    \<and> keyCount (mem t' newNode) = MAX_KEYS c - mid - 1
    \<and> leaf (mem t' newNode) = leaf (mem t fullNode)
    \<and> (\<forall>i < MAX_KEYS c - mid - 1.
          keys (mem t' newNode) i = keys (mem t fullNode) (mid + 1 + i)
          \<and> vals (mem t' newNode) i = vals (mem t fullNode) (mid + 1 + i))
    \<and> (\<not> leaf (mem t fullNode) \<longrightarrow>
          (\<forall>i \<le> MAX_KEYS c - mid - 1. child (mem t' newNode) i = child (mem t fullNode) (mid + 1 + i)))
    \<and> keyCount (mem t' fullNode) = mid
    \<and> keys (mem t' parent) idx = keys (mem t fullNode) mid
    \<and> vals (mem t' parent) idx = vals (mem t fullNode) mid
    \<and> child (mem t' parent) (idx + 1) = newNode
    \<and> keyCount (mem t' parent) = keyCount (mem t parent) + 1"
proof -
  note pf = params_facts [OF assms(1)]
  from splitChild_Inr [OF assms(5)] obtain t' where t': "splitChild c t parent idx = Inr t'"
    by blast
  note st = splitChild_state [OF assms(1,2,3,8,9,10,7,5) t']
  have m: "mid = ORDER c" "MAX_KEYS c - Suc (ORDER c) = ORDER c - Suc 0"
    using assms(4) pf by (simp_all add: MAX_KEYS_def)
  have o: "ORDER c - 1 < ORDER c" using assms(1) by (simp add: valid_params_def)
  have "keyCount (mem t' newNode) = MAX_KEYS c - mid - 1
    \<and> leaf (mem t' newNode) = leaf (mem t fullNode)
    \<and> (\<forall>i < MAX_KEYS c - mid - 1.
          keys (mem t' newNode) i = keys (mem t fullNode) (mid + 1 + i)
          \<and> vals (mem t' newNode) i = vals (mem t fullNode) (mid + 1 + i))
    \<and> (\<not> leaf (mem t fullNode) \<longrightarrow>
          (\<forall>i \<le> MAX_KEYS c - mid - 1. child (mem t' newNode) i = child (mem t fullNode) (mid + 1 + i)))
    \<and> keyCount (mem t' fullNode) = mid
    \<and> keys (mem t' parent) idx = keys (mem t fullNode) mid
    \<and> vals (mem t' parent) idx = vals (mem t fullNode) mid
    \<and> child (mem t' parent) (idx + 1) = newNode
    \<and> keyCount (mem t' parent) = keyCount (mem t parent) + 1"
    using o by (auto simp add: m st memcpy_def)
  with t' show ?thesis by blast
qed

theorem splitChild_halves_witness:
  "valid_params ex_params \<and> keyCount (mem ex_split 1000) = MAX_KEYS ex_params
   \<and> keyCount (mem ex_split 1064) < MAX_KEYS ex_params
   \<and> child (mem ex_split 1064) 0 = 1000 \<and> arena ex_split + arenaOffset ex_split = 1128
   \<and> arenaOffset ex_split + sizeof_Node ex_params \<le> ARENA_SIZE
   \<and> \<not> leaf (mem ex_split 1000)
   \<and> (\<exists>t'. splitChild ex_params ex_split 1064 0 = Inr t'
     \<and> keyCount (mem t' 1128) = 1
     \<and> keys (mem t' 1128) 0 = 4
     \<and> child (mem t' 1128) 0 = 2192
     \<and> child (mem t' 1128) 1 = 2256
     \<and> keyCount (mem t' 1000) = 2
     \<and> keys (mem t' 1064) 0 = 3
     \<and> vals (mem t' 1064) 0 = 30
     \<and> child (mem t' 1064) 1 = 1128
     \<and> keyCount (mem t' 1064) = 1)"
proof -
  have h: "valid_params ex_params" "(1000::nat) = child (mem ex_split 1064) 0"
    "(1128::nat) = arena ex_split + arenaOffset ex_split" "(2::nat) = MAX_KEYS ex_params div 2"
    "arenaOffset ex_split + sizeof_Node ex_params \<le> ARENA_SIZE"
    "keyCount (mem ex_split 1000) = MAX_KEYS ex_params"
    "keyCount (mem ex_split 1064) < MAX_KEYS ex_params"
    "(1064::nat) \<noteq> 1000" "(1128::nat) \<noteq> 1064" "(1128::nat) \<noteq> 1000"
    by (simp_all add: valid_params_def ex_params_def ex_split_def MAX_KEYS_def ARENA_SIZE_def)
  have nl: "\<not> leaf (mem ex_split 1000)" by (simp add: ex_split_def)
  have mk: "MAX_KEYS ex_params - 2 - 1 = 1" by (simp add: MAX_KEYS_def ex_params_def)
  from splitChild_halves [OF h, unfolded mk] obtain T where
    T: "splitChild ex_params ex_split 1064 0 = Inr T"
    and k: "\<forall>i<1. keys (mem T 1128) i = keys (mem ex_split 1000) (2 + 1 + i)
        \<and> vals (mem T 1128) i = vals (mem ex_split 1000) (2 + 1 + i)"
    and c: "\<not> leaf (mem ex_split 1000) \<longrightarrow>
          (\<forall>i \<le> 1. child (mem T 1128) i = child (mem ex_split 1000) (2 + 1 + i))"
    and rest: "keyCount (mem T 1128) = 1" "keyCount (mem T 1000) = 2"
      "keys (mem T 1064) 0 = keys (mem ex_split 1000) 2"
      "vals (mem T 1064) 0 = vals (mem ex_split 1000) 2"
      "child (mem T 1064) (0 + 1) = 1128"
      "keyCount (mem T 1064) = keyCount (mem ex_split 1064) + 1"
    by blast
  from k have k0: "keys (mem T 1128) 0 = keys (mem ex_split 1000) 3" by simp
  from c nl have c0: "child (mem T 1128) 0 = child (mem ex_split 1000) 3"
    and c1: "child (mem T 1128) 1 = child (mem ex_split 1000) 4" by simp_all
  have v: "keys (mem ex_split 1000) 3 = 4" "child (mem ex_split 1000) 3 = 2192"
    "child (mem ex_split 1000) 4 = 2256" "keys (mem ex_split 1000) 2 = 3"
    "vals (mem ex_split 1000) 2 = 30" "keyCount (mem ex_split 1064) = 0"
    by (simp_all add: ex_split_def)
  have hy: "child (mem ex_split 1064) 0 = 1000" "arena ex_split + arenaOffset ex_split = 1128"
    using h(2,3) by simp_all
  have "keyCount (mem T 1128) = 1 \<and> keys (mem T 1128) 0 = 4 \<and> child (mem T 1128) 0 = 2192
     \<and> child (mem T 1128) 1 = 2256 \<and> keyCount (mem T 1000) = 2 \<and> keys (mem T 1064) 0 = 3
     \<and> vals (mem T 1064) 0 = 30 \<and> child (mem T 1064) 1 = 1128 \<and> keyCount (mem T 1064) = 1"
    using rest k0 c0 c1 unfolding v by simp
  with T h(1,5,6,7) hy nl show ?thesis by blast
qed

section \<open>The whole insert on the represented tree\<close>

lemma wf_ents_lt: "wf c h x \<Longrightarrow> length (ents x) \<noteq> MAX_KEYS c \<Longrightarrow> length (ents x) < MAX_KEYS c"
  using wf_ents_le [of c h x] by simp

text \<open>The new root over a full old root, before the split.\<close>

lemma a_insert_full:
  assumes vp: "valid_params c" and w: "wf c h t" and full: "length (ents t) = MAX_KEYS c"
  shows "a_insert c h nx t k v = (a_ins c (Suc h) (nx + sizeof_Node c) (Br nx False [] [t]) k v, Suc h)"
proof -
  obtain f lf' es' cs' where t: "t = Br f lf' es' cs'" by (cases t)
  have w0: "wf c (Suc h) (Br nx False [] ([] @ Br f lf' es' cs' # []))" using w t by simp
  have f: "length es' = MAX_KEYS c" using full t by simp
  have l: "length ([] :: ('a, 'b) bt list) = lb ([] :: ('a \<times> 'b) list) k" by (simp add: lb_def)
  note e = a_ins_split_eq(1) [OF vp w0 l f, of "nx + sizeof_Node c" v]
  have sp: "a_split c (nx + sizeof_Node c) (Br nx False [] [t]) 0 =
      Br nx False [es' ! ORDER c] [Br f lf' (take (ORDER c) es') (take (ORDER c + 1) cs'),
        Br (nx + sizeof_Node c) lf' (drop (ORDER c + 1) es') (drop (ORDER c + 1) cs')]"
    using a_split_ctx [of 0 "[]" c "nx + sizeof_Node c" nx False "[]" f lf' es' cs' "[]"]
      params_facts(1) [OF vp] t by simp
  have 1: "a_insert c h nx t k v = (a_ins c (Suc h) (nx + 2 * sizeof_Node c)
      (a_split c (nx + sizeof_Node c) (Br nx False [] [t]) 0) k v, Suc h)"
    unfolding a_insert_def using full by (simp del: a_ins.simps a_split.simps)
  have 2: "nx + sizeof_Node c + sizeof_Node c = nx + 2 * sizeof_Node c" by simp
  show ?thesis
    unfolding 1 sp using e [unfolded 2] t by (simp del: a_ins.simps a_split.simps)
qed

lemma a_insert_props:
  assumes vp: "valid_params c" and w: "wf c h t" and o: "ord t"
    and d: "distinct (addrs t)" and b: "\<forall>a \<in> set (addrs t). a < nx"
    and r: "a_insert c h nx t k v = ((t', nx'), h')"
  shows "wf c h' t'" "ord t'" "distinct (addrs t')" "\<forall>a \<in> set (addrs t'). a < nx'"
    "set (inorder t') = insert (k, v) (set (inorder t))"
    "h' = (if length (ents t) = MAX_KEYS c then Suc h else h)"
    "k \<in> keyset t \<Longrightarrow> \<exists>v'. a_search h' t' k = Some v' \<and> (k, v') \<in> set (inorder t)"
proof -
  note pf = params_facts [OF vp]
  define x where "x = (if length (ents t) = MAX_KEYS c then Br nx False [] [t] else t)"
  define n where "n = (if length (ents t) = MAX_KEYS c then nx + sizeof_Node c else nx)"
  have r': "a_ins c h' n x k v = (t', nx')" and h': "h' = (if length (ents t) = MAX_KEYS c then Suc h else h)"
    using r a_insert_full [OF vp w, of nx k v] unfolding x_def n_def
    by (auto simp: a_insert_def split: if_splits)
  have wx: "wf c h' x" using w unfolding x_def h' by simp
  have lx: "length (ents x) < MAX_KEYS c"
    using wf_ents_lt [OF w] pf(3) unfolding x_def by simp
  have ix: "inorder x = inorder t" unfolding x_def by simp
  then have ox: "ord x" using o by (simp add: ord_def)
  have dx: "distinct (addrs x)" using d b unfolding x_def by auto
  have bx: "\<forall>a \<in> set (addrs x). a < n" using b pf(6) unfolding x_def n_def by auto
  show "h' = (if length (ents t) = MAX_KEYS c then Suc h else h)" by (rule h')
  from wf_a_ins [OF vp wx lx, of n k v] r' show "wf c h' t'" by simp
  from inorder_a_ins [OF vp wx lx, of n k v] r' ox ix
  show "ord t'" "set (inorder t') = insert (k, v) (set (inorder t))" by simp_all
  from addrs_a_ins [OF vp wx lx, of n k v] r' dx bx
  show "distinct (addrs t')" "\<forall>a \<in> set (addrs t'). a < nx'" by simp_all
  show "\<exists>v'. a_search h' t' k = Some v' \<and> (k, v') \<in> set (inorder t)" if "k \<in> keyset t"
    using a_search_old [OF vp wx lx, of k n v] r' ox ix that by (simp add: keyset_def)
qed

section \<open>insert on the store\<close>

declare a_ins.simps [simp del] a_split.simps [simp del]

lemma new_holds:
  assumes sz: "0 < sizeof_Node c" and fit: "sizeof_Node c \<le> ARENA_SIZE"
  shows "\<exists>t0. HFTBTree_new c base m0 = Inr t0 \<and> holds c t0 0 (Br base True [] [])
    \<and> arena t0 = base \<and> arenaOffset t0 = sizeof_Node c \<and> root t0 = base"
  using sz fit
  by (simp add: holds_def HFTBTree_new_def allocNode_def Let_def ord_def)

lemma new_fault:
  "\<not> sizeof_Node c \<le> ARENA_SIZE \<Longrightarrow> HFTBTree_new c base m0 = Inl OutOfArena"
  by (simp add: HFTBTree_new_def allocNode_def Let_def)

lemma a_insert_nx_le: "nx \<le> snd (fst (a_insert c h nx t k v))"
  using a_ins_nx_le [of nx c h t k v]
    a_ins_nx_le [of "nx + 2 * sizeof_Node c" c "Suc h"
      "a_split c (nx + sizeof_Node c) (Br nx False [] [t]) 0" k v]
  by (simp add: a_insert_def)

lemma a_insert_full_nx_le:
  "length (ents t) = MAX_KEYS c \<Longrightarrow> nx + 2 * sizeof_Node c \<le> snd (fst (a_insert c h nx t k v))"
  using a_ins_nx_le [of "nx + 2 * sizeof_Node c" c "Suc h"
      "a_split c (nx + sizeof_Node c) (Br nx False [] [t]) 0" k v]
  by (simp add: a_insert_def)

lemma a_inserts_nx_le: "nx \<le> snd (fst (a_inserts c h nx t kvs))"
proof (induction kvs arbitrary: h nx t)
  case Nil
  show ?case by simp
next
  case (Cons kv kvs)
  obtain k v where kv: "kv = (k, v)" by (cases kv)
  obtain t1 nx1 h1 where r: "a_insert c h nx t k v = ((t1, nx1), h1)" by (metis surj_pair)
  from a_insert_nx_le [of nx c h t k v] r have "nx \<le> nx1" by simp
  with Cons.IH [of nx1 h1 t1] show ?case by (simp add: kv r)
qed

lemma a_insert_root:
  assumes vp: "valid_params c" and w: "wf c h t" and full: "length (ents t) = MAX_KEYS c"
    and r: "a_insert c h nx t k v = ((t', nx'), h')"
  shows "addr t' = nx" "\<not> isleaf t'" "length (kids t') = 2" "addr (kids t' ! 0) = addr t"
proof -
  note pf = params_facts [OF vp]
  obtain f lf' es' cs' where t: "t = Br f lf' es' cs'" by (cases t)
  let ?L = "Br f lf' (take (ORDER c) es') (take (ORDER c + 1) cs')"
  let ?R = "Br (nx + sizeof_Node c) lf' (drop (ORDER c + 1) es') (drop (ORDER c + 1) cs')"
  let ?es1 = "[es' ! ORDER c]"
  let ?n2 = "nx + 2 * sizeof_Node c"
  have sp: "a_split c (nx + sizeof_Node c) (Br nx False [] [t]) 0 = Br nx False ?es1 [?L, ?R]"
    using a_split_ctx [of 0 "[]" c "nx + sizeof_Node c" nx False "[]" f lf' es' cs' "[]"]
      pf(1) t by simp
  have f: "length es' = MAX_KEYS c" using full t by simp
  have j: "lb ?es1 k = 0 \<or> lb ?es1 k = 1" using lb_le [of ?es1 k] by auto
  then have nfc: "length (ents ([?L, ?R] ! lb ?es1 k)) \<noteq> MAX_KEYS c"
    using f pf by (auto simp: MAX_KEYS_def)
  have "fst (a_insert c h nx t k v) = a_ins c (Suc h) ?n2 (Br nx False ?es1 [?L, ?R]) k v"
    using full unfolding a_insert_def sp by (simp del: a_ins.simps a_split.simps)
  then have "(t', nx') = a_ins c (Suc h) ?n2 (Br nx False ?es1 [?L, ?R]) k v"
    unfolding r by simp
  then have t': "t' = Br nx False ?es1 ([?L, ?R][lb ?es1 k := fst (a_ins c h ?n2 ([?L, ?R] ! lb ?es1 k) k v)])"
    unfolding a_ins_nonfull [OF nfc] by simp
  show "addr t' = nx" "\<not> isleaf t'" by (simp_all add: t')
  from j show "length (kids t') = 2" unfolding t' by auto
  from j show "addr (kids t' ! 0) = addr t"
    unfolding t' using t by auto
qed

text \<open>
  \<^verbatim>\<open>insert\<close> with both arguments objects outside the tree: when the nodes it allocates
  fit the arena it returns a state that holds the tree of \<open>a_insert\<close>, and otherwise it
  ends at the first node that does not fit.
\<close>

lemma insert_kv_holds:
  assumes vp: "valid_params c" and H: "holds c st h t"
    and r: "a_insert c h (arena st + arenaOffset st) t k v = ((t', nx'), h')"
  shows "if nx' \<le> arena st + ARENA_SIZE
    then \<exists>st'. insert_kv c st (\<lambda>_. k) (\<lambda>_. v) = Some (Inr st') \<and> holds c st' h' t'
      \<and> arena st' = arena st \<and> arena st' + arenaOffset st' = nx'
    else insert_kv c st (\<lambda>_. k) (\<lambda>_. v) = Some (Inl OutOfArena)"
proof -
  note pf = params_facts [OF vp]
  let ?nx = "arena st + arenaOffset st"
  from H have rp: "repr (mem st) t" and rt: "addr t = root st" and w: "wf c h t" and o: "ord t"
    and d: "distinct (addrs t)" and b: "\<forall>a \<in> set (addrs t). a < ?nx"
    and inb: "arenaOffset st \<le> ARENA_SIZE"
    by (simp_all add: holds_def)
  note ap = a_insert_props [OF vp w o d b r]
  have kc: "keyCount (mem st (root st)) = length (ents t)"
    using repr_keyCount [OF rp] rt by simp
  show ?thesis
  proof (cases "length (ents t) = MAX_KEYS c")
    case False
    have lt: "length (ents t) < MAX_KEYS c" using w False by (rule wf_ents_lt)
    have "fst (a_insert c h ?nx t k v) = a_ins c h ?nx t k v"
      using False by (simp add: a_insert_def)
    then have ai: "a_ins c h ?nx t k v = (t', nx')" unfolding r by simp
    note ref = insertNonFull_refines [OF vp rp w lt d b inb, of k v, unfolded ai fst_conv snd_conv]
    have unf: "insert_kv c st (\<lambda>_. k) (\<lambda>_. v) = insertNonFull c st (addr t) (\<lambda>_. k) (\<lambda>_. v)"
      using False rt by (simp add: insert_kv_def Let_def full_def kc)
    show ?thesis
    proof (cases "nx' \<le> arena st + ARENA_SIZE")
      case nofit: False
      with ref unf show ?thesis by simp
    next
      case fits: True
      with ref obtain st' where
        ins: "insertNonFull c st (addr t) (\<lambda>_. k) (\<lambda>_. v) = Some (Inr st')"
        and r': "repr (mem st') t'"
        and e: "root st' = root st" "arena st' = arena st" "arena st' + arenaOffset st' = nx'"
        by auto
      have hh: "h' = h" using ap(6) False by simp
      have at: "addr t' = addr t" using a_ins_addr [of c h ?nx t k v] ai by simp
      have "arenaOffset st' \<le> ARENA_SIZE" using e(2,3) fits by simp
      then have "holds c st' h' t'"
        unfolding holds_def using r' e ap(1-4) rt at by simp
      with unf ins e fits show ?thesis by simp
    qed
  next
    case True
    obtain f lf' es' cs' where t: "t = Br f lf' es' cs'" by (cases t)
    have f: "length es' = MAX_KEYS c" "f = root st" using True t rt by simp_all
    let ?L = "Br f lf' (take (ORDER c) es') (take (ORDER c + 1) cs')"
    let ?R = "Br (?nx + sizeof_Node c) lf' (drop (ORDER c + 1) es') (drop (ORDER c + 1) cs')"
    let ?p1 = "Br ?nx False [es' ! ORDER c] [?L, ?R]"
    have sp: "a_split c (?nx + sizeof_Node c) (Br ?nx False [] [t]) 0 = ?p1"
      using a_split_ctx [of 0 "[]" c "?nx + sizeof_Node c" ?nx False "[]" f lf' es' cs' "[]"]
        pf(1) t by simp
    have "fst (a_insert c h ?nx t k v) = a_ins c (Suc h) (?nx + 2 * sizeof_Node c) ?p1 k v"
      using True unfolding a_insert_def sp by (simp del: a_ins.simps a_split.simps)
    then have ai: "a_ins c (Suc h) (?nx + 2 * sizeof_Node c) ?p1 k v = (t', nx')"
      unfolding r by simp
    have big: "?nx + 2 * sizeof_Node c \<le> nx'"
      using a_insert_full_nx_le [OF True, of ?nx h k v] r by simp
    show ?thesis
    proof (cases "arenaOffset st + sizeof_Node c \<le> ARENA_SIZE")
      case nofit1: False
      have "insert_kv c st (\<lambda>_. k) (\<lambda>_. v) = Some (Inl OutOfArena)"
        using True by (simp add: insert_kv_def Let_def full_def kc allocNode_Inl [OF nofit1])
      moreover have "\<not> nx' \<le> arena st + ARENA_SIZE" using big nofit1 by simp
      ultimately show ?thesis by simp
    next
      case fit1: True
      define t1 where "t1 = modify ?nx
          (\<lambda>n. n\<lparr>leaf := False, keyCount := 0, child := memset0 (child n) (MAX_CHILD c)\<rparr>)
          (st\<lparr>arenaOffset := arenaOffset st + sizeof_Node c\<rparr>)"
      define t3 where "t3 = modify ?nx (\<lambda>n. n\<lparr>child := (child n)(0 := root st)\<rparr>) (t1\<lparr>root := ?nx\<rparr>)"
      have al: "allocNode c st False = Inr (?nx, t1)"
        unfolding t1_def by (rule allocNode_Inr [OF fit1])
      have e3: "root t3 = ?nx" "arena t3 = arena st" "arenaOffset t3 = arenaOffset st + sizeof_Node c"
        by (simp_all add: t3_def t1_def)
      have unf3: "insert_kv c st (\<lambda>_. k) (\<lambda>_. v) =
          (case splitChild c t3 ?nx 0 of Inl e \<Rightarrow> Some (Inl e)
           | Inr t4 \<Rightarrow> insertNonFull c t4 ?nx (\<lambda>_. k) (\<lambda>_. v))"
        using \<open>length (ents t) = MAX_KEYS c\<close>
        by (simp add: insert_kv_def Let_def full_def kc al t3_def)
      show ?thesis
      proof (cases "arenaOffset t3 + sizeof_Node c \<le> ARENA_SIZE")
        case nofit2: False
        have "insert_kv c st (\<lambda>_. k) (\<lambda>_. v) = Some (Inl OutOfArena)"
          unfolding unf3 splitChild_Inl [OF nofit2] by simp
        moreover have "\<not> nx' \<le> arena st + ARENA_SIZE" using big nofit2 by (simp add: e3)
        ultimately show ?thesis by simp
      next
        case fit2: True
        from splitChild_Inr [OF fit2] obtain t4 where t4: "splitChild c t3 ?nx 0 = Inr t4" by blast
        have unf: "insert_kv c st (\<lambda>_. k) (\<lambda>_. v) = insertNonFull c t4 ?nx (\<lambda>_. k) (\<lambda>_. v)"
          unfolding unf3 t4 by simp
        have m3: "mem t3 a = mem st a" if "a \<noteq> ?nx" for a
          using that by (simp add: t3_def t1_def)
        have n3: "leaf (mem t3 ?nx) = False" "keyCount (mem t3 ?nx) = 0" "child (mem t3 ?nx) 0 = root st"
          by (simp_all add: t3_def t1_def)
        have "repr (mem t3) t"
          using rp by (rule repr_frame) (use b m3 in fastforce)
        then have r0: "repr (mem t3) (Br ?nx False [] ([] @ Br f lf' es' cs' # []))"
          using n3 t f by simp
        have kids: "if lf' then cs' = [] else length cs' = length es' + 1"
          using w t by (cases h) auto
        have d0: "distinct (addrs (Br ?nx False [] ([] @ Br f lf' es' cs' # [])))"
          using d b t by auto
        have new: "?nx + sizeof_Node c = arena t3 + arenaOffset t3" by (simp add: e3)
        have fresh: "?nx + sizeof_Node c \<notin> set (addrs (Br ?nx False [] ([] @ Br f lf' es' cs' # [])))"
          using b t pf(6) by auto
        have r1: "repr (mem t4) ?p1"
          using splitChild_repr_ctx [OF vp r0 _ f(1) _ _ kids d0 new fresh fit2 t4] pf(3) by simp
        have fch: "f = child (mem t3 ?nx) 0" using n3 f by simp
        have ne: "?nx \<noteq> f" "?nx + sizeof_Node c \<noteq> ?nx" "?nx + sizeof_Node c \<noteq> f"
          using b t pf(6) by auto
        have kc3: "keyCount (mem t3 ?nx) < MAX_KEYS c" using n3 pf(3) by simp
        note st = splitChild_state [OF vp fch new ne kc3 fit2 t4]
        have e4: "root t4 = ?nx" "arena t4 = arena st" "arena t4 + arenaOffset t4 = ?nx + 2 * sizeof_Node c"
          by (simp_all add: st e3)
        have inb4: "arenaOffset t4 \<le> ARENA_SIZE" using fit2 by (simp add: st)
        have w0: "wf c (Suc h) (Br ?nx False [] ([] @ Br f lf' es' cs' # []))" using w t by simp
        have w1: "wf c (Suc h) ?p1"
          using wf_split [OF vp w0 f(1), of "?nx + sizeof_Node c"] pf(3) by simp
        have l1: "length (ents ?p1) < MAX_KEYS c" using pf(5) by (simp add: MAX_KEYS_def)
        note ds = distinct_split [OF d0 fresh, of "[es' ! ORDER c]" "take (ORDER c) es'" "ORDER c + 1"
            "drop (ORDER c + 1) es'"]
        have d1: "distinct (addrs ?p1)" using ds(1) by simp
        have s0: "set (addrs (Br ?nx False [] [t])) = insert ?nx (set (addrs t))" by simp
        have s1: "set (addrs ?p1) = insert (?nx + sizeof_Node c) (insert ?nx (set (addrs t)))"
          using ds(2) [unfolded append_Nil, folded t] unfolding s0 .
        have b1: "\<forall>a \<in> set (addrs ?p1). a < arena t4 + arenaOffset t4"
          unfolding s1 e4(3) using b pf(6) by auto
        note ref = insertNonFull_refines [OF vp r1 w1 l1 d1 b1 inb4, of k v,
            unfolded e4(3), unfolded ai fst_conv snd_conv e4(2)]
        note ar = a_insert_root [OF vp w \<open>length (ents t) = MAX_KEYS c\<close> r]
        show ?thesis
        proof (cases "nx' \<le> arena st + ARENA_SIZE")
          case nofit: False
          with ref unf show ?thesis by simp
        next
          case fits: True
          with ref obtain st' where
            ins: "insertNonFull c t4 ?nx (\<lambda>_. k) (\<lambda>_. v) = Some (Inr st')"
            and r': "repr (mem st') t'"
            and e: "root st' = root t4" "arena st' = arena st" "arena st' + arenaOffset st' = nx'"
            by auto
          have "arenaOffset st' \<le> ARENA_SIZE" using e(2,3) fits by simp
          moreover have "root st' = addr t'" using e(1) e4(1) ar(1) by simp
          ultimately have "holds c st' h' t'"
            unfolding holds_def using ap(1-4) r' e(3) by simp
          with unf ins e fits show ?thesis by simp
        qed
      qed
    qed
  qed
qed

lemma inserts_append:
  "inserts c t (xs @ ys) =
     (case inserts c t xs of None \<Rightarrow> None | Some (Inl e) \<Rightarrow> Some (Inl e)
      | Some (Inr t1) \<Rightarrow> inserts c t1 ys)"
  by (induction xs arbitrary: t) (auto split: option.splits sum.splits)

lemma objs_append: "objs (xs @ ys) = objs xs @ objs ys"
  by (induction xs) auto

text \<open>The trees of \<open>a_inserts\<close> keep the invariant and hold the inserted pairs.\<close>

lemma a_inserts_props:
  assumes vp: "valid_params c"
  shows "wf c h t \<Longrightarrow> ord t \<Longrightarrow> distinct (addrs t) \<Longrightarrow> (\<forall>a \<in> set (addrs t). a < nx) \<Longrightarrow>
    set (inorder (fst (fst (a_inserts c h nx t kvs)))) = set (inorder t) \<union> set kvs"
proof (induction kvs arbitrary: h nx t)
  case Nil
  show ?case by simp
next
  case (Cons kv kvs)
  obtain k v where kv: "kv = (k, v)" by (cases kv)
  obtain t1 nx1 h1 where r: "a_insert c h nx t k v = ((t1, nx1), h1)" by (metis surj_pair)
  note ap = a_insert_props [OF vp Cons.prems r]
  from Cons.IH [OF ap(1-4)] ap(5) show ?case by (simp add: kv r)
qed

text \<open>
  A sequence of inserts of objects outside the tree: when the nodes it allocates fit
  the arena it returns a state that holds the tree of \<open>a_inserts\<close>, and otherwise it
  ends at the first node that does not fit.
\<close>

lemma inserts_refines:
  assumes vp: "valid_params c"
  shows "holds c st h t \<Longrightarrow>
    (if snd (fst (a_inserts c h (arena st + arenaOffset st) t kvs)) \<le> arena st + ARENA_SIZE
     then \<exists>st'. inserts c st (objs kvs) = Some (Inr st')
        \<and> holds c st' (snd (a_inserts c h (arena st + arenaOffset st) t kvs))
             (fst (fst (a_inserts c h (arena st + arenaOffset st) t kvs)))
        \<and> arena st' = arena st
        \<and> arena st' + arenaOffset st' = snd (fst (a_inserts c h (arena st + arenaOffset st) t kvs))
     else inserts c st (objs kvs) = Some (Inl OutOfArena))"
proof (induction kvs arbitrary: st h t)
  case Nil
  then show ?case by (simp add: holds_def)
next
  case (Cons kv kvs)
  obtain k v where kv: "kv = (k, v)" by (cases kv)
  let ?nx = "arena st + arenaOffset st"
  obtain t1 nx1 h1 where r: "a_insert c h ?nx t k v = ((t1, nx1), h1)" by (metis surj_pair)
  have e: "a_inserts c h ?nx t (kv # kvs) = a_inserts c h1 nx1 t1 kvs" by (simp add: kv r)
  have mono: "nx1 \<le> snd (fst (a_inserts c h1 nx1 t1 kvs))" by (rule a_inserts_nx_le)
  note step = insert_kv_holds [OF vp Cons.prems r]
  show ?case
  proof (cases "nx1 \<le> arena st + ARENA_SIZE")
    case False
    with step have "insert_kv c st (\<lambda>_. k) (\<lambda>_. v) = Some (Inl OutOfArena)" by simp
    then have "inserts c st (objs (kv # kvs)) = Some (Inl OutOfArena)"
      by (simp add: kv obj_def)
    moreover have "\<not> snd (fst (a_inserts c h1 nx1 t1 kvs)) \<le> arena st + ARENA_SIZE"
      using False mono by simp
    ultimately show ?thesis unfolding e by simp
  next
    case True
    with step obtain st1 where
      s1: "insert_kv c st (\<lambda>_. k) (\<lambda>_. v) = Some (Inr st1)" "holds c st1 h1 t1"
        "arena st1 = arena st" "arena st1 + arenaOffset st1 = nx1" by auto
    have i: "inserts c st (objs (kv # kvs)) = inserts c st1 (objs kvs)"
      using s1(1) by (simp add: kv obj_def)
    from Cons.IH [OF s1(2), unfolded s1(4), unfolded s1(3)] show ?thesis
      unfolding e i .
  qed
qed
section \<open>The nodes reached in the store\<close>

lemma nodes_at_Suc: "set (nodes_at (Suc d) t) = (\<Union>x \<in> set (nodes_at d t). set (kids x))"
proof (induction d arbitrary: t)
  case 0
  then show ?case by simp
next
  case (Suc d)
  have "set (nodes_at (Suc (Suc d)) t) = (\<Union>y \<in> set (kids t). set (nodes_at (Suc d) y))"
    by simp
  also have "\<dots> = (\<Union>y \<in> set (kids t). \<Union>x \<in> set (nodes_at d y). set (kids x))"
    using Suc.IH by simp
  also have "\<dots> = (\<Union>x \<in> set (nodes_at (Suc d) t). set (kids x))" by auto
  finally show ?case .
qed

lemma wf_nodes_at: "wf c h t \<Longrightarrow> x \<in> set (nodes_at d t) \<Longrightarrow> d \<le> h \<and> wf c (h - d) x"
proof (induction d arbitrary: t h)
  case 0
  then show ?case by simp
next
  case (Suc d)
  from Suc.prems(2) obtain y where y: "y \<in> set (kids t)" "x \<in> set (nodes_at d y)" by auto
  obtain a lf es cs where t: "t = Br a lf es cs" by (cases t)
  from Suc.prems(1) y(1) t obtain h' where h: "h = Suc h'" by (cases h) auto
  with Suc.prems(1) y(1) t have "wf c h' y" by simp
  from Suc.IH [OF this y(2)] h show ?case by simp
qed

lemma repr_nodes_at: "repr m t \<Longrightarrow> x \<in> set (nodes_at d t) \<Longrightarrow> repr m x"
proof (induction d arbitrary: t)
  case 0
  then show ?case by simp
next
  case (Suc d)
  from Suc.prems(2) obtain y where y: "y \<in> set (kids t)" "x \<in> set (nodes_at d y)" by auto
  from Suc.prems(1) y(1) have "repr m y" by (cases t) simp
  from Suc.IH [OF this y(2)] show ?case .
qed

lemma ord_kid:
  assumes "wf c h t" "ord t" "y \<in> set (kids t)"
  shows "ord y"
proof -
  obtain a lf es cs where t: "t = Br a lf es cs" by (cases t)
  from assms(3) t obtain pre post where cs: "cs = pre @ y # post" by (auto dest: split_list)
  from assms(1) t cs obtain h' where "h = Suc h'" by (cases h) auto
  with assms(1) t cs have "length pre \<le> length es" by simp
  with assms(2) t cs show ?thesis using ord_child by blast
qed

lemma ord_nodes_at: "wf c h t \<Longrightarrow> ord t \<Longrightarrow> x \<in> set (nodes_at d t) \<Longrightarrow> ord x"
proof (induction d arbitrary: t h)
  case 0
  then show ?case by simp
next
  case (Suc d)
  from Suc.prems(3) obtain y where y: "y \<in> set (kids t)" "x \<in> set (nodes_at d y)" by auto
  have oy: "ord y" using Suc.prems(1,2) y(1) by (rule ord_kid)
  obtain a lf es cs where t: "t = Br a lf es cs" by (cases t)
  from Suc.prems(1) y(1) t obtain h' where h: "h = Suc h'" by (cases h) auto
  with Suc.prems(1) y(1) t have "wf c h' y" by simp
  from Suc.IH [OF this oy y(2)] show ?case .
qed

text \<open>Every node reached in the store is a node of the tree, at the same depth.\<close>

lemma reach_nodes_at:
  assumes H: "holds c st h t"
  shows "reach st d p \<Longrightarrow> \<exists>x \<in> set (nodes_at d t). addr x = p"
proof (induction rule: reach.induct)
  case reach_root
  from H show ?case by (simp add: holds_def)
next
  case (reach_child d p i)
  from H have rp: "repr (mem st) t" and w: "wf c h t" by (simp_all add: holds_def)
  from reach_child.IH obtain x where x: "x \<in> set (nodes_at d t)" "addr x = p" by blast
  obtain a lf es cs where xe: "x = Br a lf es cs" by (cases x)
  have rx: "repr (mem st) x" using rp x(1) by (rule repr_nodes_at)
  have wx: "wf c (h - d) x" using wf_nodes_at [OF w x(1)] by simp
  from rx xe x(2) reach_child.hyps(2) have nl: "\<not> lf" and kc: "keyCount (mem st p) = length es"
    by simp_all
  from wx xe nl have lc: "length cs = length es + 1" by (cases "h - d") simp_all
  with reach_child.hyps(3) kc have i: "i < length cs" by simp
  then have "cs ! i \<in> set (kids x)" using xe by simp
  with x(1) have "cs ! i \<in> set (nodes_at (Suc d) t)" unfolding nodes_at_Suc by blast
  moreover have "addr (cs ! i) = child (mem st p) i" using rx xe x(2) i by simp
  ultimately show ?case by blast
qed

lemma reach_node:
  assumes H: "holds c st h t" and r: "reach st d p"
  obtains x where "addr x = p" "repr (mem st) x" "wf c (h - d) x" "d \<le> h" "ord x"
proof -
  from H have rp: "repr (mem st) t" and w: "wf c h t" and o: "ord t" by (simp_all add: holds_def)
  from reach_nodes_at [OF H r] obtain x where x: "x \<in> set (nodes_at d t)" "addr x = p" by blast
  from repr_nodes_at [OF rp x(1)] wf_nodes_at [OF w x(1)] ord_nodes_at [OF w o x(1)] x(2) that
  show ?thesis by blast
qed

lemma key_in_keyset:
  "key_in st p k \<Longrightarrow> repr (mem st) x \<Longrightarrow> wf c h x \<Longrightarrow> addr x = p \<Longrightarrow> k \<in> keyset x"
proof (induction arbitrary: x h rule: key_in.induct)
  case (key_here i p)
  obtain a lf es cs where xe: "x = Br a lf es cs" by (cases x)
  with key_here have "i < length es" "keys (mem st p) i = fst (es ! i)" by simp_all
  then have "keys (mem st p) i \<in> fst ` set es" by (metis image_eqI nth_mem)
  then show ?case using set_inter_es [of es "map inorder cs"] xe by (auto simp: keyset_def)
next
  case (key_below p i k)
  obtain a lf es cs where xe: "x = Br a lf es cs" by (cases x)
  from key_below.prems xe key_below.hyps(1) have nl: "\<not> lf" and kc: "keyCount (mem st p) = length es"
    by simp_all
  from key_below.prems(2) xe nl obtain h' where h: "h = Suc h'" by (cases h) auto
  with key_below.prems(2) xe have lc: "length cs = length es + 1" by simp
  with key_below.hyps(2) kc have i: "i < length cs" by simp
  have r: "repr (mem st) (cs ! i)" "wf c h' (cs ! i)" "addr (cs ! i) = child (mem st p) i"
    using key_below.prems xe i h by simp_all
  from key_below.IH [OF this] have k: "k \<in> keyset (cs ! i)" .
  have cs: "take i cs @ cs ! i # drop (Suc i) cs = cs" using i by (rule id_take_nth_drop [symmetric])
  have "length (take i cs) \<le> length es" using i lc by simp
  from set_inorder_child [OF this, of "cs ! i" a lf "drop (Suc i) cs"]
  have "set (inorder (cs ! i)) \<subseteq> set (inorder (Br a lf es cs))" unfolding cs .
  with k show ?case unfolding xe keyset_def by blast
qed

lemma repr_node_keys: "repr m (Br a lf es cs) \<Longrightarrow> node_keys (m a) = map fst es"
  and repr_node_vals: "repr m (Br a lf es cs) \<Longrightarrow> node_vals (m a) = map snd es"
  by (auto simp: node_keys_def node_vals_def intro!: nth_equalityI)

section \<open>Sequences of inserts\<close>

lemma search_holds:
  assumes "holds c st h t"
  shows "search st k = Some (a_search h t k, st)"
  using assms search_loop_refines [of st t c h k] by (simp add: holds_def search_def)

text \<open>The constructor and a sequence of inserts of objects, for \<open>ORDER\<close> up to 32767.\<close>

lemma built_eval:
  assumes vp: "valid_params c" and fit: "sizeof_Node c \<le> ARENA_SIZE"
    and e: "a_inserts c 0 (base + sizeof_Node c) (Br base True [] []) kvs = ((t, nx), h)"
  shows "if nx \<le> base + ARENA_SIZE
    then \<exists>st. built c base m0 (objs kvs) = Some (Inr st) \<and> holds c st h t
       \<and> arena st = base \<and> arena st + arenaOffset st = nx
    else built c base m0 (objs kvs) = Some (Inl OutOfArena)"
proof -
  from new_holds [OF params_facts(6) [OF vp] fit, of base m0] obtain t0 where
    n: "HFTBTree_new c base m0 = Inr t0" "holds c t0 0 (Br base True [] [])"
      "arena t0 = base" "arenaOffset t0 = sizeof_Node c" by blast
  have b: "built c base m0 (objs kvs) = inserts c t0 (objs kvs)"
    by (simp add: built_def n(1))
  from inserts_refines [OF vp n(2), of kvs] show ?thesis
    unfolding n(3,4) e b fst_conv snd_conv .
qed

lemma built_objs:
  assumes vp: "valid_params c"
  shows "(\<exists>st h t. built c base m0 (objs kvs) = Some (Inr st) \<and> holds c st h t
            \<and> set (inorder t) = set kvs)
    \<or> built c base m0 (objs kvs) = Some (Inl OutOfArena)"
proof (cases "sizeof_Node c \<le> ARENA_SIZE")
  case False
  then show ?thesis by (simp add: built_def new_fault)
next
  case True
  obtain t nx h where e: "a_inserts c 0 (base + sizeof_Node c) (Br base True [] []) kvs = ((t, nx), h)"
    by (metis surj_pair)
  have "set (inorder (fst (fst (a_inserts c 0 (base + sizeof_Node c) (Br base True [] []) kvs))))
      = set (inorder (Br base True [] [])) \<union> set kvs"
    using params_facts(6) [OF vp] by (intro a_inserts_props [OF vp]) (simp_all add: ord_def)
  then have s: "set (inorder t) = set kvs" unfolding e by simp
  from built_eval [OF vp True e, of m0] s show ?thesis
    by (cases "nx \<le> base + ARENA_SIZE") auto
qed

lemma kid_bounds:
  assumes s: "ord (Br a lf es cs)" and lc: "length cs = length es + 1" and i: "i < length es"
  shows "\<forall>e \<in> set (inorder (cs ! i)). fst e \<le> fst (es ! i)"
    and "\<forall>e \<in> set (inorder (cs ! Suc i)). fst (es ! i) \<le> fst e"
proof -
  have c1: "take i cs @ cs ! i # drop (Suc i) cs = cs"
    using i lc by (intro id_take_nth_drop [symmetric]) simp
  have l1: "length (take i cs) \<le> length es" using i lc by simp
  have d: "drop (length (take i cs)) es = es ! i # drop (Suc i) es"
    using i lc by (simp add: Cons_nth_drop_Suc)
  from s have "sorted (map fst (inorder (Br a lf es (take i cs @ cs ! i # drop (Suc i) cs))))"
    unfolding c1 ord_def .
  then show "\<forall>e \<in> set (inorder (cs ! i)). fst e \<le> fst (es ! i)"
    unfolding inorder_ctx [OF l1] d by (auto simp: sorted_append)
next
  have c2: "take (Suc i) cs @ cs ! Suc i # drop (Suc (Suc i)) cs = cs"
    using i lc by (intro id_take_nth_drop [symmetric]) simp
  have l2: "length (take (Suc i) cs) \<le> length es" using i lc by simp
  have "es ! i \<in> set (take (Suc i) es)" using i by (simp add: take_Suc_conv_app_nth)
  with set_inter_es [of "take (length (take (Suc i) cs)) es" "map inorder (take (Suc i) cs)"]
  have m: "es ! i \<in> set (inter (map inorder (take (Suc i) cs)) (take (length (take (Suc i) cs)) es))"
    using i lc by auto
  from s have "sorted (map fst (inorder (Br a lf es (take (Suc i) cs @ cs ! Suc i # drop (Suc (Suc i)) cs))))"
    unfolding c2 ord_def .
  then have "\<forall>x \<in> set (inter (map inorder (take (Suc i) cs)) (take (length (take (Suc i) cs)) es)).
      \<forall>y \<in> set (inorder (cs ! Suc i)). fst x \<le> fst y"
    unfolding inorder_ctx [OF l2] by (auto simp: sorted_append)
  with m show "\<forall>e \<in> set (inorder (cs ! Suc i)). fst (es ! i) \<le> fst e" by blast
qed

lemmas a_eval = a_ins.simps a_split.simps a_insert_def lb_def ipos_def leaf_ins_def MAX_KEYS_def
  Let_def

section \<open>A leaf that can never fill\<close>

text \<open>
  When \<^verbatim>\<open>MAX_KEYS\<close> is above 65535, the 16-bit \<^verbatim>\<open>keyCount\<close> never equals it: the root
  stays the one leaf, no node is ever allocated, and every 65536th insert empties it.
\<close>

lemma wrap_ins_length:
  "length es \<le> 65535 \<Longrightarrow>
   length (wrap_ins es kv) \<le> 65535 \<and> length (wrap_ins es kv) = Suc (length es) mod 65536"
  by (cases kv) auto

lemma foldl_wrap_length:
  "length es \<le> 65535 \<Longrightarrow>
   length (foldl wrap_ins es kvs) \<le> 65535
   \<and> length (foldl wrap_ins es kvs) = (length es + length kvs) mod 65536"
proof (induction kvs arbitrary: es)
  case Nil
  then show ?case by simp
next
  case (Cons kv kvs)
  from wrap_ins_length [OF Cons.prems, of kv]
  have l: "length (wrap_ins es kv) \<le> 65535" "length (wrap_ins es kv) = Suc (length es) mod 65536"
    by simp_all
  have "(Suc (length es) mod 65536 + length kvs) mod 65536 = (length es + length (kv # kvs)) mod 65536"
    by (simp add: mod_add_left_eq)
  with Cons.IH [OF l(1)] l(2) show ?case by simp
qed

lemma foldl_wrap_sorted:
  "sorted (map fst es) \<Longrightarrow> sorted (map fst (foldl wrap_ins es kvs))"
proof (induction kvs arbitrary: es)
  case Nil
  then show ?case by simp
next
  case (Cons kv kvs)
  obtain k v where kv: "kv = (k, v)" by (cases kv)
  have "sorted (map fst (wrap_ins es kv))"
    using Cons.prems sorted_leaf_ins [of es k v] by (simp add: kv)
  from Cons.IH [OF this] show ?case by simp
qed

lemma big_inserts:
  assumes big: "65535 < MAX_KEYS c"
  shows "repr (mem st) (Br (root st) True es []) \<Longrightarrow> length es \<le> 65535 \<Longrightarrow>
    \<exists>st'. inserts c st (objs kvs) = Some (Inr st')
       \<and> repr (mem st') (Br (root st) True (foldl wrap_ins es kvs) [])
       \<and> root st' = root st \<and> arena st' = arena st \<and> arenaOffset st' = arenaOffset st"
proof (induction kvs arbitrary: st es)
  case Nil
  then show ?case by simp
next
  case (Cons kv kvs)
  obtain k v where kv: "kv = (k, v)" by (cases kv)
  have kc: "keyCount (mem st (root st)) = length es" using Cons.prems(1) by simp
  have unf: "insert_kv c st (\<lambda>_. k) (\<lambda>_. v) = insertNonFull c st (root st) (\<lambda>_. k) (\<lambda>_. v)"
    using big Cons.prems(2) by (simp add: insert_kv_def Let_def full_def kc)
  have "\<exists>st1. insertNonFull c st (root st) (\<lambda>_. k) (\<lambda>_. v) = Some (Inr st1)
      \<and> repr (mem st1) (Br (root st) True (wrap_ins es kv) [])
      \<and> root st1 = root st \<and> arena st1 = arena st \<and> arenaOffset st1 = arenaOffset st"
  proof (cases "length es = 65535")
    case True
    from insertNonFull_leaf_wrap [OF Cons.prems(1) True, of c k v] True show ?thesis
      by (auto simp: kv)
  next
    case False
    with Cons.prems(2) have "length es < 65535" by simp
    from insertNonFull_leaf [OF Cons.prems(1) this, of c k v] False show ?thesis
      by (auto simp: kv)
  qed
  then obtain st1 where
    s1: "insertNonFull c st (root st) (\<lambda>_. k) (\<lambda>_. v) = Some (Inr st1)"
      "repr (mem st1) (Br (root st) True (wrap_ins es kv) [])"
      "root st1 = root st" "arena st1 = arena st" "arenaOffset st1 = arenaOffset st" by blast
  have i: "inserts c st (objs (kv # kvs)) = inserts c st1 (objs kvs)"
    using s1(1) unf by (simp add: kv obj_def)
  have l: "length (wrap_ins es kv) \<le> 65535" using wrap_ins_length [OF Cons.prems(2)] by simp
  from Cons.IH [of st1 "wrap_ins es kv", unfolded s1(3), OF s1(2) l] obtain st' where
    "inserts c st1 (objs kvs) = Some (Inr st')"
    "repr (mem st') (Br (root st) True (foldl wrap_ins (wrap_ins es kv) kvs) [])"
    "root st' = root st" "arena st' = arena st1" "arenaOffset st' = arenaOffset st1" by blast
  with i s1 show ?case by simp
qed

lemma built_fault:
  "\<not> sizeof_Node c \<le> ARENA_SIZE \<Longrightarrow> built c base m0 args = Some (Inl OutOfArena)"
  by (simp add: built_def new_fault)

lemma built_append:
  "built c base m0 (xs @ ys) =
     (case built c base m0 xs of None \<Rightarrow> None | Some (Inl e) \<Rightarrow> Some (Inl e)
      | Some (Inr t) \<Rightarrow> inserts c t ys)"
  by (simp add: built_def inserts_append split: sum.splits)

lemma big_built:
  assumes sz: "0 < sizeof_Node c" and big: "65535 < MAX_KEYS c" and fit: "sizeof_Node c \<le> ARENA_SIZE"
  shows "\<exists>st. built c base m0 (objs kvs) = Some (Inr st)
            \<and> holds c st 0 (Br base True (foldl wrap_ins [] kvs) [])"
proof -
  from new_holds [OF sz fit, of base m0] obtain t0 where
    n: "HFTBTree_new c base m0 = Inr t0" "holds c t0 0 (Br base True [] [])"
      "arena t0 = base" "arenaOffset t0 = sizeof_Node c" "root t0 = base" by blast
  from n(2,5) have r0: "repr (mem t0) (Br (root t0) True [] [])" by (simp add: holds_def)
  from big_inserts [OF big r0, of kvs] obtain st where
    s: "inserts c t0 (objs kvs) = Some (Inr st)"
      "repr (mem st) (Br (root t0) True (foldl wrap_ins [] kvs) [])"
      "root st = root t0" "arena st = arena t0" "arenaOffset st = arenaOffset t0" by auto
  have l: "length (foldl wrap_ins [] kvs) \<le> 65535"
    using foldl_wrap_length [of "[]" kvs] by simp
  have o: "sorted (map fst (foldl wrap_ins [] kvs))" by (rule foldl_wrap_sorted) simp
  have "holds c st 0 (Br base True (foldl wrap_ins [] kvs) [])"
    unfolding holds_def using s n(3,4,5) l o big sz fit by (simp add: ord_def)
  moreover have "built c base m0 (objs kvs) = Some (Inr st)"
    by (simp add: built_def n(1) s(1))
  ultimately show ?thesis by blast
qed

text \<open>The constructor and a sequence of inserts of objects, for every positive \<open>ORDER\<close>.\<close>

lemma built_holds:
  assumes "0 < ORDER c" and sz: "0 < sizeof_Node c"
  shows "(\<exists>st h t. built c base m0 (objs kvs) = Some (Inr st) \<and> holds c st h t
            \<and> (valid_params c \<or> h = 0 \<and> \<not> length (ents t) = MAX_KEYS c))
    \<or> built c base m0 (objs kvs) = Some (Inl OutOfArena)"
proof (cases "ORDER c \<le> 32767")
  case True
  with assms have vp: "valid_params c" by (simp add: valid_params_def)
  from built_objs [OF vp, of base m0 kvs] vp show ?thesis by blast
next
  case False
  then have big: "65535 < MAX_KEYS c" by (simp add: MAX_KEYS_def)
  have l: "length (foldl wrap_ins [] kvs) \<le> 65535"
    using foldl_wrap_length [of "[]" kvs] by simp
  with big have nf: "\<not> length (ents (Br base True (foldl wrap_ins [] kvs) [])) = MAX_KEYS c" by simp
  show ?thesis
  proof (cases "sizeof_Node c \<le> ARENA_SIZE")
    case True
    from big_built [OF sz big True, of base m0 kvs] nf show ?thesis by blast
  next
    case False
    then show ?thesis by (simp add: built_fault)
  qed
qed

section \<open>Arguments that refer into the tree\<close>

text \<open>
  When the key or the value passed to \<^verbatim>\<open>insert\<close> is a reference into the tree's own
  storage, the writes of the insert change what it reads, and neither the order of the
  keys nor the stored value is what an object outside the tree would give. The shape of
  the tree does not depend on what is read: every path taken is a path of the tree, and
  the leaf loop moves a suffix of the entries whatever it compares with.
\<close>

lemma holds_shaped: "holds c st h t \<Longrightarrow> shaped c st h t"
  by (simp add: holds_def shaped_def)

lemma leaf_shift_frame:
  "root (fst (leaf_shift t a k (int i - 1))) = root t
   \<and> arena (fst (leaf_shift t a k (int i - 1))) = arena t
   \<and> arenaOffset (fst (leaf_shift t a k (int i - 1))) = arenaOffset t
   \<and> leaf (mem (fst (leaf_shift t a k (int i - 1))) a) = leaf (mem t a)
   \<and> keyCount (mem (fst (leaf_shift t a k (int i - 1))) a) = keyCount (mem t a)
   \<and> (\<forall>b. b \<noteq> a \<longrightarrow> mem (fst (leaf_shift t a k (int i - 1))) b = mem t b)"
proof (induction i arbitrary: t)
  case 0
  have "leaf_shift t a k (int 0 - 1) = (t, -1)" by (subst leaf_shift.simps) simp
  then show ?case by simp
next
  case (Suc i)
  show ?case
  proof (cases "k t < keys (mem t a) i")
    case False
    then have "leaf_shift t a k (int (Suc i) - 1) = (t, int i)"
      by (subst leaf_shift.simps) simp
    then show ?thesis by simp
  next
    case True
    define t2 where "t2 = modify a (\<lambda>n. n\<lparr>vals := (vals n)(Suc i := vals n i)\<rparr>)
        (modify a (\<lambda>n. n\<lparr>keys := (keys n)(Suc i := keys n i)\<rparr>) t)"
    from True have unf: "leaf_shift t a k (int (Suc i) - 1) = leaf_shift t2 a k (int i - 1)"
      by (subst leaf_shift.simps) (simp add: t2_def Let_def nat_add_distrib)
    have "root t2 = root t" "arena t2 = arena t" "arenaOffset t2 = arenaOffset t"
      "leaf (mem t2 a) = leaf (mem t a)" "keyCount (mem t2 a) = keyCount (mem t a)"
      "\<forall>b. b \<noteq> a \<longrightarrow> mem t2 b = mem t b"
      by (simp_all add: t2_def)
    with Suc.IH [of t2] show ?thesis unfolding unf by simp
  qed
qed

lemma insertNonFull_leaf_any:
  assumes lf: "leaf (mem t a)"
  shows "\<exists>t'. insertNonFull c t a k v = Some (Inr t') \<and> leaf (mem t' a)
     \<and> keyCount (mem t' a) = u16 (int (keyCount (mem t a)) + 1)
     \<and> root t' = root t \<and> arena t' = arena t \<and> arenaOffset t' = arenaOffset t
     \<and> (\<forall>b. b \<noteq> a \<longrightarrow> mem t' b = mem t b)"
proof -
  obtain t1 i where ls: "leaf_shift t a k (int (keyCount (mem t a)) - 1) = (t1, i)"
    by (metis surj_pair)
  note fr = leaf_shift_frame [of t a k "keyCount (mem t a)", unfolded ls fst_conv]
  show ?thesis
    by (subst insertNonFull.simps) (simp add: lf ls Let_def fr)
qed

lemma repr_leaf_any:
  "leaf (m a) \<Longrightarrow> \<exists>es. repr m (Br a True es []) \<and> length es = keyCount (m a)"
  by (rule exI [of _ "map (\<lambda>i. (keys (m a) i, vals (m a) i)) [0..<keyCount (m a)]"]) simp

lemma addrs_replace_child:
  assumes d: "distinct (addrs (Br a lf es cs))" and j: "j < length cs"
    and dy: "distinct (addrs y)"
    and sub: "set (addrs y) \<subseteq> set (addrs (cs ! j)) \<union> F"
    and F: "F \<inter> set (addrs (Br a lf es cs)) = {}"
  shows "distinct (addrs (Br a lf es1 (cs[j := y])))"
    and "set (addrs (Br a lf es1 (cs[j := y]))) \<subseteq> set (addrs (Br a lf es cs)) \<union> F"
proof -
  define pre where "pre = take j cs"
  define post where "post = drop (Suc j) cs"
  define X where "X = cs ! j"
  have cs: "cs = pre @ X # post"
    unfolding pre_def post_def X_def using j by (simp add: id_take_nth_drop)
  have upd: "cs[j := y] = pre @ y # post"
    unfolding pre_def post_def using j by (simp add: upd_conv_take_nth_drop)
  define P where "P = (\<Union>x\<in>set pre. set (addrs x))"
  define Q where "Q = (\<Union>x\<in>set post. set (addrs x))"
  from d have c: "a \<notin> P" "a \<notin> set (addrs X)" "a \<notin> Q"
    "distinct (concat (map addrs pre))" "distinct (concat (map addrs post))"
    "P \<inter> set (addrs X) = {}" "P \<inter> Q = {}" "set (addrs X) \<inter> Q = {}"
    unfolding cs P_def Q_def by (simp_all add: Int_Un_distrib Int_Un_distrib2)
  from F have f: "a \<notin> F" "F \<inter> P = {}" "F \<inter> Q = {}"
    unfolding cs P_def Q_def by auto
  from sub have sy: "set (addrs y) \<subseteq> set (addrs X) \<union> F" by (simp add: X_def)
  have dY: "a \<notin> set (addrs y)" "P \<inter> set (addrs y) = {}" "set (addrs y) \<inter> Q = {}"
    using sy c(1,2,3,6,8) f by fastforce+
  show "distinct (addrs (Br a lf es1 (cs[j := y])))"
    unfolding upd using c(1,3,4,5,7) dY dy unfolding P_def Q_def
    by (simp add: Int_Un_distrib Int_Un_distrib2)
  show "set (addrs (Br a lf es1 (cs[j := y]))) \<subseteq> set (addrs (Br a lf es cs)) \<union> F"
    unfolding upd using sy unfolding cs by auto
qed

text \<open>\<^verbatim>\<open>insertNonFull\<close> with any references as arguments keeps the shape.\<close>

lemma insertNonFull_shape:
  assumes vp: "valid_params c"
  shows "repr (mem t) x \<Longrightarrow> wf c h x \<Longrightarrow> length (ents x) < MAX_KEYS c \<Longrightarrow> distinct (addrs x) \<Longrightarrow>
    (\<forall>b \<in> set (addrs x). b < arena t + arenaOffset t) \<Longrightarrow> arenaOffset t \<le> ARENA_SIZE \<Longrightarrow>
    insertNonFull c t (addr x) k v = Some (Inl OutOfArena) \<or>
    (\<exists>t' x'. insertNonFull c t (addr x) k v = Some (Inr t')
       \<and> repr (mem t') x' \<and> wf c h x' \<and> addr x' = addr x \<and> distinct (addrs x')
       \<and> set (addrs x') \<subseteq> set (addrs x) \<union> {b. arena t + arenaOffset t \<le> b}
       \<and> (\<forall>b \<in> set (addrs x'). b < arena t' + arenaOffset t')
       \<and> root t' = root t \<and> arena t' = arena t
       \<and> arenaOffset t \<le> arenaOffset t' \<and> arenaOffset t' \<le> ARENA_SIZE
       \<and> (kids x \<noteq> [] \<longrightarrow> kids x' \<noteq> [] \<and> addr (kids x' ! 0) = addr (kids x ! 0))
       \<and> (\<forall>b. b \<notin> set (addrs x) \<longrightarrow> b < arena t + arenaOffset t \<longrightarrow> mem t' b = mem t b))"
proof (induction h arbitrary: t x)
  case 0
  note pf = params_facts [OF vp]
  obtain a lf es cs where x: "x = Br a lf es cs" by (cases x)
  with 0 have lf: "lf" "cs = []" by simp_all
  from 0 x lf have l: "leaf (mem t a)" and kc: "keyCount (mem t a) = length es" by simp_all
  from insertNonFull_leaf_any [OF l, of c k v] obtain t' where
    t': "insertNonFull c t a k v = Some (Inr t')" "leaf (mem t' a)"
      "keyCount (mem t' a) = u16 (int (keyCount (mem t a)) + 1)"
      "root t' = root t" "arena t' = arena t" "arenaOffset t' = arenaOffset t"
      "\<forall>b. b \<noteq> a \<longrightarrow> mem t' b = mem t b" by blast
  from 0(3) x pf(2) have "length es < 65535" by simp
  with t'(3) kc have kc': "keyCount (mem t' a) = Suc (length es)" by simp
  from repr_leaf_any [of "mem t'" a, OF t'(2)] obtain es1 where
    e: "repr (mem t') (Br a True es1 [])" "length es1 = keyCount (mem t' a)" by blast
  have w: "wf c 0 (Br a True es1 [])" using e(2) kc' 0(3) x by simp
  have "insertNonFull c t (addr x) k v = Some (Inr t')
       \<and> repr (mem t') (Br a True es1 []) \<and> wf c 0 (Br a True es1 [])
       \<and> addr (Br a True es1 []) = addr x \<and> distinct (addrs (Br a True es1 []))
       \<and> set (addrs (Br a True es1 [])) \<subseteq> set (addrs x) \<union> {b. arena t + arenaOffset t \<le> b}
       \<and> (\<forall>b \<in> set (addrs (Br a True es1 [])). b < arena t' + arenaOffset t')
       \<and> root t' = root t \<and> arena t' = arena t
       \<and> arenaOffset t \<le> arenaOffset t' \<and> arenaOffset t' \<le> ARENA_SIZE
       \<and> (kids x \<noteq> [] \<longrightarrow> kids (Br a True es1 []) \<noteq> []
             \<and> addr (kids (Br a True es1 []) ! 0) = addr (kids x ! 0))
       \<and> (\<forall>b. b \<notin> set (addrs x) \<longrightarrow> b < arena t + arenaOffset t \<longrightarrow> mem t' b = mem t b)"
    using t' e(1) w 0(5,6) x lf by simp
  then show ?case by blast
next
  case (Suc h)
  note pf = params_facts [OF vp]
  let ?nx = "arena t + arenaOffset t"
  obtain a lf es cs where x: "x = Br a lf es cs" by (cases x)
  from Suc.prems x have lf: "\<not> lf" and lcs: "length cs = length es + 1"
    and wch: "\<And>y. y \<in> set cs \<Longrightarrow> wf c h y" and nf: "length es < MAX_KEYS c" by simp_all
  define pos where "pos = lb es (k t)"
  have fp: "findPos (mem t a) (k t) = pos"
    unfolding pos_def using Suc.prems(1) x by (intro findPos_lb) simp_all
  have ples: "pos \<le> length es" unfolding pos_def by (rule lb_le)
  then have pl: "pos < length cs" using lcs by simp
  define X where "X = cs ! pos"
  have Xin: "X \<in> set cs" using pl by (simp add: X_def)
  have rX: "repr (mem t) X" using Suc.prems(1) x Xin by simp
  have wX: "wf c h X" using wch Xin .
  have chX: "child (mem t a) pos = addr X" using Suc.prems(1) x pl by (simp add: X_def)
  have kcX: "keyCount (mem t (addr X)) = length (ents X)" using rX by (rule repr_keyCount)
  have nlf: "\<not> leaf (mem t a)" using Suc.prems(1) x lf by simp
  have dist: "distinct (addrs (Br a lf es cs))" using Suc.prems(4) x by simp
  have bnd: "\<And>b. b \<in> set (addrs (Br a lf es cs)) \<Longrightarrow> b < ?nx" using Suc.prems(5) x by auto
  note dX = distinct_child [OF dist Xin]
  have cne: "cs \<noteq> []" using pl by auto
  show ?case
  proof (cases "length (ents X) = MAX_KEYS c")
    case False
    have leX: "length (ents X) \<le> MAX_KEYS c" using wX by (cases h; cases X) simp_all
    with False have nfX: "length (ents X) < MAX_KEYS c" by simp
    have bX: "\<forall>b \<in> set (addrs X). b < ?nx" using dX(2) bnd by auto
    note ih = Suc.IH [OF rX wX nfX dX(1) bX Suc.prems(6)]
    have step: "insertNonFull c t (addr x) k v = insertNonFull c t (addr X) k v"
      unfolding x by (subst insertNonFull.simps)
        (simp add: nlf fp Let_def chX full_def kcX False)
    from ih show ?thesis
    proof (rule disjE)
      assume "insertNonFull c t (addr X) k v = Some (Inl OutOfArena)"
      with step show ?thesis by simp
    next
      assume "\<exists>t' x'. insertNonFull c t (addr X) k v = Some (Inr t')
         \<and> repr (mem t') x' \<and> wf c h x' \<and> addr x' = addr X \<and> distinct (addrs x')
         \<and> set (addrs x') \<subseteq> set (addrs X) \<union> {b. ?nx \<le> b}
         \<and> (\<forall>b \<in> set (addrs x'). b < arena t' + arenaOffset t')
         \<and> root t' = root t \<and> arena t' = arena t
         \<and> arenaOffset t \<le> arenaOffset t' \<and> arenaOffset t' \<le> ARENA_SIZE
         \<and> (kids X \<noteq> [] \<longrightarrow> kids x' \<noteq> [] \<and> addr (kids x' ! 0) = addr (kids X ! 0))
         \<and> (\<forall>b. b \<notin> set (addrs X) \<longrightarrow> b < ?nx \<longrightarrow> mem t' b = mem t b)"
      then obtain t' X' where
        ins: "insertNonFull c t (addr X) k v = Some (Inr t')"
        and r': "repr (mem t') X'" and w': "wf c h X'" and a': "addr X' = addr X"
        and d': "distinct (addrs X')"
        and s': "set (addrs X') \<subseteq> set (addrs X) \<union> {b. ?nx \<le> b}"
        and b': "\<forall>b \<in> set (addrs X'). b < arena t' + arenaOffset t'"
        and rt: "root t' = root t" "arena t' = arena t"
        and off: "arenaOffset t \<le> arenaOffset t'" "arenaOffset t' \<le> ARENA_SIZE"
        and fr: "\<And>b. b \<notin> set (addrs X) \<Longrightarrow> b < ?nx \<Longrightarrow> mem t' b = mem t b"
        by blast
      let ?x' = "Br a lf es (cs[pos := X'])"
      have R: "repr (mem t') ?x'"
      proof (rule repr_replace_child [OF _ pl dist r'])
        show "repr (mem t) (Br a lf es cs)" using Suc.prems(1) x by simp
        show "addr X' = addr (cs ! pos)" using a' by (simp add: X_def)
        fix b assume "b \<in> set (addrs (Br a lf es cs))" "b \<notin> set (addrs (cs ! pos))"
        then show "mem t' b = mem t b" using fr [of b] bnd [of b] by (simp add: X_def)
      qed
      have "y \<in> set (cs[pos := X']) \<Longrightarrow> wf c h y" for y
        using wch w' set_update_subset_insert [of cs pos X'] by auto
      then have W: "wf c (Suc h) ?x'" using lf lcs nf by simp
      have F: "{b. ?nx \<le> b} \<inter> set (addrs (Br a lf es cs)) = {}"
        using bnd by fastforce
      note ar = addrs_replace_child [OF dist pl d' s' [unfolded X_def] F, of es]
      have B: "\<forall>b \<in> set (addrs ?x'). b < arena t' + arenaOffset t'"
      proof
        fix b assume b: "b \<in> set (addrs ?x')"
        show "b < arena t' + arenaOffset t'"
        proof (cases "b \<in> set (addrs X')")
          case True
          with b' show ?thesis by blast
        next
          case False
          have "set (addrs ?x') \<subseteq> insert a (set (addrs X') \<union> (\<Union>y \<in> set cs. set (addrs y)))"
            using set_update_subset_insert [of cs pos X'] by auto
          with b False have "b \<in> set (addrs (Br a lf es cs))" by auto
          from bnd [OF this] off(1) rt(2) show ?thesis by simp
        qed
      qed
      have K: "addr (cs[pos := X'] ! 0) = addr (cs ! 0)"
        using a' pl by (cases "pos = 0") (simp_all add: X_def)
      have FR: "\<forall>b. b \<notin> set (addrs x) \<longrightarrow> b < ?nx \<longrightarrow> mem t' b = mem t b"
        using fr dX(2) x by auto
      have "insertNonFull c t (addr x) k v = Some (Inr t')
         \<and> repr (mem t') ?x' \<and> wf c (Suc h) ?x' \<and> addr ?x' = addr x \<and> distinct (addrs ?x')
         \<and> set (addrs ?x') \<subseteq> set (addrs x) \<union> {b. ?nx \<le> b}
         \<and> (\<forall>b \<in> set (addrs ?x'). b < arena t' + arenaOffset t')
         \<and> root t' = root t \<and> arena t' = arena t
         \<and> arenaOffset t \<le> arenaOffset t' \<and> arenaOffset t' \<le> ARENA_SIZE
         \<and> (kids x \<noteq> [] \<longrightarrow> kids ?x' \<noteq> [] \<and> addr (kids ?x' ! 0) = addr (kids x ! 0))
         \<and> (\<forall>b. b \<notin> set (addrs x) \<longrightarrow> b < ?nx \<longrightarrow> mem t' b = mem t b)"
        using step ins R W ar B rt off K FR cne unfolding x by simp
      then show ?thesis by blast
    qed
  next
    case True
    obtain f lf' es' cs' where Xe: "X = Br f lf' es' cs'" by (cases X)
    define pre where "pre = take pos cs"
    define post where "post = drop (Suc pos) cs"
    have cs: "cs = pre @ Br f lf' es' cs' # post"
      unfolding pre_def post_def Xe [symmetric] X_def using pl by (simp add: id_take_nth_drop)
    have lpre: "pos = length pre" using pl by (simp add: pre_def)
    have full: "length es' = MAX_KEYS c" using True Xe by simp
    have kids: "if lf' then cs' = [] else length cs' = length es' + 1"
      using wX Xe by (cases h) auto
    have fullX: "full c (mem t (addr X))" using kcX True by (simp add: full_def)
    show ?thesis
    proof (cases "arenaOffset t + sizeof_Node c \<le> ARENA_SIZE")
      case nofit: False
      have "insertNonFull c t (addr x) k v = Some (Inl OutOfArena)"
        unfolding x by (subst insertNonFull.simps)
          (simp add: nlf fp Let_def chX fullX splitChild_Inl [OF nofit])
      then show ?thesis by simp
    next
      case fit: True
      from splitChild_Inr [OF fit] obtain t1 where t1_def: "splitChild c t a pos = Inr t1" by blast
      let ?es1 = "take pos es @ es' ! (ORDER c) # drop pos es"
      let ?L = "Br f lf' (take (ORDER c) es') (take (ORDER c + 1) cs')"
      let ?R = "Br ?nx lf' (drop (ORDER c + 1) es') (drop (ORDER c + 1) cs')"
      let ?cs1 = "pre @ ?L # ?R # post"
      let ?p1 = "Br a lf ?es1 ?cs1"
      have fresh: "?nx \<notin> set (addrs (Br a lf es (pre @ Br f lf' es' cs' # post)))"
        using bnd cs by auto
      have rp: "repr (mem t) (Br a lf es (pre @ Br f lf' es' cs' # post))"
        using Suc.prems(1) x cs by simp
      have len: "length pre + length post = length es"
        using lcs cs by simp
      have dist': "distinct (addrs (Br a lf es (pre @ Br f lf' es' cs' # post)))"
        using dist cs by simp
      have r1: "repr (mem t1) ?p1"
        using splitChild_repr_ctx [OF vp rp lpre full nf len kids dist' refl fresh fit t1_def] .
      have fch: "f = child (mem t a) pos" using chX Xe by simp
      have ne: "a \<noteq> f" "?nx \<noteq> a" "?nx \<noteq> f" using dist' fresh by auto
      have kc: "keyCount (mem t a) < MAX_KEYS c" using Suc.prems(1) x nf by simp
      note st = splitChild_state [OF vp fch refl ne kc fit t1_def]
      have w1: "wf c (Suc h) ?p1"
        using wf_split [OF vp _ full nf, of h a lf pre f lf' cs' post ?nx] Suc.prems(2) x cs lpre len
        by simp
      have d1: "distinct (addrs ?p1)" and s1: "set (addrs ?p1) = insert ?nx (set (addrs (Br a lf es cs)))"
        using distinct_split [OF dist' fresh, of ?es1 "take (ORDER c) es'" "ORDER c + 1" "drop (ORDER c + 1) es'"]
        unfolding cs by simp_all
      have bnd1: "b < ?nx + sizeof_Node c" if "b \<in> set (addrs ?p1)" for b
      proof -
        from that have "b \<in> insert ?nx (set (addrs (Br a lf es cs)))" unfolding s1 .
        then show ?thesis
        proof (rule insertE)
          assume "b = ?nx" with pf(6) show ?thesis by simp
        next
          assume "b \<in> set (addrs (Br a lf es cs))"
          from bnd [OF this] show ?thesis by simp
        qed
      qed
      define pos1 where "pos1 = (if keys (mem t1 a) pos < k t1 then pos + 1 else pos)"
      have p1l: "pos1 < length ?cs1" using pl cs by (simp add: pos1_def)
      define Y where "Y = ?cs1 ! pos1"
      have Yin: "Y \<in> set ?cs1" unfolding Y_def using p1l by (rule nth_mem)
      have Ycases: "Y = ?L \<or> Y = ?R"
        unfolding Y_def pos1_def using lpre by (simp add: nth_append)
      have rY: "repr (mem t1) Y" using r1 Yin by (rule repr_child)
      have wY: "wf c h Y" using w1 Yin by (rule wf_child)
      have nfY: "length (ents Y) < MAX_KEYS c"
        using Ycases full pf by (auto simp: MAX_KEYS_def)
      note dY = distinct_child [OF d1 Yin]
      have nx1: "arena t1 + arenaOffset t1 = ?nx + sizeof_Node c" by (simp add: st)
      have bY: "\<forall>b \<in> set (addrs Y). b < arena t1 + arenaOffset t1"
      proof
        fix b assume "b \<in> set (addrs Y)"
        with dY(2) have "b \<in> set (addrs ?p1)" by blast
        from bnd1 [OF this] show "b < arena t1 + arenaOffset t1" unfolding nx1 .
      qed
      have chY: "child (mem t1 a) pos1 = addr Y" unfolding Y_def using r1 p1l by (rule repr_ptr)
      have off1: "arenaOffset t1 \<le> ARENA_SIZE" using fit by (simp add: st)
      note ih = Suc.IH [OF rY wY nfY dY(1) bY off1]
      have step: "insertNonFull c t (addr x) k v = insertNonFull c t1 (addr Y) k v"
        unfolding x by (subst insertNonFull.simps)
          (simp add: nlf fp Let_def chX fullX t1_def pos1_def [symmetric] chY)
      from ih show ?thesis
      proof (rule disjE)
        assume "insertNonFull c t1 (addr Y) k v = Some (Inl OutOfArena)"
        with step show ?thesis by simp
      next
        assume "\<exists>t' x'. insertNonFull c t1 (addr Y) k v = Some (Inr t')
           \<and> repr (mem t') x' \<and> wf c h x' \<and> addr x' = addr Y \<and> distinct (addrs x')
           \<and> set (addrs x') \<subseteq> set (addrs Y) \<union> {b. arena t1 + arenaOffset t1 \<le> b}
           \<and> (\<forall>b \<in> set (addrs x'). b < arena t' + arenaOffset t')
           \<and> root t' = root t1 \<and> arena t' = arena t1
           \<and> arenaOffset t1 \<le> arenaOffset t' \<and> arenaOffset t' \<le> ARENA_SIZE
           \<and> (kids Y \<noteq> [] \<longrightarrow> kids x' \<noteq> [] \<and> addr (kids x' ! 0) = addr (kids Y ! 0))
           \<and> (\<forall>b. b \<notin> set (addrs Y) \<longrightarrow> b < arena t1 + arenaOffset t1 \<longrightarrow> mem t' b = mem t1 b)"
        then obtain t' Y' where
          ins: "insertNonFull c t1 (addr Y) k v = Some (Inr t')"
          and r': "repr (mem t') Y'" and w': "wf c h Y'" and a': "addr Y' = addr Y"
          and d': "distinct (addrs Y')"
          and s': "set (addrs Y') \<subseteq> set (addrs Y) \<union> {b. arena t1 + arenaOffset t1 \<le> b}"
          and b': "\<forall>b \<in> set (addrs Y'). b < arena t' + arenaOffset t'"
          and rt: "root t' = root t1" "arena t' = arena t1"
          and off: "arenaOffset t1 \<le> arenaOffset t'" "arenaOffset t' \<le> ARENA_SIZE"
          and fr: "\<And>b. b \<notin> set (addrs Y) \<Longrightarrow> b < arena t1 + arenaOffset t1 \<Longrightarrow> mem t' b = mem t1 b"
          by blast
        let ?x' = "Br a lf ?es1 (?cs1[pos1 := Y'])"
        have R: "repr (mem t') ?x'"
        proof (rule repr_replace_child [OF r1 p1l d1 r'])
          show "addr Y' = addr (?cs1 ! pos1)" using a' by (simp add: Y_def)
          fix b assume b: "b \<in> set (addrs ?p1)" "b \<notin> set (addrs (?cs1 ! pos1))"
          from bnd1 [OF b(1)] have "b < arena t1 + arenaOffset t1" unfolding nx1 .
          with b(2) show "mem t' b = mem t1 b" by (intro fr) (simp_all add: Y_def)
        qed
        have wk: "\<And>y. y \<in> set ?cs1 \<Longrightarrow> wf c h y" using w1 by (rule wf_child)
        have "y \<in> set (?cs1[pos1 := Y']) \<Longrightarrow> wf c h y" for y
          using wk w' set_update_subset_insert [of ?cs1 pos1 Y'] by blast
        moreover have "length ?cs1 = length ?es1 + 1" "length ?es1 \<le> MAX_KEYS c" "\<not> lf"
          using w1 by simp_all
        ultimately have W: "wf c (Suc h) ?x'" by simp
        have F: "{b. arena t1 + arenaOffset t1 \<le> b} \<inter> set (addrs ?p1) = {}"
          unfolding nx1 using bnd1 by fastforce
        note ar = addrs_replace_child [OF d1 p1l d' s' [unfolded Y_def] F, of ?es1]
        have S: "set (addrs ?x') \<subseteq> set (addrs x) \<union> {b. ?nx \<le> b}"
          using ar(2) unfolding s1 nx1 x by auto
        have B: "\<forall>b \<in> set (addrs ?x'). b < arena t' + arenaOffset t'"
        proof
          fix b assume b: "b \<in> set (addrs ?x')"
          show "b < arena t' + arenaOffset t'"
          proof (cases "b \<in> set (addrs Y')")
            case True
            with b' show ?thesis by blast
          next
            case False
            have "set (addrs ?x') \<subseteq> insert a (set (addrs Y') \<union> (\<Union>y \<in> set ?cs1. set (addrs y)))"
              using set_update_subset_insert [of ?cs1 pos1 Y'] by auto
            with b False have "b \<in> set (addrs ?p1)" by auto
            from bnd1 [OF this] off(1) rt(2) nx1 show ?thesis by simp
          qed
        qed
        have "addr (?cs1 ! 0) = addr (cs ! 0)" unfolding cs by (cases pre) simp_all
        moreover have "addr (?cs1[pos1 := Y'] ! 0) = addr (?cs1 ! 0)"
          using a' p1l by (cases "pos1 = 0") (simp_all add: Y_def)
        ultimately have K: "addr (?cs1[pos1 := Y'] ! 0) = addr (cs ! 0)" by simp
        have FR: "\<forall>b. b \<notin> set (addrs x) \<longrightarrow> b < ?nx \<longrightarrow> mem t' b = mem t b"
        proof (intro allI impI)
          fix b assume b: "b \<notin> set (addrs x)" "b < ?nx"
          have "b \<notin> set (addrs Y)" using dY(2) s1 b x by auto
          with b(2) have "mem t' b = mem t1 b" by (intro fr) (simp_all add: nx1)
          moreover have "b \<noteq> ?nx" "b \<noteq> f" "b \<noteq> a" using b x cs by auto
          then have "mem t1 b = mem t b" by (rule st(4))
          ultimately show "mem t' b = mem t b" by simp
        qed
        have O: "arenaOffset t \<le> arenaOffset t'" using off(1) by (simp add: st)
        have "insertNonFull c t (addr x) k v = Some (Inr t')
           \<and> repr (mem t') ?x' \<and> wf c (Suc h) ?x' \<and> addr ?x' = addr x \<and> distinct (addrs ?x')
           \<and> set (addrs ?x') \<subseteq> set (addrs x) \<union> {b. ?nx \<le> b}
           \<and> (\<forall>b \<in> set (addrs ?x'). b < arena t' + arenaOffset t')
           \<and> root t' = root t \<and> arena t' = arena t
           \<and> arenaOffset t \<le> arenaOffset t' \<and> arenaOffset t' \<le> ARENA_SIZE
           \<and> (kids x \<noteq> [] \<longrightarrow> kids ?x' \<noteq> [] \<and> addr (kids ?x' ! 0) = addr (kids x ! 0))
           \<and> (\<forall>b. b \<notin> set (addrs x) \<longrightarrow> b < ?nx \<longrightarrow> mem t' b = mem t b)"
          using step ins R W ar(1) S B rt off(2) O K FR st(1,2) unfolding x by simp
        then show ?thesis by blast
      qed
    qed
  qed
qed

lemma insert_kv_shape:
  assumes vp: "valid_params c" and S: "shaped c st h t"
  shows "insert_kv c st k v = Some (Inl OutOfArena) \<or>
    (\<exists>st' h' t'. insert_kv c st k v = Some (Inr st') \<and> shaped c st' h' t'
       \<and> (if full c (mem st (root st))
           then h' = Suc h \<and> root st' \<noteq> root st \<and> child (mem st' (root st')) 0 = root st
           else h' = h \<and> root st' = root st))"
proof -
  note pf = params_facts [OF vp]
  let ?nx = "arena st + arenaOffset st"
  from S have rp: "repr (mem st) t" and rt: "addr t = root st" and w: "wf c h t"
    and d: "distinct (addrs t)" and b: "\<forall>a \<in> set (addrs t). a < ?nx"
    and inb: "arenaOffset st \<le> ARENA_SIZE"
    by (simp_all add: shaped_def)
  have kc: "keyCount (mem st (root st)) = length (ents t)"
    using repr_keyCount [OF rp] rt by simp
  show ?thesis
  proof (cases "length (ents t) = MAX_KEYS c")
    case False
    have lt: "length (ents t) < MAX_KEYS c" using w False by (rule wf_ents_lt)
    have nfl: "\<not> full c (mem st (root st))" using False by (simp add: full_def kc)
    have unf: "insert_kv c st k v = insertNonFull c st (addr t) k v"
      using False rt by (simp add: insert_kv_def Let_def full_def kc)
    from insertNonFull_shape [OF vp rp w lt d b inb, of k v] show ?thesis
    proof (rule disjE)
      assume "insertNonFull c st (addr t) k v = Some (Inl OutOfArena)"
      with unf show ?thesis by simp
    next
      assume "\<exists>t' x'. insertNonFull c st (addr t) k v = Some (Inr t')
         \<and> repr (mem t') x' \<and> wf c h x' \<and> addr x' = addr t \<and> distinct (addrs x')
         \<and> set (addrs x') \<subseteq> set (addrs t) \<union> {b. ?nx \<le> b}
         \<and> (\<forall>b \<in> set (addrs x'). b < arena t' + arenaOffset t')
         \<and> root t' = root st \<and> arena t' = arena st
         \<and> arenaOffset st \<le> arenaOffset t' \<and> arenaOffset t' \<le> ARENA_SIZE
         \<and> (kids t \<noteq> [] \<longrightarrow> kids x' \<noteq> [] \<and> addr (kids x' ! 0) = addr (kids t ! 0))
         \<and> (\<forall>b. b \<notin> set (addrs t) \<longrightarrow> b < ?nx \<longrightarrow> mem t' b = mem st b)"
      then obtain st' x' where
        ins: "insertNonFull c st (addr t) k v = Some (Inr st')"
        and r: "repr (mem st') x'" "wf c h x'" "addr x' = addr t" "distinct (addrs x')"
          "\<forall>b \<in> set (addrs x'). b < arena st' + arenaOffset st'"
          "root st' = root st" "arenaOffset st' \<le> ARENA_SIZE"
        by blast
      have "shaped c st' h x'" unfolding shaped_def using r rt by simp
      with unf ins r(6) nfl show ?thesis by auto
    qed
  next
    case True
    have fl: "full c (mem st (root st))" using True by (simp add: full_def kc)
    obtain f lf' es' cs' where t: "t = Br f lf' es' cs'" by (cases t)
    have f: "length es' = MAX_KEYS c" "f = root st" using True t rt by simp_all
    let ?L = "Br f lf' (take (ORDER c) es') (take (ORDER c + 1) cs')"
    let ?R = "Br (?nx + sizeof_Node c) lf' (drop (ORDER c + 1) es') (drop (ORDER c + 1) cs')"
    let ?p1 = "Br ?nx False [es' ! ORDER c] [?L, ?R]"
    show ?thesis
    proof (cases "arenaOffset st + sizeof_Node c \<le> ARENA_SIZE")
      case nofit1: False
      have "insert_kv c st k v = Some (Inl OutOfArena)"
        using True by (simp add: insert_kv_def Let_def full_def kc allocNode_Inl [OF nofit1])
      then show ?thesis by simp
    next
      case fit1: True
      define t1 where "t1 = modify ?nx
          (\<lambda>n. n\<lparr>leaf := False, keyCount := 0, child := memset0 (child n) (MAX_CHILD c)\<rparr>)
          (st\<lparr>arenaOffset := arenaOffset st + sizeof_Node c\<rparr>)"
      define t3 where "t3 = modify ?nx (\<lambda>n. n\<lparr>child := (child n)(0 := root st)\<rparr>) (t1\<lparr>root := ?nx\<rparr>)"
      have al: "allocNode c st False = Inr (?nx, t1)"
        unfolding t1_def by (rule allocNode_Inr [OF fit1])
      have e3: "root t3 = ?nx" "arena t3 = arena st" "arenaOffset t3 = arenaOffset st + sizeof_Node c"
        by (simp_all add: t3_def t1_def)
      have unf3: "insert_kv c st k v =
          (case splitChild c t3 ?nx 0 of Inl e \<Rightarrow> Some (Inl e)
           | Inr t4 \<Rightarrow> insertNonFull c t4 ?nx k v)"
        using \<open>length (ents t) = MAX_KEYS c\<close>
        by (simp add: insert_kv_def Let_def full_def kc al t3_def)
      show ?thesis
      proof (cases "arenaOffset t3 + sizeof_Node c \<le> ARENA_SIZE")
        case nofit2: False
        have "insert_kv c st k v = Some (Inl OutOfArena)"
          unfolding unf3 splitChild_Inl [OF nofit2] by simp
        then show ?thesis by simp
      next
        case fit2: True
        from splitChild_Inr [OF fit2] obtain t4 where t4: "splitChild c t3 ?nx 0 = Inr t4" by blast
        have unf: "insert_kv c st k v = insertNonFull c t4 ?nx k v"
          unfolding unf3 t4 by simp
        have m3: "mem t3 a = mem st a" if "a \<noteq> ?nx" for a
          using that by (simp add: t3_def t1_def)
        have n3: "leaf (mem t3 ?nx) = False" "keyCount (mem t3 ?nx) = 0" "child (mem t3 ?nx) 0 = root st"
          by (simp_all add: t3_def t1_def)
        have "repr (mem t3) t"
          using rp by (rule repr_frame) (use b m3 in fastforce)
        then have r0: "repr (mem t3) (Br ?nx False [] ([] @ Br f lf' es' cs' # []))"
          using n3 t f by simp
        have kids: "if lf' then cs' = [] else length cs' = length es' + 1"
          using w t by (cases h) auto
        have d0: "distinct (addrs (Br ?nx False [] ([] @ Br f lf' es' cs' # [])))"
          using d b t by auto
        have new: "?nx + sizeof_Node c = arena t3 + arenaOffset t3" by (simp add: e3)
        have fresh: "?nx + sizeof_Node c \<notin> set (addrs (Br ?nx False [] ([] @ Br f lf' es' cs' # [])))"
          using b t pf(6) by auto
        have r1: "repr (mem t4) ?p1"
          using splitChild_repr_ctx [OF vp r0 _ f(1) _ _ kids d0 new fresh fit2 t4] pf(3) by simp
        have fch: "f = child (mem t3 ?nx) 0" using n3 f by simp
        have ne: "?nx \<noteq> f" "?nx + sizeof_Node c \<noteq> ?nx" "?nx + sizeof_Node c \<noteq> f"
          using b t pf(6) by auto
        have kc3: "keyCount (mem t3 ?nx) < MAX_KEYS c" using n3 pf(3) by simp
        note st = splitChild_state [OF vp fch new ne kc3 fit2 t4]
        have e4: "root t4 = ?nx" "arena t4 = arena st" "arena t4 + arenaOffset t4 = ?nx + 2 * sizeof_Node c"
          by (simp_all add: st e3)
        have inb4: "arenaOffset t4 \<le> ARENA_SIZE" using fit2 by (simp add: st)
        have w0: "wf c (Suc h) (Br ?nx False [] ([] @ Br f lf' es' cs' # []))" using w t by simp
        have w1: "wf c (Suc h) ?p1"
          using wf_split [OF vp w0 f(1), of "?nx + sizeof_Node c"] pf(3) by simp
        have l1: "length (ents ?p1) < MAX_KEYS c" using pf(5) by (simp add: MAX_KEYS_def)
        note ds = distinct_split [OF d0 fresh, of "[es' ! ORDER c]" "take (ORDER c) es'" "ORDER c + 1"
            "drop (ORDER c + 1) es'"]
        have d1: "distinct (addrs ?p1)" using ds(1) by simp
        have s0: "set (addrs (Br ?nx False [] [t])) = insert ?nx (set (addrs t))" by simp
        have s1: "set (addrs ?p1) = insert (?nx + sizeof_Node c) (insert ?nx (set (addrs t)))"
          using ds(2) [unfolded append_Nil, folded t] unfolding s0 .
        have b1: "\<forall>a \<in> set (addrs ?p1). a < arena t4 + arenaOffset t4"
          unfolding s1 e4(3) using b pf(6) by auto
        have a1: "addr ?p1 = ?nx" by simp
        from insertNonFull_shape [OF vp r1 w1 l1 d1 b1 inb4, of k v, unfolded a1] show ?thesis
        proof (rule disjE)
          assume "insertNonFull c t4 ?nx k v = Some (Inl OutOfArena)"
          with unf show ?thesis by simp
        next
          assume "\<exists>t' x'. insertNonFull c t4 ?nx k v = Some (Inr t')
             \<and> repr (mem t') x' \<and> wf c (Suc h) x' \<and> addr x' = ?nx \<and> distinct (addrs x')
             \<and> set (addrs x') \<subseteq> set (addrs ?p1) \<union> {b. arena t4 + arenaOffset t4 \<le> b}
             \<and> (\<forall>b \<in> set (addrs x'). b < arena t' + arenaOffset t')
             \<and> root t' = root t4 \<and> arena t' = arena t4
             \<and> arenaOffset t4 \<le> arenaOffset t' \<and> arenaOffset t' \<le> ARENA_SIZE
             \<and> (kids ?p1 \<noteq> [] \<longrightarrow> kids x' \<noteq> [] \<and> addr (kids x' ! 0) = addr (kids ?p1 ! 0))
             \<and> (\<forall>b. b \<notin> set (addrs ?p1) \<longrightarrow> b < arena t4 + arenaOffset t4 \<longrightarrow> mem t' b = mem t4 b)"
          then obtain st' x' where
            ins: "insertNonFull c t4 ?nx k v = Some (Inr st')"
            and r: "repr (mem st') x'" "wf c (Suc h) x'" "addr x' = ?nx" "distinct (addrs x')"
              "\<forall>b \<in> set (addrs x'). b < arena st' + arenaOffset st'"
              "root st' = root t4" "arenaOffset st' \<le> ARENA_SIZE"
            and kd: "kids ?p1 \<noteq> [] \<longrightarrow> kids x' \<noteq> [] \<and> addr (kids x' ! 0) = addr (kids ?p1 ! 0)"
            by blast
          have sh: "shaped c st' (Suc h) x'" unfolding shaped_def using r e4(1) by simp
          have "root st \<in> set (addrs t)" using rt by (cases t) auto
          with b have "root st < ?nx" by blast
          then have ne': "root st' \<noteq> root st" using r(6) e4(1) by simp
          from kd have k0: "kids x' \<noteq> []" "addr (kids x' ! 0) = f" by simp_all
          obtain a2 lf2 es2 cs2 where xe: "x' = Br a2 lf2 es2 cs2" by (cases x')
          have "child (mem st' (root st')) 0 = addr (kids x' ! 0)"
            using r(1,3,6) e4(1) k0(1) xe by simp
          with k0(2) f(2) have c0: "child (mem st' (root st')) 0 = root st" by simp
          from unf ins sh ne' c0 fl show ?thesis by auto
        qed
      qed
    qed
  qed
qed

text \<open>With \<open>ORDER\<close> above 32767 the root stays the one leaf, which never reads as full.\<close>

lemma insert_kv_big:
  assumes big: "65535 < MAX_KEYS c" and S: "shaped c st 0 t" and n: "length (ents t) < 65536"
  shows "\<exists>st' t'. insert_kv c st k v = Some (Inr st') \<and> shaped c st' 0 t'
     \<and> length (ents t') < 65536 \<and> root st' = root st"
proof -
  obtain a lf es cs where t: "t = Br a lf es cs" by (cases t)
  from S t have rp: "repr (mem st) (Br a True es [])" and rt: "a = root st"
    and b: "a < arena st + arenaOffset st" and inb: "arenaOffset st \<le> ARENA_SIZE"
    by (auto simp: shaped_def)
  have kc: "keyCount (mem st a) = length es" and l: "leaf (mem st a)" using rp by simp_all
  have unf: "insert_kv c st k v = insertNonFull c st a k v"
    using big n t by (simp add: insert_kv_def Let_def full_def kc rt [symmetric])
  from insertNonFull_leaf_any [OF l, of c k v] obtain st' where
    s: "insertNonFull c st a k v = Some (Inr st')" "leaf (mem st' a)"
      "keyCount (mem st' a) = u16 (int (keyCount (mem st a)) + 1)"
      "root st' = root st" "arena st' = arena st" "arenaOffset st' = arenaOffset st"
    by blast
  from repr_leaf_any [of "mem st'" a, OF s(2)] obtain es1 where
    e: "repr (mem st') (Br a True es1 [])" "length es1 = keyCount (mem st' a)" by blast
  have "u16 x < 65536" for x by (simp add: u16_def)
  with e(2) s(3) have l1: "length es1 < 65536" by simp
  have "shaped c st' 0 (Br a True es1 [])"
    unfolding shaped_def using e(1) l1 big rt b inb s(4,5,6) by simp
  with unf s(1,4) l1 show ?thesis by auto
qed

text \<open>Sequences of inserts whose arguments are any references.\<close>

lemma inserts_shape:
  assumes o: "0 < ORDER c" and sz: "0 < sizeof_Node c"
  shows "shaped c st h t \<Longrightarrow> valid_params c \<or> h = 0 \<and> length (ents t) < 65536 \<Longrightarrow>
    inserts c st args = Some (Inl OutOfArena) \<or>
    (\<exists>st' h' t'. inserts c st args = Some (Inr st') \<and> shaped c st' h' t'
        \<and> (valid_params c \<or> h' = 0 \<and> length (ents t') < 65536))"
proof (induction args arbitrary: st h t)
  case Nil
  then show ?case by auto
next
  case (Cons kv args)
  obtain k v where kv: "kv = (k, v)" by (cases kv)
  have "insert_kv c st k v = Some (Inl OutOfArena) \<or>
    (\<exists>st1 h1 t1. insert_kv c st k v = Some (Inr st1) \<and> shaped c st1 h1 t1
        \<and> (valid_params c \<or> h1 = 0 \<and> length (ents t1) < 65536))"
  proof (cases "valid_params c")
    case True
    from insert_kv_shape [OF True Cons.prems(1), of k v] True show ?thesis by blast
  next
    case False
    with o sz have big: "65535 < MAX_KEYS c" by (simp add: valid_params_def MAX_KEYS_def)
    from False Cons.prems(2) have h: "h = 0" "length (ents t) < 65536" by simp_all
    from insert_kv_big [OF big Cons.prems(1) [unfolded h(1)] h(2), of k v] show ?thesis by blast
  qed
  then show ?case
  proof (rule disjE)
    assume "insert_kv c st k v = Some (Inl OutOfArena)"
    then show ?thesis by (simp add: kv)
  next
    assume "\<exists>st1 h1 t1. insert_kv c st k v = Some (Inr st1) \<and> shaped c st1 h1 t1
        \<and> (valid_params c \<or> h1 = 0 \<and> length (ents t1) < 65536)"
    then obtain st1 h1 t1 where
      s: "insert_kv c st k v = Some (Inr st1)" "shaped c st1 h1 t1"
        "valid_params c \<or> h1 = 0 \<and> length (ents t1) < 65536" by blast
    from Cons.IH [OF s(2,3)] s(1) show ?thesis by (simp add: kv)
  qed
qed

lemma built_shape:
  assumes o: "0 < ORDER c" and sz: "0 < sizeof_Node c"
  shows "built c base m0 args = Some (Inl OutOfArena) \<or>
    (\<exists>st h t. built c base m0 args = Some (Inr st) \<and> shaped c st h t
        \<and> (valid_params c \<or> h = 0 \<and> length (ents t) < 65536))"
proof (cases "sizeof_Node c \<le> ARENA_SIZE")
  case False
  then show ?thesis by (simp add: built_fault)
next
  case True
  from new_holds [OF sz True, of base m0] obtain t0 where
    n: "HFTBTree_new c base m0 = Inr t0" "holds c t0 0 (Br base True [] [])" by blast
  have b: "built c base m0 args = inserts c t0 args" by (simp add: built_def n(1))
  have "valid_params c \<or> (0::nat) = 0 \<and> length (ents (Br base True [] [])) < 65536" by simp
  from inserts_shape [OF o sz holds_shaped [OF n(2)] this, of args] show ?thesis
    unfolding b .
qed

lemma reach_nodes_at_shaped:
  assumes S: "shaped c st h t"
  shows "reach st d p \<Longrightarrow> \<exists>x \<in> set (nodes_at d t). addr x = p"
proof (induction rule: reach.induct)
  case reach_root
  from S show ?case by (simp add: shaped_def)
next
  case (reach_child d p i)
  from S have rp: "repr (mem st) t" and w: "wf c h t" by (simp_all add: shaped_def)
  from reach_child.IH obtain x where x: "x \<in> set (nodes_at d t)" "addr x = p" by blast
  obtain a lf es cs where xe: "x = Br a lf es cs" by (cases x)
  have rx: "repr (mem st) x" using rp x(1) by (rule repr_nodes_at)
  have wx: "wf c (h - d) x" using wf_nodes_at [OF w x(1)] by simp
  from rx xe x(2) reach_child.hyps(2) have nl: "\<not> lf" and kc: "keyCount (mem st p) = length es"
    by simp_all
  from wx xe nl have lc: "length cs = length es + 1" by (cases "h - d") simp_all
  with reach_child.hyps(3) kc have i: "i < length cs" by simp
  then have "cs ! i \<in> set (kids x)" using xe by simp
  with x(1) have "cs ! i \<in> set (nodes_at (Suc d) t)" unfolding nodes_at_Suc by blast
  moreover have "addr (cs ! i) = child (mem st p) i" using rx xe x(2) i by simp
  ultimately show ?case by blast
qed

lemma reach_shaped:
  assumes S: "shaped c st h t" and r: "reach st d p"
  obtains x where "addr x = p" "repr (mem st) x" "wf c (h - d) x" "d \<le> h"
proof -
  from S have rp: "repr (mem st) t" and w: "wf c h t" by (simp_all add: shaped_def)
  from reach_nodes_at_shaped [OF S r] obtain x where x: "x \<in> set (nodes_at d t)" "addr x = p" by blast
  from repr_nodes_at [OF rp x(1)] wf_nodes_at [OF w x(1)] x(2) that
  show ?thesis by blast
qed

lemma search_shaped:
  assumes "shaped c st h t"
  shows "search st k = Some (a_search h t k, st)"
  using assms search_loop_refines [of st t c h k] by (simp add: shaped_def search_def)

section \<open>The scenario with \<open>ORDER = 2\<close>\<close>

lemma scenario_four:
  assumes "ORDER c = 2"
  shows "a_inserts c 0 nx (Br base True [] []) [(1::int, v1), (2, v2), (3, v3), (4, v4)] =
    ((Br base True [(1, v1), (2, v2), (3, v3), (4, v4)] [], nx), 0)"
  using assms by (simp add: a_eval)

lemma scenario_five:
  assumes "ORDER c = 2"
  shows "a_insert c 0 nx (Br base True [(1::int, v1), (2, v2), (3, v3), (4, v4)] []) 5 v5 =
    ((Br nx False [(3, v3)]
        [Br base True [(1, v1), (2, v2)] [],
         Br (nx + sizeof_Node c) True [(4, v4), (5, v5)] []], nx + 2 * sizeof_Node c), Suc 0)"
  using assms by (simp add: a_eval)

lemma scenario_all:
  assumes "ORDER c = 2"
  shows "a_inserts c 0 nx (Br base True [] [])
      [(1::int, v1), (2, v2), (3, v3), (4, v4), (5, v5)] =
    ((Br nx False [(3, v3)]
        [Br base True [(1, v1), (2, v2)] [],
         Br (nx + sizeof_Node c) True [(4, v4), (5, v5)] []], nx + 2 * sizeof_Node c), Suc 0)"
  using assms by (simp add: a_eval)

lemma scenario_dup:
  assumes "ORDER c = 2"
  shows "a_inserts c 0 nx (Br base True [] [])
      [(1::int, v1), (2, v2), (2, w2), (3, v3), (4, v4)] =
    ((Br nx False [(2, w2)]
        [Br base True [(1, v1), (2, v2)] [],
         Br (nx + sizeof_Node c) True [(3, v3), (4, v4)] []], nx + 2 * sizeof_Node c), Suc 0)"
  using assms by (simp add: a_eval)

lemma scenario_states:
  assumes vp: "valid_params c" and o: "ORDER c = 2" and fit: "3 * sizeof_Node c \<le> ARENA_SIZE"
  shows "\<exists>t4 t5.
    built c base m0 (objs [(1::int, v1), (2, v2), (3, v3), (4, v4)]) = Some (Inr t4)
    \<and> holds c t4 0 (Br base True [(1, v1), (2, v2), (3, v3), (4, v4)] [])
    \<and> arenaOffset t4 = sizeof_Node c
    \<and> insert_kv c t4 (\<lambda>_. 5) (\<lambda>_. v5) = Some (Inr t5)
    \<and> holds c t5 (Suc 0) (Br (base + sizeof_Node c) False [(3, v3)]
        [Br base True [(1, v1), (2, v2)] [],
         Br (base + sizeof_Node c + sizeof_Node c) True [(4, v4), (5, v5)] []])"
proof -
  from fit have f1: "sizeof_Node c \<le> ARENA_SIZE" by simp
  have c1: "base + sizeof_Node c \<le> base + ARENA_SIZE" using f1 by simp
  from built_eval [OF vp f1 scenario_four [OF o], of base m0 v1 v2 v3 v4, unfolded if_P [OF c1]]
  obtain t4 where
    a: "built c base m0 (objs [(1, v1), (2, v2), (3, v3), (4, v4)]) = Some (Inr t4)"
      "holds c t4 0 (Br base True [(1, v1), (2, v2), (3, v3), (4, v4)] [])"
      "arena t4 = base" "arena t4 + arenaOffset t4 = base + sizeof_Node c"
    by blast
  from a(3,4) have off: "arenaOffset t4 = sizeof_Node c" by simp
  have le: "base + sizeof_Node c + 2 * sizeof_Node c \<le> base + ARENA_SIZE" using fit by simp
  from insert_kv_holds [OF vp a(2) scenario_five [OF o], of v5, unfolded a(4), unfolded a(3),
      unfolded if_P [OF le]]
  obtain t5 where
    b: "insert_kv c t4 (\<lambda>_. 5) (\<lambda>_. v5) = Some (Inr t5)"
      "holds c t5 (Suc 0) (Br (base + sizeof_Node c) False [(3, v3)]
        [Br base True [(1, v1), (2, v2)] [],
         Br (base + sizeof_Node c + sizeof_Node c) True [(4, v4), (5, v5)] []])"
    by blast
  from a(1,2) off b show ?thesis by blast
qed

lemma holds_leaf:
  assumes "holds c st 0 (Br a True es [])"
  shows "root st = a" "leaf (mem st a)" "keyCount (mem st a) = length es"
    "node_keys (mem st a) = map fst es" "node_vals (mem st a) = map snd es"
proof -
  from assms have r: "repr (mem st) (Br a True es [])" and a: "root st = a"
    by (auto simp: holds_def)
  from a show "root st = a" .
  from r show "leaf (mem st a)" "keyCount (mem st a) = length es" by simp_all
  from r show "node_keys (mem st a) = map fst es" by (rule repr_node_keys)
  from r show "node_vals (mem st a) = map snd es" by (rule repr_node_vals)
qed

lemma holds_two:
  assumes "holds c st (Suc 0) (Br r False [e] [Br a True es1 [], Br b True es2 []])"
  shows "root st = r" "\<not> leaf (mem st r)" "keyCount (mem st r) = Suc 0"
    "keys (mem st r) 0 = fst e" "node_keys (mem st r) = [fst e]" "node_vals (mem st r) = [snd e]"
    "child (mem st r) 0 = a" "child (mem st r) (Suc 0) = b"
    "leaf (mem st a)" "leaf (mem st b)"
    "node_keys (mem st a) = map fst es1" "node_keys (mem st b) = map fst es2"
    "keyCount (mem st a) = length es1" "keyCount (mem st b) = length es2"
    "\<And>i. i < length es1 \<Longrightarrow> keys (mem st a) i = fst (es1 ! i)"
    "\<And>i. i < length es2 \<Longrightarrow> keys (mem st b) i = fst (es2 ! i)"
proof -
  from assms have r: "repr (mem st) (Br r False [e] [Br a True es1 [], Br b True es2 []])"
    and rt: "root st = r" by (auto simp: holds_def)
  from r have ra: "repr (mem st) (Br a True es1 [])" and rb: "repr (mem st) (Br b True es2 [])"
    by simp_all
  from rt show "root st = r" .
  from r show "\<not> leaf (mem st r)" "keyCount (mem st r) = Suc 0" "keys (mem st r) 0 = fst e"
    "child (mem st r) 0 = a" "child (mem st r) (Suc 0) = b" by simp_all
  from repr_node_keys [OF r] show "node_keys (mem st r) = [fst e]" by simp
  from repr_node_vals [OF r] show "node_vals (mem st r) = [snd e]" by simp
  from ra show "leaf (mem st a)" "keyCount (mem st a) = length es1"
    "\<And>i. i < length es1 \<Longrightarrow> keys (mem st a) i = fst (es1 ! i)" by simp_all
  from rb show "leaf (mem st b)" "keyCount (mem st b) = length es2"
    "\<And>i. i < length es2 \<Longrightarrow> keys (mem st b) i = fst (es2 ! i)" by simp_all
  from ra show "node_keys (mem st a) = map fst es1" by (rule repr_node_keys)
  from rb show "node_keys (mem st b) = map fst es2" by (rule repr_node_keys)
qed

lemma ex_params_valid: "valid_params ex_params" and ex_params_order: "ORDER ex_params = 2"
  and ex_params_fit: "3 * sizeof_Node ex_params \<le> ARENA_SIZE"
  and ex_params_fit1: "sizeof_Node ex_params \<le> ARENA_SIZE"
  by (simp_all add: valid_params_def ex_params_def ARENA_SIZE_def)

section \<open>Runs on concrete instantiations\<close>

lemma search_slot_leaf:
  assumes "repr (mem t) (Br a True es [])"
  shows "search_slot_loop t a k =
    Some (if lb es k < length es \<and> fst (es ! lb es k) = k then Some (a, lb es k) else None)"
proof -
  from assms have fp: "findPos (mem t a) k = lb es k" by (intro findPos_lb) simp_all
  have kk: "lb es k < length es \<Longrightarrow> keys (mem t a) (lb es k) = fst (es ! lb es k)"
    using assms by simp
  from assms kk show ?thesis
    by (subst search_slot_loop.simps) (auto simp add: fp Let_def)
qed

lemma ex_pairs_length: "length (ex_pairs n) = n"
  by (simp add: ex_pairs_def)

lemma ex_pairs_distinct: "distinct (map fst (ex_pairs n))"
  by (simp add: ex_pairs_def distinct_map comp_def inj_on_def)

lemma ex_pairs_zero: "0 < n \<Longrightarrow> (0, 0) \<in> set (ex_pairs n)"
  by (force simp: ex_pairs_def)

lemma ex_big_facts: "0 < sizeof_Node ex_big" "65535 < MAX_KEYS ex_big"
  "sizeof_Node ex_big \<le> ARENA_SIZE"
  by (simp_all add: ex_big_def MAX_KEYS_def ARENA_SIZE_def)

lemma ex_wide_facts: "valid_params ex_wide" "ORDER ex_wide = 1"
  "sizeof_Node ex_wide = 16777280" "sizeof_Node ex_wide \<le> ARENA_SIZE"
  by (simp_all add: ex_wide_def valid_params_def ARENA_SIZE_def)

text \<open>After 65536 inserts the leaf of the big instantiation reads as empty.\<close>

lemma big_wrapped:
  "\<exists>st. built ex_big base m0 (objs (ex_pairs 65536)) = Some (Inr st)
      \<and> holds ex_big st 0 (Br base True [] [])"
proof -
  have "length (foldl wrap_ins [] (ex_pairs 65536)) = 0"
    using foldl_wrap_length [of "[]" "ex_pairs 65536"] by (simp add: ex_pairs_length)
  then have "foldl wrap_ins [] (ex_pairs 65536) = []" by simp
  with big_built [OF ex_big_facts, of base m0 "ex_pairs 65536"] show ?thesis by simp
qed

lemma big_wrapped_again:
  "\<exists>st. built ex_big base m0 (objs (ex_pairs 65536 @ [(0, 1)])) = Some (Inr st)
      \<and> holds ex_big st 0 (Br base True [(0, 1)] [])"
proof -
  have "length (foldl wrap_ins [] (ex_pairs 65536)) = 0"
    using foldl_wrap_length [of "[]" "ex_pairs 65536"] by (simp add: ex_pairs_length)
  then have "foldl wrap_ins [] (ex_pairs 65536 @ [(0, 1)]) = [(0, 1)]"
    by (simp add: leaf_ins_def ipos_def)
  with big_built [OF ex_big_facts, of base m0 "ex_pairs 65536 @ [(0, 1)]"] show ?thesis by simp
qed

text \<open>Runs with \<open>ORDER = 2\<close>.\<close>

lemma scenario_built5:
  assumes vp: "valid_params c" and o: "ORDER c = 2" and fit: "3 * sizeof_Node c \<le> ARENA_SIZE"
  shows "\<exists>t5. built c base m0 (objs [(1::int, v1), (2, v2), (3, v3), (4, v4), (5, v5)]) = Some (Inr t5)
    \<and> holds c t5 (Suc 0) (Br (base + sizeof_Node c) False [(3, v3)]
        [Br base True [(1, v1), (2, v2)] [],
         Br (base + sizeof_Node c + sizeof_Node c) True [(4, v4), (5, v5)] []])"
proof -
  from fit have f1: "sizeof_Node c \<le> ARENA_SIZE" by simp
  have le: "base + sizeof_Node c + 2 * sizeof_Node c \<le> base + ARENA_SIZE" using fit by simp
  from built_eval [OF vp f1 scenario_all [OF o], of base m0 v1 v2 v3 v4 v5, unfolded if_P [OF le]]
  show ?thesis by blast
qed

lemma scenario_built_dup:
  assumes vp: "valid_params c" and o: "ORDER c = 2" and fit: "3 * sizeof_Node c \<le> ARENA_SIZE"
  shows "\<exists>t5. built c base m0 (objs [(1::int, v1), (2, v2), (2, w2), (3, v3), (4, v4)]) = Some (Inr t5)
    \<and> holds c t5 (Suc 0) (Br (base + sizeof_Node c) False [(2, w2)]
        [Br base True [(1, v1), (2, v2)] [],
         Br (base + sizeof_Node c + sizeof_Node c) True [(3, v3), (4, v4)] []])"
proof -
  from fit have f1: "sizeof_Node c \<le> ARENA_SIZE" by simp
  have le: "base + sizeof_Node c + 2 * sizeof_Node c \<le> base + ARENA_SIZE" using fit by simp
  from built_eval [OF vp f1 scenario_dup [OF o], of base m0 v1 v2 w2 v3 v4, unfolded if_P [OF le]]
  show ?thesis by blast
qed

lemma leaf_run:
  assumes vp: "valid_params c" and fit: "sizeof_Node c \<le> ARENA_SIZE"
    and e: "a_inserts c 0 (base + sizeof_Node c) (Br base True [] []) kvs =
      ((Br base True es [], base + sizeof_Node c), 0)"
  shows "\<exists>st. built c base m0 (objs kvs) = Some (Inr st) \<and> holds c st 0 (Br base True es [])"
proof -
  have le: "base + sizeof_Node c \<le> base + ARENA_SIZE" using fit by simp
  from built_eval [OF vp fit e, of m0, unfolded if_P [OF le]] show ?thesis by blast
qed

lemma leaf_evals:
  assumes "ORDER c = 2"
  shows "a_inserts c 0 nx (Br base True [] []) [(2::int, v2), (3, v3)] =
      ((Br base True [(2, v2), (3, v3)] [], nx), 0)"
    and "a_inserts c 0 nx (Br base True [] []) [(5::int, v5), (6, v6)] =
      ((Br base True [(5, v5), (6, v6)] [], nx), 0)"
    and "a_inserts c 0 nx (Br base True [] []) [(1::int, v1), (2, v2), (3, v3), (2, w2)] =
      ((Br base True [(1, v1), (2, v2), (2, w2), (3, v3)] [], nx), 0)"
  using assms by (simp_all add: a_eval)

text \<open>Runs with \<open>ORDER = 1\<close>.\<close>

lemma wide_four:
  assumes "ORDER c = 1"
  shows "a_inserts c 0 nx (Br base True [] []) [(1::int, v1), (2, v2), (3, v3), (4, v4)] =
    ((Br nx False [(2, v2)]
        [Br base True [(1, v1)] [],
         Br (nx + sizeof_Node c) True [(3, v3), (4, v4)] []], nx + 2 * sizeof_Node c), Suc 0)"
  using assms by (simp add: a_eval)

lemma wide_five:
  assumes "ORDER c = 1"
  shows "a_inserts c 0 nx (Br base True [] []) [(1::int, v1), (2, v2), (3, v3), (4, v4), (5, v5)] =
    ((Br nx False [(2, v2), (4, v4)]
        [Br base True [(1, v1)] [],
         Br (nx + sizeof_Node c) True [(3, v3)] [],
         Br (nx + 2 * sizeof_Node c) True [(5, v5)] []], nx + 3 * sizeof_Node c), Suc 0)"
  using assms by (simp add: a_eval)

section \<open>The properties of the tree\<close>

lemma ex_params_pos: "0 < ORDER ex_params" "0 < sizeof_Node ex_params"
  by (simp_all add: ex_params_def)

text \<open>
  C1, amended. For \<open>ORDER\<close> from 1 to 32767 and every sequence of pairs with pairwise distinct
  keys, passed to \<^verbatim>\<open>insert\<close> as objects outside the tree's storage: the run of the
  constructor and the inserts of every prefix ends, with a tree or, at the first node that
  does not fit the arena, with \<open>OutOfArena\<close>; and whenever it ends with a tree,
  \<^verbatim>\<open>search(k)\<close> returns the value inserted with \<open>k\<close>, for each key of the prefix.
\<close>

theorem lookup_completeness:
  assumes "valid_params c" and "distinct (map fst kvs)" and "(k, v) \<in> set (take n kvs)"
  shows "(\<exists>r. built c base m0 (objs (take n kvs)) = Some r)
    \<and> (\<forall>st. built c base m0 (objs (take n kvs)) = Some (Inr st) \<longrightarrow>
          search st k = Some (Some v, st))"
proof -
  have "search st' k = Some (Some v, st')"
    if b: "built c base m0 (objs (take n kvs)) = Some (Inr st)" and H: "holds c st h t"
      and s: "set (inorder t) = set (take n kvs)"
      and b': "built c base m0 (objs (take n kvs)) = Some (Inr st')" for st h t st'
  proof -
    from b b' have e: "st' = st" by simp
    from H have w: "wf c h t" "ord t" by (simp_all add: holds_def)
    have "k \<in> keyset t" using s assms(3) by (force simp: keyset_def)
    from a_search_found [OF w this] obtain v' where
      v': "a_search h t k = Some v'" "(k, v') \<in> set (inorder t)" by blast
    have "(k, v') \<in> set kvs" "(k, v) \<in> set kvs"
      using v'(2) s assms(3) by (auto dest: in_set_takeD)
    with assms(2) have "v' = v" by (rule eq_key_imp_eq_value)
    with v'(1) search_holds [OF H, of k] e show ?thesis by simp
  qed
  with built_objs [OF assms(1), of base m0 "take n kvs"] show ?thesis by auto
qed

theorem lookup_completeness_witness:
  "valid_params ex_params
   \<and> distinct (map fst [(1::int, 10::int), (2, 20), (3, 30), (4, 40), (5, 50)])
   \<and> (2, 20) \<in> set (take 4 [(1::int, 10::int), (2, 20), (3, 30), (4, 40), (5, 50)])
   \<and> (\<exists>st. built ex_params 1000 ex_mem
               (objs (take 4 [(1, 10), (2, 20), (3, 30), (4, 40), (5, 50)])) = Some (Inr st)
          \<and> search st 2 = Some (Some 20, st))"
proof -
  let ?L = "[(1::int, 10::int), (2, 20), (3, 30), (4, 40), (5, 50)]"
  have tk: "take 4 ?L = [(1, 10), (2, 20), (3, 30), (4, 40)]" by simp
  have d: "distinct (map fst ?L)" by simp
  have m: "(2, 20) \<in> set (take 4 ?L)" unfolding tk by simp
  from scenario_states [OF ex_params_valid ex_params_order ex_params_fit, of 1000 ex_mem 10 20 30 40 50]
  obtain t4 where "built ex_params 1000 ex_mem (objs [(1, 10), (2, 20), (3, 30), (4, 40)]) = Some (Inr t4)"
    by blast
  then have b: "built ex_params 1000 ex_mem (objs (take 4 ?L)) = Some (Inr t4)" unfolding tk .
  from lookup_completeness [OF ex_params_valid d m, of 1000 ex_mem] b
  have "search t4 2 = Some (Some 20, t4)" by blast
  with b ex_params_valid d m show ?thesis by blast
qed

text \<open>
  C1, as stated, fails, in two ways.

  With \<open>ORDER = 2\<close>, after the inserts of \<open>(2, 20)\<close> and \<open>(3, 30)\<close> the call \<^verbatim>\<open>search(3)\<close> returns the
  address of slot 1 of the root leaf at 1000, which holds 30. The call
  \<^verbatim>\<open>insert(1, *search(3))\<close> passes that slot as its value reference; the shift loop moves
  20 into the slot before \<^verbatim>\<open>vals[0] = v\<close> reads it, so the key 1 is stored with 20, and
  \<^verbatim>\<open>search(1)\<close> returns 20, not the 30 it was inserted with.

  With \<open>ORDER = 32768\<close>, \<^verbatim>\<open>MAX_KEYS\<close> is 65536 and the 16-bit \<^verbatim>\<open>keyCount\<close> never equals it, so
  the root leaf is never split; the 65536th insert increments \<^verbatim>\<open>keyCount\<close> from 65535 to
  0, and \<^verbatim>\<open>search(0)\<close> returns \<^verbatim>\<open>nullptr\<close> although the key 0 was inserted.
\<close>

theorem lookup_completeness_counterexample:
  "slot_after ex_params 1000 ex_mem (objs [(2, 20), (3, 30)]) 3 = Some (Inr (Some (1000, 1)))
   \<and> search_after ex_params 1000 ex_mem (objs [(2, 20), (3, 30)]) 3 = Some (Inr (Some 30))
   \<and> search_after ex_params 1000 ex_mem
        (objs [(2, 20), (3, 30)] @ [(obj 1, val_slot 1000 1)]) 1 = Some (Inr (Some 20))
   \<and> distinct (map fst (ex_pairs 65536)) \<and> (0, 0) \<in> set (ex_pairs 65536)
   \<and> search_after ex_big 1000 ex_mem (objs (ex_pairs 65536)) 0 = Some (Inr None)"
proof -
  let ?es = "[(2::int, 20::int), (3, 30)]"
  have "\<exists>st. built ex_params 1000 ex_mem (objs ?es) = Some (Inr st)
      \<and> holds ex_params st 0 (Br 1000 True ?es [])"
    by (rule leaf_run [OF ex_params_valid ex_params_fit1 leaf_evals(1) [OF ex_params_order]])
  then obtain st where
    s: "built ex_params 1000 ex_mem (objs ?es) = Some (Inr st)"
      "holds ex_params st 0 (Br 1000 True ?es [])" by blast
  from s(2) have rp: "repr (mem st) (Br 1000 True ?es [])" and rt: "root st = 1000"
    by (auto simp: holds_def)
  have a: "slot_after ex_params 1000 ex_mem (objs ?es) 3 = Some (Inr (Some (1000, 1)))"
    unfolding slot_after_def s(1) using search_slot_leaf [OF rp, of 3]
    by (simp add: search_slot_def rt lb_def)
  have b: "search_after ex_params 1000 ex_mem (objs ?es) 3 = Some (Inr (Some 30))"
    unfolding search_after_def s(1) using search_holds [OF s(2), of 3] by (simp add: lb_def)
  have w: "20 = val_slot 1000 1
      (modify 1000 (\<lambda>n. n\<lparr>vals := shiftR (vals n) (ipos ?es 1) (length ?es),
                 keys := (shiftR (keys n) (ipos ?es 1) (length ?es))(ipos ?es 1 := 1)\<rparr>) st)"
    using rp by (simp add: val_slot_def ipos_def shiftR_def)
  from insertNonFull_leaf_ref [where v = "val_slot 1000 1" and w = 20 and k = 1 and c = ex_params,
      OF rp _ w] obtain st' where
    i: "insertNonFull ex_params st 1000 (\<lambda>_. 1) (val_slot 1000 1) = Some (Inr st')"
      "repr (mem st') (Br 1000 True (leaf_ins ?es 1 20) [])" "root st' = root st"
    by auto
  have kc: "keyCount (mem st 1000) = 2" using rp by simp
  have ins: "insert_kv ex_params st (obj 1) (val_slot 1000 1) = Some (Inr st')"
    using i(1) by (simp add: insert_kv_def Let_def full_def rt kc MAX_KEYS_def ex_params_def obj_def)
  have bu: "built ex_params 1000 ex_mem (objs ?es @ [(obj 1, val_slot 1000 1)]) = Some (Inr st')"
    unfolding built_append s(1) using ins by simp
  have le: "leaf_ins ?es 1 20 = [(1, 20), (2, 20), (3, 30)]"
    by (simp add: leaf_ins_def ipos_def)
  have "wf ex_params 0 (Br 1000 True [(1::int, 20::int), (2, 20), (3, 30)] [])"
    by (simp add: MAX_KEYS_def ex_params_def)
  from search_loop_refines [OF i(2) [unfolded le] this, of 1]
  have "search st' 1 = Some (Some 20, st')"
    by (simp add: search_def i(3) rt lb_def)
  then have c: "search_after ex_params 1000 ex_mem
        (objs ?es @ [(obj 1, val_slot 1000 1)]) 1 = Some (Inr (Some 20))"
    unfolding search_after_def bu by simp
  from big_wrapped [of 1000 ex_mem] obtain sb where
    sb: "built ex_big 1000 ex_mem (objs (ex_pairs 65536)) = Some (Inr sb)"
      "holds ex_big sb 0 (Br 1000 True [] [])" by blast
  have d: "search_after ex_big 1000 ex_mem (objs (ex_pairs 65536)) 0 = Some (Inr None)"
    unfolding search_after_def sb(1) using search_holds [OF sb(2), of 0] by (simp add: lb_def)
  have e: "distinct (map fst (ex_pairs 65536))" "(0, 0) \<in> set (ex_pairs 65536)"
    by (rule ex_pairs_distinct, rule ex_pairs_zero) simp
  from a b c d e show ?thesis by blast
qed

text \<open>
  C2. The code does not do what the claim says: it has no \<^verbatim>\<open>ArenaExhausted\<close> and no test
  of the offset against the capacity. With nodes of 16777280 bytes the arena has room
  for exactly three; the inserts of the keys 1 to 4 use them, leaving the offset at
  50331840, and all four keys are found. The insert of 5 splits a full leaf and needs a
  fourth node, whose block would end at offset 67109120, beyond the 67108864 bytes of
  the arena: \<^verbatim>\<open>allocNode\<close> constructs it there all the same, outside the memory of
  \<^verbatim>\<open>aligned_alloc\<close>. The run ends with \<open>OutOfArena\<close>: what the source does from there on
  is undefined, nothing is raised, and nothing keeps the earlier keys searchable.
\<close>

theorem arena_overrun:
  "search_after ex_wide 1000 ex_mem (objs [(1, 10), (2, 20), (3, 30), (4, 40)]) 1 = Some (Inr (Some 10))
   \<and> search_after ex_wide 1000 ex_mem (objs [(1, 10), (2, 20), (3, 30), (4, 40)]) 4 = Some (Inr (Some 40))
   \<and> offset_after ex_wide 1000 ex_mem (objs [(1, 10), (2, 20), (3, 30), (4, 40)])
       = Some (Inr (3 * sizeof_Node ex_wide))
   \<and> 3 * sizeof_Node ex_wide \<le> ARENA_SIZE \<and> ARENA_SIZE < 4 * sizeof_Node ex_wide
   \<and> built ex_wide 1000 ex_mem (objs [(1, 10), (2, 20), (3, 30), (4, 40), (5, 50)])
       = Some (Inl OutOfArena)
   \<and> search_after ex_wide 1000 ex_mem (objs [(1, 10), (2, 20), (3, 30), (4, 40), (5, 50)]) 1
       = Some (Inl OutOfArena)"
proof -
  note wf = ex_wide_facts
  have le4: "1000 + sizeof_Node ex_wide + 2 * sizeof_Node ex_wide \<le> 1000 + ARENA_SIZE"
    by (simp add: wf(3) ARENA_SIZE_def)
  have gt5: "\<not> 1000 + sizeof_Node ex_wide + 3 * sizeof_Node ex_wide \<le> 1000 + ARENA_SIZE"
    by (simp add: wf(3) ARENA_SIZE_def)
  from built_eval [OF wf(1,4) wide_four [OF wf(2)], of 1000 ex_mem 10 20 30 40, unfolded if_P [OF le4]]
  obtain st where
    s: "built ex_wide 1000 ex_mem (objs [(1, 10), (2, 20), (3, 30), (4, 40)]) = Some (Inr st)"
      "holds ex_wide st (Suc 0) (Br (1000 + sizeof_Node ex_wide) False [(2, 20)]
        [Br 1000 True [(1, 10)] [],
         Br (1000 + sizeof_Node ex_wide + sizeof_Node ex_wide) True [(3, 30), (4, 40)] []])"
      "arena st = 1000"
      "arena st + arenaOffset st = 1000 + sizeof_Node ex_wide + 2 * sizeof_Node ex_wide"
    by blast
  have a: "search_after ex_wide 1000 ex_mem (objs [(1, 10), (2, 20), (3, 30), (4, 40)]) 1 = Some (Inr (Some 10))"
    "search_after ex_wide 1000 ex_mem (objs [(1, 10), (2, 20), (3, 30), (4, 40)]) 4 = Some (Inr (Some 40))"
    unfolding search_after_def s(1)
    using search_holds [OF s(2), of 1] search_holds [OF s(2), of 4]
    by (simp_all add: lb_def)
  from s(3,4) have "arenaOffset st = 3 * sizeof_Node ex_wide" by simp
  then have o: "offset_after ex_wide 1000 ex_mem (objs [(1, 10), (2, 20), (3, 30), (4, 40)])
       = Some (Inr (3 * sizeof_Node ex_wide))"
    unfolding offset_after_def s(1) by simp
  have k: "3 * sizeof_Node ex_wide \<le> ARENA_SIZE" "ARENA_SIZE < 4 * sizeof_Node ex_wide"
    by (simp_all add: wf(3) ARENA_SIZE_def)
  from built_eval [OF wf(1,4) wide_five [OF wf(2)], of 1000 ex_mem 10 20 30 40 50, unfolded if_not_P [OF gt5]]
  have b: "built ex_wide 1000 ex_mem (objs [(1, 10), (2, 20), (3, 30), (4, 40), (5, 50)])
       = Some (Inl OutOfArena)" .
  have c: "search_after ex_wide 1000 ex_mem (objs [(1, 10), (2, 20), (3, 30), (4, 40), (5, 50)]) 1
       = Some (Inl OutOfArena)"
    unfolding search_after_def b by simp
  from a o k b c show ?thesis by blast
qed

text \<open>
  C3. For every positive \<open>ORDER\<close> and any sequence of calls of \<^verbatim>\<open>insert\<close>, whatever their
  arguments refer to: the run of the constructor and the inserts ends, with a tree or, at
  the first node that does not fit the arena, with \<open>OutOfArena\<close>; and whenever it ends with
  a tree, every node reachable from its root has a key count of at most \<^verbatim>\<open>MAX_KEYS\<close>,
  which is \<open>2 * ORDER\<close>.
\<close>

theorem occupancy_bound:
  assumes "0 < ORDER c" and "0 < sizeof_Node c"
  shows "(\<exists>r. built c base m0 args = Some r)
    \<and> (\<forall>t d p. built c base m0 args = Some (Inr t) \<longrightarrow> reach t d p \<longrightarrow>
          keyCount (mem t p) \<le> MAX_KEYS c)
    \<and> MAX_KEYS c = 2 * ORDER c"
proof -
  have "keyCount (mem st p) \<le> MAX_KEYS c" if S: "shaped c st h t" and r: "reach st d p"
    for st :: "('a, 'b) HFTBTree" and h t d p
  proof -
    from S r obtain x where x: "addr x = p" "repr (mem st) x" "wf c (h - d) x"
      by (rule reach_shaped)
    from repr_keyCount [OF x(2)] wf_ents_le [OF x(3)] x(1) show ?thesis by simp
  qed
  with built_shape [OF assms, of base m0 args] show ?thesis
    by (auto simp: MAX_KEYS_def)
qed

theorem occupancy_bound_witness:
  "0 < ORDER ex_params \<and> 0 < sizeof_Node ex_params
   \<and> (\<exists>t. built ex_params 1000 ex_mem (objs [(1, 10), (2, 20), (3, 30), (4, 40), (5, 50)])
            = Some (Inr t)
        \<and> reach t (Suc 0) (child (mem t (root t)) 0)
        \<and> keyCount (mem t (child (mem t (root t)) 0)) \<le> MAX_KEYS ex_params)"
proof -
  from scenario_built5 [OF ex_params_valid ex_params_order ex_params_fit, of 1000 ex_mem 10 20 30 40 50]
  obtain t5 where
    i: "built ex_params 1000 ex_mem (objs [(1, 10), (2, 20), (3, 30), (4, 40), (5, 50)]) = Some (Inr t5)"
    and h: "holds ex_params t5 (Suc 0) (Br (1000 + sizeof_Node ex_params) False [(3, 30)]
        [Br 1000 True [(1, 10), (2, 20)] [],
         Br (1000 + sizeof_Node ex_params + sizeof_Node ex_params) True [(4, 40), (5, 50)] []])"
    by blast
  note tw = holds_two [OF h]
  have r: "reach t5 (Suc 0) (child (mem t5 (root t5)) 0)"
    using tw(1,2) by (intro reach_child reach_root) simp_all
  from occupancy_bound [OF ex_params_pos, of 1000 ex_mem
      "objs [(1, 10), (2, 20), (3, 30), (4, 40), (5, 50)]"] i r
  have "keyCount (mem t5 (child (mem t5 (root t5)) 0)) \<le> MAX_KEYS ex_params" by blast
  with i r ex_params_pos show ?thesis by blast
qed

text \<open>
  C6. For every positive \<open>ORDER\<close> and any sequence of calls of \<^verbatim>\<open>insert\<close>, whatever their
  arguments refer to: the run of the constructor and the inserts ends, with a tree or
  with \<open>OutOfArena\<close>, and whenever it ends with a tree, all leaves of the tree are at the
  same depth from the root; an insert performed on it when the root is full (again with
  any arguments) ends, and whenever it ends with a tree, the root is a new node with the
  previous root as its first child and the leaves are exactly one level deeper than
  before.
\<close>

theorem balanced_depth:
  assumes "0 < ORDER c" and "0 < sizeof_Node c"
  shows "(\<exists>r. built c base m0 args = Some r)
    \<and> (\<forall>t d p d' p'. built c base m0 args = Some (Inr t) \<longrightarrow>
          reach t d p \<longrightarrow> leaf (mem t p) \<longrightarrow> reach t d' p' \<longrightarrow> leaf (mem t p') \<longrightarrow> d = d')
    \<and> (\<forall>t k v. built c base m0 args = Some (Inr t) \<longrightarrow> full c (mem t (root t)) \<longrightarrow>
          (\<exists>r. insert_kv c t k v = Some r)
          \<and> (\<forall>t'. insert_kv c t k v = Some (Inr t') \<longrightarrow>
               root t' \<noteq> root t \<and> child (mem t' (root t')) 0 = root t
               \<and> (\<forall>d p d' p'. reach t d p \<longrightarrow> leaf (mem t p) \<longrightarrow> reach t' d' p' \<longrightarrow> leaf (mem t' p')
                     \<longrightarrow> d' = d + 1)))"
proof -
  have depth: "d = h'" if "shaped c st' h' t'" "reach st' d p" "leaf (mem st' p)"
    for st' :: "('a, 'b) HFTBTree" and h' t' d p
  proof -
    from that(1,2) obtain x where x: "addr x = p" "repr (mem st') x" "wf c (h' - d) x" "d \<le> h'"
      by (rule reach_shaped)
    obtain a lf es cs where xe: "x = Br a lf es cs" by (cases x)
    with x(1,2) that(3) have "lf" by simp
    with x(3) xe have "h' - d = 0" by (cases "h' - d") simp_all
    with x(4) show ?thesis by simp
  qed
  have grow: "(\<exists>r. insert_kv c st k v = Some r)
          \<and> (\<forall>st'. insert_kv c st k v = Some (Inr st') \<longrightarrow>
               root st' \<noteq> root st \<and> child (mem st' (root st')) 0 = root st
               \<and> (\<forall>d p d' p'. reach st d p \<longrightarrow> leaf (mem st p) \<longrightarrow> reach st' d' p' \<longrightarrow> leaf (mem st' p')
                     \<longrightarrow> d' = d + 1))"
    if S: "shaped c st h t" and vh: "valid_params c \<or> h = 0 \<and> length (ents t) < 65536"
      and fl: "full c (mem st (root st))" for st :: "('a, 'b) HFTBTree" and h t k v
  proof -
    from S have rp: "repr (mem st) t" and rt: "addr t = root st" by (simp_all add: shaped_def)
    have full: "length (ents t) = MAX_KEYS c"
      using fl repr_keyCount [OF rp] rt by (simp add: full_def)
    have vp: "valid_params c"
    proof (rule ccontr)
      assume n: "\<not> valid_params c"
      with assms have "65535 < MAX_KEYS c" by (simp add: valid_params_def MAX_KEYS_def)
      with n vh full show False by simp
    qed
    from insert_kv_shape [OF vp S, of k v] show ?thesis
    proof (rule disjE)
      assume "insert_kv c st k v = Some (Inl OutOfArena)"
      then show ?thesis by simp
    next
      assume "\<exists>st' h' t'. insert_kv c st k v = Some (Inr st') \<and> shaped c st' h' t'
         \<and> (if full c (mem st (root st))
             then h' = Suc h \<and> root st' \<noteq> root st \<and> child (mem st' (root st')) 0 = root st
             else h' = h \<and> root st' = root st)"
      with fl obtain st' h' t' where
        i: "insert_kv c st k v = Some (Inr st')" "shaped c st' h' t'" "h' = Suc h"
          "root st' \<noteq> root st" "child (mem st' (root st')) 0 = root st" by auto
      have "d' = d + 1" if "reach st d p" "leaf (mem st p)" "reach st' d' p'" "leaf (mem st' p')"
        for d p d' p'
        using depth [OF S that(1,2)] depth [OF i(2) that(3,4)] i(3) by simp
      with i(1,4,5) show ?thesis by auto
    qed
  qed
  from built_shape [OF assms, of base m0 args] show ?thesis
  proof (rule disjE)
    assume "built c base m0 args = Some (Inl OutOfArena)"
    then show ?thesis by simp
  next
    assume "\<exists>st h t. built c base m0 args = Some (Inr st) \<and> shaped c st h t
        \<and> (valid_params c \<or> h = 0 \<and> length (ents t) < 65536)"
    then obtain st h t where s: "built c base m0 args = Some (Inr st)" "shaped c st h t"
      "valid_params c \<or> h = 0 \<and> length (ents t) < 65536" by blast
    have same: "d = d'" if "reach st d p" "leaf (mem st p)" "reach st d' p'" "leaf (mem st p')"
      for d p d' p'
      using depth [OF s(2) that(1,2)] depth [OF s(2) that(3,4)] by simp
    from s(1) same grow [OF s(2,3)] show ?thesis by simp
  qed
qed

theorem balanced_depth_witness:
  "0 < ORDER ex_params \<and> 0 < sizeof_Node ex_params
   \<and> (\<exists>t t'. built ex_params 1000 ex_mem (objs [(1, 10), (2, 20), (3, 30), (4, 40)]) = Some (Inr t)
        \<and> reach t 0 (root t) \<and> leaf (mem t (root t)) \<and> full ex_params (mem t (root t))
        \<and> insert_kv ex_params t (obj 5) (obj 50) = Some (Inr t')
        \<and> root t' \<noteq> root t \<and> child (mem t' (root t')) 0 = root t
        \<and> reach t' (0 + 1) (root t) \<and> leaf (mem t' (root t)))"
proof -
  from scenario_states [OF ex_params_valid ex_params_order ex_params_fit, of 1000 ex_mem 10 20 30 40 50,
      folded obj_def]
  obtain t4 t5 where
    s: "built ex_params 1000 ex_mem (objs [(1, 10), (2, 20), (3, 30), (4, 40)]) = Some (Inr t4)"
      "holds ex_params t4 0 (Br 1000 True [(1, 10), (2, 20), (3, 30), (4, 40)] [])"
      "insert_kv ex_params t4 (obj 5) (obj 50) = Some (Inr t5)"
      "holds ex_params t5 (Suc 0) (Br (1000 + sizeof_Node ex_params) False [(3, 30)]
        [Br 1000 True [(1, 10), (2, 20)] [],
         Br (1000 + sizeof_Node ex_params + sizeof_Node ex_params) True [(4, 40), (5, 50)] []])"
    by blast
  note l = holds_leaf [OF s(2)] and tw = holds_two [OF s(4)]
  have r4: "reach t4 0 (root t4)" by (rule reach_root)
  have l4: "leaf (mem t4 (root t4))" using l(1,2) by simp
  have f4: "full ex_params (mem t4 (root t4))"
    using l(1,3) by (simp add: full_def MAX_KEYS_def ex_params_def)
  have "reach t5 (Suc 0) (child (mem t5 (root t5)) 0)"
    using tw(1,2) by (intro reach_child reach_root) simp_all
  then have r5: "reach t5 (0 + 1) (root t4)" using tw(1,7) l(1) by simp
  have l5: "leaf (mem t5 (root t4))" using tw(9) l(1) by simp
  from balanced_depth [OF ex_params_pos, of 1000 ex_mem "objs [(1, 10), (2, 20), (3, 30), (4, 40)]"]
    s(1) f4 s(3)
  have "root t5 \<noteq> root t4" "child (mem t5 (root t5)) 0 = root t4" by blast+
  with s(1,3) r4 l4 f4 r5 l5 ex_params_pos show ?thesis by blast
qed

text \<open>
  C7, amended. For every positive \<open>ORDER\<close>, with the keys and values passed to \<^verbatim>\<open>insert\<close> as
  objects outside the tree's storage: the run of the constructor and a sequence of
  inserts ends, with a tree or with \<open>OutOfArena\<close>, and whenever it ends with a tree, the
  keys of every node reachable from the root are in non-decreasing order, and in every
  internal node every key below \<open>child[i]\<close> is at most \<open>keys[i]\<close> and every key below
  \<open>child[i + 1]\<close> is at least \<open>keys[i]\<close>.
\<close>

theorem ordering_invariant:
  assumes "0 < ORDER c" and "0 < sizeof_Node c"
  shows "(\<exists>r. built c base m0 (objs kvs) = Some r)
    \<and> (\<forall>t d p. built c base m0 (objs kvs) = Some (Inr t) \<longrightarrow> reach t d p \<longrightarrow>
          sorted (node_keys (mem t p))
          \<and> (\<not> leaf (mem t p) \<longrightarrow>
               (\<forall>i < keyCount (mem t p).
                  (\<forall>k'. key_in t (child (mem t p) i) k' \<longrightarrow> k' \<le> keys (mem t p) i)
                  \<and> (\<forall>k'. key_in t (child (mem t p) (i + 1)) k' \<longrightarrow> keys (mem t p) i \<le> k'))))"
proof -
  have node: "sorted (node_keys (mem st p))
          \<and> (\<not> leaf (mem st p) \<longrightarrow>
               (\<forall>i < keyCount (mem st p).
                  (\<forall>k'. key_in st (child (mem st p) i) k' \<longrightarrow> k' \<le> keys (mem st p) i)
                  \<and> (\<forall>k'. key_in st (child (mem st p) (i + 1)) k' \<longrightarrow> keys (mem st p) i \<le> k')))"
    if H: "holds c st h t" and "reach st d p" for st :: "('a, 'b) HFTBTree" and h t d p
  proof -
    from H that(2) obtain x where x: "addr x = p" "repr (mem st) x" "wf c (h - d) x" "ord x"
      by (rule reach_node)
    obtain a lf es cs where xe: "x = Br a lf es cs" by (cases x)
    from x(1) xe have ap: "a = p" by simp
    have "sorted (map fst es)" using x(4) xe sorted_inter_es [of fst "map inorder cs" es]
      by (simp add: ord_def)
    then have srt: "sorted (node_keys (mem st p))"
      using repr_node_keys [of "mem st" a lf es cs] x(2) xe ap by simp
    have kc: "keyCount (mem st p) = length es" using x(2) xe ap by simp
    have bnd: "(\<forall>k'. key_in st (child (mem st p) i) k' \<longrightarrow> k' \<le> keys (mem st p) i)
        \<and> (\<forall>k'. key_in st (child (mem st p) (i + 1)) k' \<longrightarrow> keys (mem st p) i \<le> k')"
      if nl: "\<not> leaf (mem st p)" and i: "i < keyCount (mem st p)" for i
    proof -
      from nl x(2) xe ap have nlf: "\<not> lf" by simp
      with x(3) xe obtain h' where h': "h - d = Suc h'" by (cases "h - d") simp_all
      with x(3) xe have lc: "length cs = length es + 1" and wk: "\<forall>y \<in> set cs. wf c h' y" by simp_all
      from i kc have ie: "i < length es" by simp
      have ki: "keys (mem st p) i = fst (es ! i)" using x(2) xe ap ie by simp
      have ch: "repr (mem st) (cs ! j) \<and> wf c h' (cs ! j) \<and> addr (cs ! j) = child (mem st p) j"
        if "j < length cs" for j
        using that x(2) xe ap wk by simp
      note kb = kid_bounds [OF x(4) [unfolded xe] lc ie]
      have "k' \<le> fst (es ! i)" if "key_in st (child (mem st p) i) k'" for k'
      proof -
        from ch [of i] ie lc have c: "repr (mem st) (cs ! i)" "wf c h' (cs ! i)"
          "addr (cs ! i) = child (mem st p) i" by simp_all
        from key_in_keyset [OF that c] kb(1) show ?thesis by (auto simp: keyset_def)
      qed
      moreover have "fst (es ! i) \<le> k'" if "key_in st (child (mem st p) (i + 1)) k'" for k'
      proof -
        from ch [of "Suc i"] ie lc have c: "repr (mem st) (cs ! Suc i)" "wf c h' (cs ! Suc i)"
          "addr (cs ! Suc i) = child (mem st p) (i + 1)" by simp_all
        from key_in_keyset [OF that c] kb(2) show ?thesis by (auto simp: keyset_def)
      qed
      ultimately show ?thesis using ki by simp
    qed
    from srt bnd show ?thesis by blast
  qed
  show ?thesis
  proof (rule disjE [OF built_holds [OF assms, of base m0 kvs]])
    assume "built c base m0 (objs kvs) = Some (Inl OutOfArena)"
    then show ?thesis by simp
  next
    assume "\<exists>st h t. built c base m0 (objs kvs) = Some (Inr st) \<and> holds c st h t
        \<and> (valid_params c \<or> h = 0 \<and> \<not> length (ents t) = MAX_KEYS c)"
    then obtain st h t where s: "built c base m0 (objs kvs) = Some (Inr st)" "holds c st h t"
      by blast
    from s(1) node [OF s(2)] show ?thesis by simp
  qed
qed

theorem ordering_invariant_witness:
  "0 < ORDER ex_params \<and> 0 < sizeof_Node ex_params
   \<and> (\<exists>t. built ex_params 1000 ex_mem (objs [(1, 10), (2, 20), (3, 30), (4, 40), (5, 50)])
            = Some (Inr t)
        \<and> reach t 0 (root t) \<and> \<not> leaf (mem t (root t)) \<and> 0 < keyCount (mem t (root t))
        \<and> key_in t (child (mem t (root t)) 0) 2
        \<and> key_in t (child (mem t (root t)) (0 + 1)) 4
        \<and> sorted (node_keys (mem t (root t)))
        \<and> 2 \<le> keys (mem t (root t)) 0 \<and> keys (mem t (root t)) 0 \<le> 4)"
proof -
  from scenario_built5 [OF ex_params_valid ex_params_order ex_params_fit, of 1000 ex_mem 10 20 30 40 50]
  obtain t5 where
    i: "built ex_params 1000 ex_mem (objs [(1, 10), (2, 20), (3, 30), (4, 40), (5, 50)]) = Some (Inr t5)"
    and h: "holds ex_params t5 (Suc 0) (Br (1000 + sizeof_Node ex_params) False [(3, 30)]
        [Br 1000 True [(1, 10), (2, 20)] [],
         Br (1000 + sizeof_Node ex_params + sizeof_Node ex_params) True [(4, 40), (5, 50)] []])"
    by blast
  note tw = holds_two [OF h]
  have r: "reach t5 0 (root t5)" by (rule reach_root)
  have nl: "\<not> leaf (mem t5 (root t5))" and kc: "0 < keyCount (mem t5 (root t5))"
    using tw(1,2,3) by simp_all
  have "key_in t5 1000 (keys (mem t5 1000) (Suc 0))"
    using tw(13) by (intro key_here) simp
  then have k2: "key_in t5 (child (mem t5 (root t5)) 0) 2"
    using tw(15) [of "Suc 0"] tw(1,7) by simp
  have "key_in t5 (1000 + sizeof_Node ex_params + sizeof_Node ex_params)
      (keys (mem t5 (1000 + sizeof_Node ex_params + sizeof_Node ex_params)) 0)"
    using tw(14) by (intro key_here) simp
  then have k4: "key_in t5 (child (mem t5 (root t5)) (0 + 1)) 4"
    using tw(16) [of 0] tw(1,8) by simp
  from ordering_invariant [OF ex_params_pos, of 1000 ex_mem
      "[(1, 10), (2, 20), (3, 30), (4, 40), (5, 50)]"] i r nl kc
  have "sorted (node_keys (mem t5 (root t5)))"
    and "\<forall>k'. key_in t5 (child (mem t5 (root t5)) 0) k' \<longrightarrow> k' \<le> keys (mem t5 (root t5)) 0"
    and "\<forall>k'. key_in t5 (child (mem t5 (root t5)) (0 + 1)) k' \<longrightarrow> keys (mem t5 (root t5)) 0 \<le> k'"
    by blast+
  with k2 k4 i r nl kc ex_params_pos show ?thesis by blast
qed

text \<open>
  C7, as stated, fails. With \<open>ORDER = 2\<close> and keys and values of the same type, after the
  inserts of \<open>(5, 100)\<close> and \<open>(6, 1)\<close> the call \<^verbatim>\<open>search(6)\<close> returns the address of slot 1 of the
  root leaf at 1000, which holds 1. The call \<^verbatim>\<open>insert(*search(6), 0)\<close> passes that slot as
  its key reference: the shift loop, comparing with 1, moves both entries up and
  thereby writes 100 into the slot, and \<^verbatim>\<open>keys[0] = k\<close> then stores 100. The root reads
  \<open>[100, 5, 6]\<close>, not in order.
\<close>

theorem ordering_invariant_counterexample:
  "slot_after ex_params 1000 ex_mem (objs [(5, 100), (6, 1)]) 6 = Some (Inr (Some (1000, 1)))
   \<and> search_after ex_params 1000 ex_mem (objs [(5, 100), (6, 1)]) 6 = Some (Inr (Some 1))
   \<and> root_keys_after ex_params 1000 ex_mem (objs [(5, 100), (6, 1)]) = Some (Inr [5, 6])
   \<and> root_keys_after ex_params 1000 ex_mem
        (objs [(5, 100), (6, 1)] @ [(val_slot 1000 1, obj 0)]) = Some (Inr [100, 5, 6])"
proof -
  let ?es = "[(5::int, 100::int), (6, 1)]"
  have "\<exists>st. built ex_params 1000 ex_mem (objs ?es) = Some (Inr st)
      \<and> holds ex_params st 0 (Br 1000 True ?es [])"
    by (rule leaf_run [OF ex_params_valid ex_params_fit1 leaf_evals(2) [OF ex_params_order]])
  then obtain st where
    s: "built ex_params 1000 ex_mem (objs ?es) = Some (Inr st)"
      "holds ex_params st 0 (Br 1000 True ?es [])" by blast
  from s(2) have rp: "repr (mem st) (Br 1000 True ?es [])" and rt: "root st = 1000"
    by (auto simp: holds_def)
  have a: "slot_after ex_params 1000 ex_mem (objs ?es) 6 = Some (Inr (Some (1000, 1)))"
    unfolding slot_after_def s(1) using search_slot_leaf [OF rp, of 6]
    by (simp add: search_slot_def rt lb_def)
  have b: "search_after ex_params 1000 ex_mem (objs ?es) 6 = Some (Inr (Some 1))"
    unfolding search_after_def s(1) using search_holds [OF s(2), of 6] by (simp add: lb_def)
  from rp have f: "leaf (mem st 1000)" "keyCount (mem st 1000) = 2"
    "keys (mem st 1000) 0 = 5" "keys (mem st 1000) (Suc 0) = 6"
    "vals (mem st 1000) 0 = 100" "vals (mem st 1000) (Suc 0) = 1"
    by (simp_all add: All_less_Suc numeral_2_eq_2)
  have c0: "root_keys_after ex_params 1000 ex_mem (objs ?es) = Some (Inr [5, 6])"
    unfolding root_keys_after_def s(1) using f by (simp add: rt upt_rec numeral_2_eq_2)
  have ls: "leaf_shift st 1000 (\<lambda>t. vals (mem t 1000) (Suc 0)) 1 =
      (modify 1000 (\<lambda>n. n\<lparr>keys := (keys n)(2 := 6, 1 := 5), vals := (vals n)(2 := 1, 1 := 100)\<rparr>) st, - 1)"
    using f
    apply (subst leaf_shift.simps)
    apply (simp add: Let_def)
    apply (subst leaf_shift.simps)
    apply (simp add: Let_def)
    apply (subst leaf_shift.simps)
    apply (simp add: modify_def numeral_2_eq_2)
    done
  define T where "T = modify 1000 (\<lambda>n. n\<lparr>keys := (keys n)(2 := 6, 1 := 5, 0 := 100),
          vals := (vals n)(2 := 1, 1 := 100, 0 := 0), keyCount := 3\<rparr>) st"
  have ins: "insert_kv ex_params st (val_slot 1000 1) (obj 0) = Some (Inr T)"
    using f unfolding T_def
    by (simp add: insert_kv_def Let_def full_def rt MAX_KEYS_def ex_params_def obj_def
        insertNonFull.simps ls val_slot_def modify_def u16_def)
  have bu: "built ex_params 1000 ex_mem (objs ?es @ [(val_slot 1000 1, obj 0)]) = Some (Inr T)"
    unfolding built_append s(1) by (simp del: One_nat_def add: ins)
  have c: "root_keys_after ex_params 1000 ex_mem
        (objs ?es @ [(val_slot 1000 1, obj 0)]) = Some (Inr [100, 5, 6])"
    unfolding root_keys_after_def bu by (simp add: T_def rt upt_rec numeral_3_eq_3)
  from a b c0 c show ?thesis by blast
qed

text \<open>
  C8, amended. For \<open>ORDER\<close> from 1 to 32767, with keys and values passed to \<^verbatim>\<open>insert\<close> as
  objects outside the tree's storage: when a key \<open>k\<close> has been inserted with the value \<open>a\<close>
  and with no other value (among any inserts of other keys) and is inserted again with a
  value \<open>b\<close>, the run ends, with a tree or with \<open>OutOfArena\<close>, and whenever it ends with a
  tree the search for \<open>k\<close> directly after the second insert returns \<open>a\<close>. After further
  inserts that end with a tree the search still finds \<open>k\<close>, with one of the values that \<open>k\<close>
  was inserted with.
\<close>

theorem duplicate_key_first_value:
  assumes "valid_params c" and "(k, a) \<in> set kvs" and "\<forall>v. (k, v) \<in> set kvs \<longrightarrow> v = a"
  shows "(\<exists>r. built c base m0 (objs (kvs @ [(k, b)])) = Some r)
    \<and> (\<forall>st. built c base m0 (objs (kvs @ [(k, b)])) = Some (Inr st) \<longrightarrow>
          search st k = Some (Some a, st))
    \<and> (\<forall>st. built c base m0 (objs (kvs @ (k, b) # later)) = Some (Inr st) \<longrightarrow>
          (\<exists>v. search st k = Some (Some v, st) \<and> (k, v) \<in> set (kvs @ (k, b) # later)))"
proof -
  have later: "\<exists>v. search st k = Some (Some v, st) \<and> (k, v) \<in> set (kvs @ (k, b) # later)"
    if b2: "built c base m0 (objs (kvs @ (k, b) # later)) = Some (Inr st)" for st
  proof -
    from built_objs [OF assms(1), of base m0 "kvs @ (k, b) # later"] b2 obtain h2 t2 where
      s2: "holds c st h2 t2" "set (inorder t2) = set (kvs @ (k, b) # later)" by auto
    from s2(1) have w2: "wf c h2 t2" "ord t2" by (simp_all add: holds_def)
    have "k \<in> keyset t2" unfolding keyset_def s2(2) by force
    from a_search_found [OF w2 this] obtain v2 where
      v2: "a_search h2 t2 k = Some v2" "(k, v2) \<in> set (inorder t2)" by blast
    from v2 search_holds [OF s2(1), of k] s2(2) show ?thesis by simp
  qed
  have e: "built c base m0 (objs (kvs @ [(k, b)])) =
      (case built c base m0 (objs kvs) of None \<Rightarrow> None | Some (Inl e) \<Rightarrow> Some (Inl e)
       | Some (Inr t) \<Rightarrow> inserts c t (objs [(k, b)]))"
    unfolding objs_append by (rule built_append)
  show ?thesis
  proof (rule disjE [OF built_objs [OF assms(1), of base m0 kvs]])
    assume "built c base m0 (objs kvs) = Some (Inl OutOfArena)"
    then have "built c base m0 (objs (kvs @ [(k, b)])) = Some (Inl OutOfArena)"
      unfolding e by simp
    with later show ?thesis by simp
  next
    assume "\<exists>st h t. built c base m0 (objs kvs) = Some (Inr st) \<and> holds c st h t
        \<and> set (inorder t) = set kvs"
    then obtain st h t where
      s: "built c base m0 (objs kvs) = Some (Inr st)" "holds c st h t"
        "set (inorder t) = set kvs" by blast
    obtain t' nx' h' where r: "a_insert c h (arena st + arenaOffset st) t k b = ((t', nx'), h')"
      by (metis surj_pair)
    note step = insert_kv_holds [OF assms(1) s(2) r]
    have e2: "built c base m0 (objs (kvs @ [(k, b)])) =
        (case insert_kv c st (\<lambda>_. k) (\<lambda>_. b) of None \<Rightarrow> None | Some (Inl e) \<Rightarrow> Some (Inl e)
         | Some (Inr t1) \<Rightarrow> Some (Inr t1))"
      unfolding e s(1) by (simp add: obj_def split: option.splits sum.splits)
    show ?thesis
    proof (cases "nx' \<le> arena st + ARENA_SIZE")
      case False
      with step e2 have "built c base m0 (objs (kvs @ [(k, b)])) = Some (Inl OutOfArena)" by simp
      with later show ?thesis by simp
    next
      case True
      with step obtain st' where
        i: "insert_kv c st (\<lambda>_. k) (\<lambda>_. b) = Some (Inr st')" "holds c st' h' t'" by auto
      from s(2) have w: "wf c h t" "ord t" "distinct (addrs t)"
        "\<forall>a \<in> set (addrs t). a < arena st + arenaOffset st" by (simp_all add: holds_def)
      have "k \<in> keyset t" using s(3) assms(2) by (force simp: keyset_def)
      from a_insert_props(7) [OF assms(1) w r this] obtain v' where
        v': "a_search h' t' k = Some v'" "(k, v') \<in> set (inorder t)" by blast
      with s(3) assms(3) have "v' = a" by simp
      with v'(1) search_holds [OF i(2), of k]
      have "search st' k = Some (Some a, st')" by simp
      moreover have "built c base m0 (objs (kvs @ [(k, b)])) = Some (Inr st')"
        unfolding e2 i(1) by simp
      ultimately show ?thesis using later by simp
    qed
  qed
qed

theorem duplicate_key_first_value_witness:
  "valid_params ex_params
   \<and> (2, 20) \<in> set [(1::int, 10::int), (2, 20), (3, 30)]
   \<and> {v. (2, v) \<in> set [(1::int, 10::int), (2, 20), (3, 30)]} = {20}
   \<and> (\<exists>st. built ex_params 1000 ex_mem (objs ([(1, 10), (2, 20), (3, 30)] @ [(2, 21)])) = Some (Inr st)
          \<and> search st 2 = Some (Some 20, st))"
proof -
  let ?L = "[(1::int, 10::int), (2, 20), (3, 30)]"
  have m: "(2, 20) \<in> set ?L" by simp
  have u: "\<forall>v. (2, v) \<in> set ?L \<longrightarrow> v = 20" by simp
  have e: "{v. (2, v) \<in> set ?L} = {20}" by auto
  have ap: "?L @ [(2, 21)] = [(1, 10), (2, 20), (3, 30), (2, 21)]" by simp
  have "\<exists>st. built ex_params 1000 ex_mem (objs [(1, 10), (2, 20), (3, 30), (2, 21)]) = Some (Inr st)
      \<and> holds ex_params st 0 (Br 1000 True [(1, 10), (2, 20), (2, 21), (3, 30)] [])"
    by (rule leaf_run [OF ex_params_valid ex_params_fit1 leaf_evals(3) [OF ex_params_order]])
  then obtain st where
    b: "built ex_params 1000 ex_mem (objs (?L @ [(2, 21)])) = Some (Inr st)"
    unfolding ap by blast
  from duplicate_key_first_value [OF ex_params_valid m u, of 1000 ex_mem 21] b
  have "search st 2 = Some (Some 20, st)" by blast
  with b ex_params_valid m e show ?thesis by blast
qed

text \<open>
  C8, as stated, fails, in two ways.

  With \<open>ORDER = 2\<close>, after the inserts \<open>(1, 10)\<close>, \<open>(2, 20)\<close>, \<open>(2, 21)\<close>, \<open>(3, 30)\<close> the root is the full
  leaf \<open>1, 2, 2, 3\<close>; the insert of \<open>(4, 40)\<close> splits it and promotes the entry at index
  \<open>mid = 2\<close>, which is the second pair \<open>(2, 21)\<close>, to the new root. The search for 2 stops there
  and returns 21, not the value 20 inserted first.

  With \<open>ORDER = 32768\<close>, after the 65536 inserts of the keys 0 to 65535 the 16-bit
  \<^verbatim>\<open>keyCount\<close> of the root leaf has wrapped to 0; the insert of \<open>(0, 1)\<close> lands in slot 0, and
  the search for 0 directly after it returns 1, not the value 0 inserted first.
\<close>

theorem duplicate_key_counterexample:
  "search_after ex_params 1000 ex_mem
     (objs [(1, 10), (2, 20), (2, 21), (3, 30), (4, 40)]) 2 = Some (Inr (Some 21))
   \<and> (0, 0) \<in> set (ex_pairs 65536)
   \<and> search_after ex_big 1000 ex_mem (objs (ex_pairs 65536 @ [(0, 1)])) 0 = Some (Inr (Some 1))"
proof -
  from scenario_built_dup [OF ex_params_valid ex_params_order ex_params_fit, of 1000 ex_mem 10 20 21 30 40]
  obtain st where
    s: "built ex_params 1000 ex_mem (objs [(1, 10), (2, 20), (2, 21), (3, 30), (4, 40)]) = Some (Inr st)"
      "holds ex_params st (Suc 0) (Br (1000 + sizeof_Node ex_params) False [(2, 21)]
        [Br 1000 True [(1, 10), (2, 20)] [],
         Br (1000 + sizeof_Node ex_params + sizeof_Node ex_params) True [(3, 30), (4, 40)] []])"
    by blast
  have a: "search_after ex_params 1000 ex_mem
     (objs [(1, 10), (2, 20), (2, 21), (3, 30), (4, 40)]) 2 = Some (Inr (Some 21))"
    unfolding search_after_def s(1) using search_holds [OF s(2), of 2] by (simp add: lb_def)
  from big_wrapped_again [of 1000 ex_mem] obtain sb where
    sb: "built ex_big 1000 ex_mem (objs (ex_pairs 65536 @ [(0, 1)])) = Some (Inr sb)"
      "holds ex_big sb 0 (Br 1000 True [(0, 1)] [])" by blast
  have b: "search_after ex_big 1000 ex_mem (objs (ex_pairs 65536 @ [(0, 1)])) 0 = Some (Inr (Some 1))"
    unfolding search_after_def sb(1) using search_holds [OF sb(2), of 0] by (simp add: lb_def)
  have "(0, 0) \<in> set (ex_pairs 65536)" by (rule ex_pairs_zero) simp
  with a b show ?thesis by blast
qed

text \<open>
  C9. With \<open>ORDER = 2\<close>, so that \<^verbatim>\<open>MAX_KEYS\<close> is 4, and an arena with room for three nodes: the
  inserts of the keys 1, 2, 3, 4 into an empty tree end with the root being the one
  node allocated, a leaf with the keys \<open>[1, 2, 3, 4]\<close>; the insert of 5 then ends with
  a new root, an internal node with the one key \<open>[3]\<close>, whose two children are leaves
  with the keys \<open>[1, 2]\<close> and \<open>[4, 5]\<close>; afterwards \<^verbatim>\<open>search(5)\<close> returns the value inserted
  with 5 and \<^verbatim>\<open>search(3)\<close> the value stored at the root.
\<close>

theorem order2_scenario:
  assumes "valid_params c" and "ORDER c = 2" and "3 * sizeof_Node c \<le> ARENA_SIZE"
  shows "MAX_KEYS c = 4 \<and> (\<exists>t4 t5.
    built c base m0 (objs [(1::int, v1), (2, v2), (3, v3), (4, v4)]) = Some (Inr t4)
    \<and> root t4 = base \<and> arenaOffset t4 = sizeof_Node c
    \<and> leaf (mem t4 (root t4)) \<and> node_keys (mem t4 (root t4)) = [1, 2, 3, 4]
    \<and> insert_kv c t4 (obj 5) (obj v5) = Some (Inr t5)
    \<and> root t5 \<noteq> root t4 \<and> \<not> leaf (mem t5 (root t5))
    \<and> node_keys (mem t5 (root t5)) = [3] \<and> node_vals (mem t5 (root t5)) = [v3]
    \<and> leaf (mem t5 (child (mem t5 (root t5)) 0))
    \<and> node_keys (mem t5 (child (mem t5 (root t5)) 0)) = [1, 2]
    \<and> leaf (mem t5 (child (mem t5 (root t5)) 1))
    \<and> node_keys (mem t5 (child (mem t5 (root t5)) 1)) = [4, 5]
    \<and> search t5 5 = Some (Some v5, t5)
    \<and> search t5 3 = Some (Some v3, t5))"
proof -
  from scenario_states [OF assms, of base m0 v1 v2 v3 v4 v5, folded obj_def] obtain t4 t5 where
    s: "built c base m0 (objs [(1, v1), (2, v2), (3, v3), (4, v4)]) = Some (Inr t4)"
      "holds c t4 0 (Br base True [(1, v1), (2, v2), (3, v3), (4, v4)] [])"
      "arenaOffset t4 = sizeof_Node c"
      "insert_kv c t4 (obj 5) (obj v5) = Some (Inr t5)"
      "holds c t5 (Suc 0) (Br (base + sizeof_Node c) False [(3, v3)]
        [Br base True [(1, v1), (2, v2)] [],
         Br (base + sizeof_Node c + sizeof_Node c) True [(4, v4), (5, v5)] []])"
    by blast
  note l = holds_leaf [OF s(2)] and tw = holds_two [OF s(5)]
  have ne: "root t5 \<noteq> root t4" using tw(1) l(1) params_facts(6) [OF assms(1)] by simp
  have s5: "search t5 5 = Some (Some v5, t5)" and s3: "search t5 3 = Some (Some v3, t5)"
    using search_holds [OF s(5), of 5] search_holds [OF s(5), of 3] by (simp_all add: lb_def)
  have mk: "MAX_KEYS c = 4" using assms(2) by (simp add: MAX_KEYS_def)
  have a: "root t4 = base" "leaf (mem t4 (root t4))" "node_keys (mem t4 (root t4)) = [1, 2, 3, 4]"
    using l by simp_all
  have b: "\<not> leaf (mem t5 (root t5))" "node_keys (mem t5 (root t5)) = [3]"
    "node_vals (mem t5 (root t5)) = [v3]"
    "leaf (mem t5 (child (mem t5 (root t5)) 0))"
    "node_keys (mem t5 (child (mem t5 (root t5)) 0)) = [1, 2]"
    "leaf (mem t5 (child (mem t5 (root t5)) 1))"
    "node_keys (mem t5 (child (mem t5 (root t5)) 1)) = [4, 5]"
    using tw by simp_all
  from mk s(1,3,4) ne s5 s3 a b show ?thesis by blast
qed

theorem order2_scenario_witness:
  "valid_params ex_params \<and> ORDER ex_params = 2 \<and> 3 * sizeof_Node ex_params \<le> ARENA_SIZE
   \<and> MAX_KEYS ex_params = 4 \<and> (\<exists>t4 t5.
    built ex_params 1000 ex_mem (objs [(1, 10), (2, 20), (3, 30), (4, 40)]) = Some (Inr t4)
    \<and> root t4 = 1000 \<and> arenaOffset t4 = sizeof_Node ex_params
    \<and> leaf (mem t4 (root t4)) \<and> node_keys (mem t4 (root t4)) = [1, 2, 3, 4]
    \<and> insert_kv ex_params t4 (obj 5) (obj 50) = Some (Inr t5)
    \<and> root t5 \<noteq> root t4 \<and> \<not> leaf (mem t5 (root t5))
    \<and> node_keys (mem t5 (root t5)) = [3] \<and> node_vals (mem t5 (root t5)) = [30]
    \<and> leaf (mem t5 (child (mem t5 (root t5)) 0))
    \<and> node_keys (mem t5 (child (mem t5 (root t5)) 0)) = [1, 2]
    \<and> leaf (mem t5 (child (mem t5 (root t5)) 1))
    \<and> node_keys (mem t5 (child (mem t5 (root t5)) 1)) = [4, 5]
    \<and> search t5 5 = Some (Some 50, t5)
    \<and> search t5 3 = Some (Some 30, t5))"
  using order2_scenario [OF ex_params_valid ex_params_order ex_params_fit, of 1000 ex_mem 10 20 30 40 50]
    ex_params_valid ex_params_order ex_params_fit by (intro conjI) blast+

text \<open>
  C10. \<^verbatim>\<open>search\<close> never mutates the tree: whenever it returns, the tree it leaves (root,
  arena offset and the whole node store, hence every node's leaf flag, key count, keys,
  values and children) is the tree it was called on. And on every tree that the
  constructor and a sequence of calls of \<^verbatim>\<open>insert\<close> end with, whatever their arguments
  refer to, it does return.
\<close>

theorem search_no_mutation:
  "(search t k = Some (r, t') \<longrightarrow> t' = t)
   \<and> (0 < ORDER c \<longrightarrow> 0 < sizeof_Node c \<longrightarrow> built c base m0 args = Some (Inr t) \<longrightarrow>
        (\<exists>r'. search t k = Some (r', t)))"
proof (intro conjI impI)
  assume "search t k = Some (r, t')"
  then show "t' = t"
    using search_loop_frame_aux [of t "root t" k "(r, t')"] by (simp add: search_def)
next
  assume p: "0 < ORDER c" "0 < sizeof_Node c" and i: "built c base m0 args = Some (Inr t)"
  from built_shape [OF p, of base m0 args] i obtain h x where "shaped c t h x" by auto
  from search_shaped [OF this, of k] show "\<exists>r'. search t k = Some (r', t)" by blast
qed

theorem search_no_mutation_witness:
  "search ex_exhausted 99 = Some (Some 98, ex_exhausted)
   \<and> 0 < ORDER ex_params \<and> 0 < sizeof_Node ex_params
   \<and> (\<exists>t r'. built ex_params 1000 ex_mem (objs [(1, 10), (2, 20), (3, 30), (4, 40)]) = Some (Inr t)
         \<and> search t 2 = Some (r', t))"
proof -
  have a: "search ex_exhausted 99 = Some (Some 98, ex_exhausted)"
    by (simp add: search_def search_loop.simps findPos_def findPos_blocks.simps
          findPos_rest.simps ex_exhausted_def ex_mem_def)
  from scenario_states [OF ex_params_valid ex_params_order ex_params_fit, of 1000 ex_mem 10 20 30 40 50]
  obtain t where
    i: "built ex_params 1000 ex_mem (objs [(1, 10), (2, 20), (3, 30), (4, 40)]) = Some (Inr t)"
    by blast
  from search_no_mutation [of t 2 None t ex_params 1000 ex_mem
      "objs [(1, 10), (2, 20), (3, 30), (4, 40)]"]
    ex_params_pos i
  obtain r' where "search t 2 = Some (r', t)" by blast
  with a search_no_mutation [of ex_exhausted 99 "Some 98" ex_exhausted ex_params 1000 ex_mem "[]"]
    ex_params_pos i
  show ?thesis by blast
qed

end
